(* ===== verification/Prelude.thy ===== *)
theory Prelude
  imports Main "HOL-Library.Word" "HOL-Library.Monad_Syntax" "HOL-Library.AList"
begin

text \<open>
  Shared vocabulary of the talkrypt development.

  \<^item> Machine types: \<open>byte\<close> is Rust's \<open>u8\<close>; \<open>u16\<close>, \<open>u32\<close>, \<open>u64\<close> are words;
    \<open>usize\<close> values are naturals, and the places where the code uses checked arithmetic
    on them go through \<open>checked_add\<close> with the 64-bit bound written out.
  \<^item> A Rust \<open>String\<close> is its UTF-8 bytes, so \<open>as_bytes\<close> is the identity and
    \<open>String::from_utf8\<close> is the validity test \<open>utf8_valid\<close>.
  \<^item> A \<open>Result<T, E>\<close> is \<open>'e + 'a\<close>; the \<open>?\<close> operator is \<open>bind_result\<close>.
  \<^item> Big-endian integers: \<open>be_bytes\<close> and \<open>be_nat\<close>, with the two inverse laws every
    codec of the development rests on.
  \<^item> The generic facts about lists, options and maps that several components use.
\<close>

type_synonym byte = "8 word"
type_synonym u16 = "16 word"
type_synonym u32 = "32 word"
type_synonym u64 = "64 word"
type_synonym bytes = "byte list"
type_synonym str = "byte list"

named_theorems result_simps \<open>rewriting of the question-mark operator\<close>
named_theorems eval_simps \<open>evaluation of closed instances\<close>
named_theorems codec_simps \<open>encoders and decoders of wire fields\<close>

section \<open>Results\<close>

definition bind_result :: "'e + 'a \<Rightarrow> ('a \<Rightarrow> 'e + 'b) \<Rightarrow> 'e + 'b" where
  "bind_result m f = (case m of Inl e \<Rightarrow> Inl e | Inr x \<Rightarrow> f x)"

definition map_err :: "('e \<Rightarrow> 'f) \<Rightarrow> 'e + 'a \<Rightarrow> 'f + 'a" where
  "map_err g m = (case m of Inl e \<Rightarrow> Inl (g e) | Inr x \<Rightarrow> Inr x)"

definition ok_or :: "'e \<Rightarrow> 'a option \<Rightarrow> 'e + 'a" where
  "ok_or e x = (case x of None \<Rightarrow> Inl e | Some v \<Rightarrow> Inr v)"

definition ok :: "'e + 'a \<Rightarrow> 'a option" where
  "ok m = (case m of Inl e \<Rightarrow> None | Inr x \<Rightarrow> Some x)"

lemma bind_result_Inl [simp]: "bind_result (Inl e) f = Inl e"
  and bind_result_Inr [simp]: "bind_result (Inr x) f = f x"
  by (simp_all add: bind_result_def)

lemma bind_result_eq_Inr [result_simps]:
  "bind_result m f = Inr y \<longleftrightarrow> (\<exists>x. m = Inr x \<and> f x = Inr y)"
  by (cases m) auto

lemma bind_result_eq_Inl [result_simps]:
  "bind_result m f = Inl e \<longleftrightarrow> m = Inl e \<or> (\<exists>x. m = Inr x \<and> f x = Inl e)"
  by (cases m) auto

lemma map_err_Inl [simp]: "map_err g (Inl e) = Inl (g e)"
  and map_err_Inr [simp]: "map_err g (Inr x) = Inr x"
  by (simp_all add: map_err_def)

lemma map_err_eq_Inr [simp]: "map_err g m = Inr x \<longleftrightarrow> m = Inr x"
  by (cases m) auto

lemma ok_or_Some [simp]: "ok_or e (Some v) = Inr v"
  and ok_or_None [simp]: "ok_or e None = Inl e"
  by (simp_all add: ok_or_def)

lemma ok_or_eq_Inr [simp]: "ok_or e x = Inr v \<longleftrightarrow> x = Some v"
  by (cases x) auto

lemma ok_Inl [simp]: "ok (Inl e) = None"
  and ok_Inr [simp]: "ok (Inr x) = Some x"
  by (simp_all add: ok_def)

lemma ok_eq_Some [simp]: "ok m = Some x \<longleftrightarrow> m = Inr x"
  by (cases m) auto

lemma case_sum_eq_Some:
  "(case r of Inl e \<Rightarrow> f e | Inr x \<Rightarrow> g x) = Some y \<longleftrightarrow>
    (\<exists>e. r = Inl e \<and> f e = Some y) \<or> (\<exists>x. r = Inr x \<and> g x = Some y)"
  by (cases r) auto

section \<open>Machine arithmetic\<close>

definition usize_limit :: nat where
  "usize_limit = 2 ^ 64"

definition checked_add :: "nat \<Rightarrow> nat \<Rightarrow> nat option" where
  "checked_add a b = (if a + b < usize_limit then Some (a + b) else None)"

definition div_ceil :: "nat \<Rightarrow> nat \<Rightarrow> nat" where
  "div_ceil a b = (if a mod b = 0 then a div b else a div b + 1)"

lemma checked_add_eq_Some: "checked_add a b = Some c \<longleftrightarrow> c = a + b \<and> a + b < usize_limit"
  by (auto simp: checked_add_def)

lemma div_ceil_bounds:
  assumes "0 < b"
  shows "a \<le> div_ceil a b * b" and "0 < a \<Longrightarrow> (div_ceil a b - 1) * b < a"
proof -
  have split: "a div b * b + a mod b = a" by simp
  have "a mod b < b" using assms by simp
  then have "a \<le> a div b * b + b" using split by linarith
  then show "a \<le> div_ceil a b * b"
    using split by (auto simp: div_ceil_def add_mult_distrib add.commute)
  show "(div_ceil a b - 1) * b < a" if "0 < a"
  proof (cases "a mod b = 0")
    case True
    then have "a = a div b * b" using split by linarith
    moreover from this that have "0 < a div b" by (metis mult_0 neq0_conv)
    ultimately show ?thesis using True assms
      by (metis div_ceil_def diff_less less_one mult_less_mono1 neq0_conv)
  next
    case False
    then have "a div b * b < a"
      using mod_greater_zero_iff_not_dvd mod_eq_0_iff_dvd split by (metis less_add_same_cancel1)
    with False show ?thesis by (simp add: div_ceil_def)
  qed
qed

section \<open>Big-endian integers\<close>

fun be_bytes :: "nat \<Rightarrow> nat \<Rightarrow> bytes" where
  "be_bytes 0 v = []"
| "be_bytes (Suc k) v = of_nat (v div 256 ^ k) # be_bytes k v"

fun be_acc :: "nat \<Rightarrow> bytes \<Rightarrow> nat" where
  "be_acc a [] = a"
| "be_acc a (b # bs) = be_acc (a * 256 + unat b) bs"

definition be_nat :: "bytes \<Rightarrow> nat" where
  "be_nat bs = be_acc 0 bs"

lemma length_be_bytes [simp]: "length (be_bytes k v) = k"
  by (induction k) auto

lemma be_acc_shift: "be_acc a bs = a * 256 ^ length bs + be_acc 0 bs"
proof (induction bs arbitrary: a)
  case (Cons b bs)
  have "be_acc a (b # bs) = (a * 256 + unat b) * 256 ^ length bs + be_acc 0 bs"
    using Cons.IH[of "a * 256 + unat b"] by simp
  moreover have "be_acc 0 (b # bs) = unat b * 256 ^ length bs + be_acc 0 bs"
    using Cons.IH[of "unat b"] by simp
  ultimately show ?case by (simp add: algebra_simps)
qed simp

lemma be_nat_Nil [simp]: "be_nat [] = 0"
  by (simp add: be_nat_def)

lemma be_nat_Cons: "be_nat (b # bs) = unat b * 256 ^ length bs + be_nat bs"
  unfolding be_nat_def using be_acc_shift[of "unat b" bs] by simp

lemma unat_byte_less [simp]: "unat (b :: byte) < 256"
  using unsigned_less[of b, where 'a = nat] by simp

lemma be_nat_less: "be_nat bs < 256 ^ length bs"
proof (induction bs)
  case (Cons b bs)
  have "unat b * 256 ^ length bs + be_nat bs < (unat b + 1) * 256 ^ length bs"
    using Cons.IH by (simp add: add_mult_distrib)
  also have "\<dots> \<le> 256 * 256 ^ length bs"
    by (rule mult_le_mono1) (use unat_byte_less[of b] in linarith)
  finally show ?case by (simp add: be_nat_Cons)
qed simp

lemma unat_of_nat_byte [simp]: "unat (of_nat n :: byte) = n mod 256"
  by (simp add: unat_of_nat)

lemma be_nat_be_bytes: "be_nat (be_bytes k v) = v mod 256 ^ k"
proof (induction k)
  case (Suc k)
  have "v mod (256 ^ k * 256) = 256 ^ k * (v div 256 ^ k mod 256) + v mod 256 ^ k"
    by (rule mod_mult2_eq)
  then show ?case by (simp add: be_nat_Cons Suc mult.commute)
qed simp

lemma be_nat_be_bytes_less [simp]: "v < 256 ^ k \<Longrightarrow> be_nat (be_bytes k v) = v"
  by (simp add: be_nat_be_bytes)

lemma be_bytes_add_mult: "be_bytes k (a * 256 ^ k + v) = be_bytes k v"
proof (induction k arbitrary: a)
  case (Suc k)
  have eq: "a * 256 ^ Suc k + v = (a * 256) * 256 ^ k + v"
    by simp
  have "(a * 256 ^ Suc k + v) div 256 ^ k = a * 256 + v div 256 ^ k"
    unfolding eq by (subst div_mult_self3) auto
  then have "(of_nat ((a * 256 ^ Suc k + v) div 256 ^ k) :: byte) = of_nat (v div 256 ^ k)"
    by (intro word_eq_iff_unsigned[where 'a = nat, THEN iffD2]) (simp only: unat_of_nat_byte mod_mult_self3)
  then show ?case using Suc[of "a * 256"] eq by (simp add: mult.assoc)
qed simp

lemma be_bytes_be_nat [simp]: "be_bytes (length bs) (be_nat bs) = bs"
proof (induction bs)
  case (Cons b bs)
  have "(unat b * 256 ^ length bs + be_nat bs) div 256 ^ length bs = unat b"
    using be_nat_less[of bs] by simp
  moreover have "be_bytes (length bs) (unat b * 256 ^ length bs + be_nat bs) = bs"
    using Cons be_bytes_add_mult by metis
  ultimately show ?case by (simp add: be_nat_Cons)
qed simp

lemma be_bytes_numeral [eval_simps]:
  "be_bytes (numeral k) v = of_nat (v div 256 ^ pred_numeral k) # be_bytes (pred_numeral k) v"
  by (simp add: numeral_eq_Suc)

definition u16_be :: "u16 \<Rightarrow> bytes" where
  "u16_be w = be_bytes 2 (unat w)"

definition u32_be :: "u32 \<Rightarrow> bytes" where
  "u32_be w = be_bytes 4 (unat w)"

definition u64_be :: "u64 \<Rightarrow> bytes" where
  "u64_be w = be_bytes 8 (unat w)"

definition u16_from_be :: "bytes \<Rightarrow> u16" where
  "u16_from_be bs = of_nat (be_nat bs)"

definition u32_from_be :: "bytes \<Rightarrow> u32" where
  "u32_from_be bs = of_nat (be_nat bs)"

definition u64_from_be :: "bytes \<Rightarrow> u64" where
  "u64_from_be bs = of_nat (be_nat bs)"

lemmas uN_eval [eval_simps] =
  u16_be_def u32_be_def u64_be_def u16_from_be_def u32_from_be_def u64_from_be_def be_nat_def

lemma length_uN_be [simp]:
  "length (u16_be a) = 2" "length (u32_be b) = 4" "length (u64_be c) = 8"
  by (simp_all add: u16_be_def u32_be_def u64_be_def)

lemma u16_from_be_be [simp]: "u16_from_be (u16_be w) = w"
  using unsigned_less[of w, where 'a = nat] by (simp add: u16_be_def u16_from_be_def)

lemma u32_from_be_be [simp]: "u32_from_be (u32_be w) = w"
  using unsigned_less[of w, where 'a = nat] by (simp add: u32_be_def u32_from_be_def)

lemma u64_from_be_be [simp]: "u64_from_be (u64_be w) = w"
  using unsigned_less[of w, where 'a = nat] by (simp add: u64_be_def u64_from_be_def)

lemma u16_be_from_be: "length bs = 2 \<Longrightarrow> u16_be (u16_from_be bs) = bs"
  using be_nat_less[of bs] be_bytes_be_nat[of bs]
  by (simp add: u16_be_def u16_from_be_def unat_of_nat)

lemma u32_be_from_be: "length bs = 4 \<Longrightarrow> u32_be (u32_from_be bs) = bs"
  using be_nat_less[of bs] be_bytes_be_nat[of bs]
  by (simp add: u32_be_def u32_from_be_def unat_of_nat)

lemma u64_be_from_be: "length bs = 8 \<Longrightarrow> u64_be (u64_from_be bs) = bs"
  using be_nat_less[of bs] be_bytes_be_nat[of bs]
  by (simp add: u64_be_def u64_from_be_def unat_of_nat)

lemma unat_u32_of_nat [simp]: "n < 2 ^ 32 \<Longrightarrow> unat (of_nat n :: u32) = n"
  by (simp add: unat_of_nat)

lemma unat_u16_of_nat [simp]: "n < 2 ^ 16 \<Longrightarrow> unat (of_nat n :: u16) = n"
  by (simp add: unat_of_nat)

lemma unat_ucast_byte [simp]: "unat (ucast (c :: byte) :: u32) = unat c"
proof -
  have "unat c < 2 ^ 32" by (rule less_trans[OF unat_byte_less]) simp
  then show ?thesis by (simp add: unsigned_ucast_eq take_bit_nat_eq_self_iff)
qed

lemma no_high_bits:
  assumes "unat (v :: 'a::len word) < 2 ^ k" "k \<le> i"
  shows "\<not> bit v i"
proof -
  have "unat v < 2 ^ i" using assms by (meson one_le_numeral order_less_le_trans power_increasing)
  then have "\<not> bit (unat v) i" by (simp add: bit_iff_odd)
  then show ?thesis by (auto simp: bit_unsigned_iff bit_imp_le_length)
qed

lemma unat_Suc_word: "a < (b :: 'a::len word) \<Longrightarrow> unat (a + 1) = Suc (unat a)"
proof -
  assume "a < b"
  then have "Suc (unat a) < 2 ^ LENGTH('a)"
    using unsigned_less[of b, where 'a = nat] unfolding word_less_nat_alt by linarith
  then show "unat (a + 1) = Suc (unat a)" by (simp add: unat_word_ariths)
qed

lemma word_count_up: "a < (b :: 'a::len word) \<Longrightarrow> unat b - unat (a + 1) < unat b - unat a"
  using unat_Suc_word[of a b] by (simp add: word_less_nat_alt)

lemma unat_minus_1_u32: "unat (- 1 :: u32) = 2 ^ 32 - 1"
  by (simp add: unsigned_minus_1_eq_mask mask_eq_exp_minus_1)

lemma word_less_Suc: "a < (b :: 'a::len word) \<Longrightarrow> k < a + 1 \<longleftrightarrow> k \<le> a"
  by (simp add: word_less_nat_alt word_le_nat_alt unat_Suc_word less_Suc_eq_le)

section \<open>Text\<close>

definition ascii :: "string \<Rightarrow> str" where
  "ascii s = map of_char s"

text \<open>
  The validity test of \<open>String::from_utf8\<close>: the well-formed byte sequences of the
  Unicode standard (no overlong forms, no surrogates, nothing above U+10FFFF).
\<close>

definition cont :: "byte \<Rightarrow> bool" where
  "cont b \<longleftrightarrow> 0x80 \<le> b \<and> b \<le> 0xBF"

fun utf8_valid :: "bytes \<Rightarrow> bool" where
  "utf8_valid [] = True"
| "utf8_valid (a # bs) =
    (if a \<le> 0x7F then utf8_valid bs
     else if 0xC2 \<le> a \<and> a \<le> 0xDF then
       (case bs of b # r \<Rightarrow> cont b \<and> utf8_valid r | _ \<Rightarrow> False)
     else if 0xE0 \<le> a \<and> a \<le> 0xEF then
       (case bs of b # c # r \<Rightarrow>
          cont b \<and> (a = 0xE0 \<longrightarrow> 0xA0 \<le> b) \<and> (a = 0xED \<longrightarrow> b \<le> 0x9F) \<and>
          cont c \<and> utf8_valid r
        | _ \<Rightarrow> False)
     else if 0xF0 \<le> a \<and> a \<le> 0xF4 then
       (case bs of b # c # d # r \<Rightarrow>
          cont b \<and> (a = 0xF0 \<longrightarrow> 0x90 \<le> b) \<and> (a = 0xF4 \<longrightarrow> b \<le> 0x8F) \<and>
          cont c \<and> cont d \<and> utf8_valid r
        | _ \<Rightarrow> False)
     else False)"

definition from_utf8 :: "bytes \<Rightarrow> str option" where
  "from_utf8 bs = (if utf8_valid bs then Some bs else None)"

lemma from_utf8_eq_Some [simp]: "from_utf8 bs = Some s \<longleftrightarrow> s = bs \<and> utf8_valid bs"
  by (auto simp: from_utf8_def)

lemma utf8_valid_ascii_list: "list_all (\<lambda>b. b \<le> 0x7F) bs \<Longrightarrow> utf8_valid bs"
  by (induction bs) auto

section \<open>Prefix codes\<close>

text \<open>
  The contract of a self-delimiting encoding: whatever follows it, the encoded value and
  the rest can be told apart. Byte strings assembled from such fields (signed bodies, KDF
  labels, message frames) determine their fields.
\<close>

locale prefix_code =
  fixes enc :: "'a \<Rightarrow> bytes" and wf :: "'a \<Rightarrow> bool"
  assumes prefix_free: "enc x @ p = enc y @ q \<Longrightarrow> wf x \<Longrightarrow> wf y \<Longrightarrow> x = y \<and> p = q"
begin

lemma enc_inj: "enc x = enc y \<Longrightarrow> wf x \<Longrightarrow> wf y \<Longrightarrow> x = y"
  using prefix_free[of x "[]" y "[]"] by simp

lemma enc_append_iff: "wf x \<Longrightarrow> wf y \<Longrightarrow> enc x @ p = enc y @ q \<longleftrightarrow> x = y \<and> p = q"
  using prefix_free by blast

lemma enc_eq_iff: "wf x \<Longrightarrow> wf y \<Longrightarrow> enc x = enc y \<longleftrightarrow> x = y"
  using enc_inj by blast

end

section \<open>Lists and maps\<close>

lemma map_add_remove: "n k = None \<Longrightarrow> m(k := None) ++ n = (m ++ n)(k := None)"
  by (simp add: fun_eq_iff map_add_def split: option.split)

lemma map_add_remove_right: "m k = None \<Longrightarrow> m ++ n(k := None) = (m ++ n)(k := None)"
  by (simp add: fun_eq_iff map_add_def split: option.split)

lemma distinct_map_filter_fst: "distinct (map fst xs) \<Longrightarrow> distinct (map fst (filter P xs))"
  by (induction xs) (auto simp: image_iff)

lemma filter_ne_id: "x \<notin> set xs \<Longrightarrow> filter (\<lambda>y. y \<noteq> x) xs = xs"
  by (induction xs) auto

section \<open>Association lists with distinct keys\<close>

lemma length_update: "length (AList.update k v xs) \<le> Suc (length xs)"
  by (induction xs) auto

lemma length_delete: "length (AList.delete k xs) \<le> length xs"
  by (simp add: AList.delete_eq)

lemma update_absent: "map_of xs k = None \<Longrightarrow> AList.update k v xs = xs @ [(k, v)]"
  by (induction xs) (auto split: if_splits)

lemma delete_absent: "map_of xs k = None \<Longrightarrow> AList.delete k xs = xs"
  by (induction xs) (auto simp: AList.delete_eq split: if_splits)

lemma length_update_present: "map_of xs k = Some v0 \<Longrightarrow> length (AList.update k v xs) = length xs"
  by (induction xs) (auto split: if_splits)

lemma sum_delete:
  "distinct (map fst xs) \<Longrightarrow> map_of xs k = Some v \<Longrightarrow>
    sum_list (map (f \<circ> snd) (AList.delete k xs)) + f v = (sum_list (map (f \<circ> snd) xs) :: nat)"
  by (induction xs) (auto simp: delete_absent map_of_eq_None_iff image_iff split: if_splits)

lemma sum_update:
  "map_of xs k = Some v0 \<Longrightarrow>
    sum_list (map (f \<circ> snd) (AList.update k v xs)) + f v0 = (sum_list (map (f \<circ> snd) xs) + f v :: nat)"
  by (induction xs) (auto split: if_splits)

lemma values_delete: "snd ` set (AList.delete k xs) \<subseteq> snd ` set xs"
  by (auto simp: AList.delete_eq)

lemma values_update: "snd ` set (AList.update k v xs) \<subseteq> insert v (snd ` set xs)"
  by (induction xs) auto

lemma map_of_value: "map_of xs k = Some v \<Longrightarrow> v \<in> snd ` set xs"
  by (force dest: map_of_SomeD)

lemma keys_delete: "fst ` set (AList.delete k xs) = fst ` set xs - {k}"
  by (auto simp: AList.delete_eq)

lemma keys_update: "fst ` set (AList.update k v xs) = insert k (fst ` set xs)"
  by (simp add: dom_update)

end
