(* ===== verification/Wire.thy ===== *)
theory Wire
  imports Prelude
begin

text \<open>
  The wire codec, \<open>src/crates/wire/src/lib.rs\<close>: the appending \<open>writer\<close>, the cursor
  \<open>reader\<close> with its \<open>MAX_FRAME\<close> bound, the length-bucketing pad, and the fixed-capacity
  decoder of the \<open>bounded\<close> module. The locale \<open>field_codec\<close> is the contract of one kind
  of field (what a reader returns after the writer appended it, and that it accepts
  nothing else); it is interpreted for \<open>u8\<close>, \<open>u32\<close>, \<open>u64\<close> and length-prefixed bytes,
  and the message codecs of the other theories rest on the interpreted facts.
\<close>

section \<open>Writer and reader\<close>

definition MAX_FRAME :: nat where
  "MAX_FRAME = 16 * 1024 * 1024"

datatype wire_error =
    UnexpectedEof nat nat
  | FrameTooLarge nat nat
  | TrailingBytes nat

record writer =
  wbuf :: bytes

definition writer_new :: writer where
  "writer_new = \<lparr>wbuf = []\<rparr>"

definition put_u8 :: "writer \<Rightarrow> byte \<Rightarrow> writer" where
  "put_u8 w v = w\<lparr>wbuf := wbuf w @ [v]\<rparr>"

definition put_u32 :: "writer \<Rightarrow> u32 \<Rightarrow> writer" where
  "put_u32 w v = w\<lparr>wbuf := wbuf w @ u32_be v\<rparr>"

definition put_u64 :: "writer \<Rightarrow> u64 \<Rightarrow> writer" where
  "put_u64 w v = w\<lparr>wbuf := wbuf w @ u64_be v\<rparr>"

text \<open>The length is cast to \<open>u32\<close> (it wraps); the \<open>debug_assert\<close> is not in release builds.\<close>

definition put_bytes :: "writer \<Rightarrow> bytes \<Rightarrow> writer" where
  "put_bytes w bs =
     (let w1 = put_u32 w (of_nat (length bs)) in w1\<lparr>wbuf := wbuf w1 @ bs\<rparr>)"

definition into_vec :: "writer \<Rightarrow> bytes" where
  "into_vec w = wbuf w"

record reader =
  rbuf :: bytes
  rpos :: nat

definition reader_new :: "bytes \<Rightarrow> reader" where
  "reader_new bs = \<lparr>rbuf = bs, rpos = 0\<rparr>"

definition remaining :: "reader \<Rightarrow> nat" where
  "remaining r = length (rbuf r) - rpos r"

definition rest :: "reader \<Rightarrow> bytes" where
  "rest r = drop (rpos r) (rbuf r)"

definition take_n :: "reader \<Rightarrow> nat \<Rightarrow> wire_error + bytes \<times> reader" where
  "take_n r n =
     (case checked_add (rpos r) n of
        None \<Rightarrow> Inl (UnexpectedEof n (remaining r))
      | Some end_pos \<Rightarrow>
          if end_pos > length (rbuf r) then Inl (UnexpectedEof n (remaining r))
          else Inr (take (end_pos - rpos r) (drop (rpos r) (rbuf r)), r\<lparr>rpos := end_pos\<rparr>))"

definition get_u8 :: "reader \<Rightarrow> wire_error + byte \<times> reader" where
  "get_u8 r = bind_result (take_n r 1) (\<lambda>(b, r). Inr (b ! 0, r))"

definition get_u32 :: "reader \<Rightarrow> wire_error + u32 \<times> reader" where
  "get_u32 r = bind_result (take_n r 4) (\<lambda>(b, r). Inr (u32_from_be [b ! 0, b ! 1, b ! 2, b ! 3], r))"

definition get_u64 :: "reader \<Rightarrow> wire_error + u64 \<times> reader" where
  "get_u64 r = bind_result (take_n r 8) (\<lambda>(b, r).
     Inr (u64_from_be [b ! 0, b ! 1, b ! 2, b ! 3, b ! 4, b ! 5, b ! 6, b ! 7], r))"

definition get_bytes :: "reader \<Rightarrow> wire_error + bytes \<times> reader" where
  "get_bytes r = bind_result (get_u32 r) (\<lambda>(len, r).
     if unat len > MAX_FRAME then Inl (FrameTooLarge (unat len) MAX_FRAME)
     else take_n r (unat len))"

definition get_vec :: "reader \<Rightarrow> wire_error + bytes \<times> reader" where
  "get_vec r = get_bytes r"

definition finish :: "reader \<Rightarrow> wire_error + unit" where
  "finish r = (if remaining r \<noteq> 0 then Inl (TrailingBytes (remaining r)) else Inr ())"

section \<open>Length-bucketing pad\<close>

definition clamp :: "nat \<Rightarrow> nat \<Rightarrow> nat \<Rightarrow> nat" where
  "clamp lo hi x = (if x < lo then lo else if x > hi then hi else x)"

definition padded_len :: "nat \<Rightarrow> nat \<Rightarrow> nat" where
  "padded_len raw step =
     (let step = clamp 1 MAX_FRAME step
      in case checked_add raw (step - 1) of
           Some x \<Rightarrow> (x div step) * step
         | None \<Rightarrow> raw)"

definition vec_resize :: "'a list \<Rightarrow> nat \<Rightarrow> 'a \<Rightarrow> 'a list" where
  "vec_resize v n x = take n v @ replicate (n - length v) x"

definition pad_to_bucket :: "bytes \<Rightarrow> nat \<Rightarrow> bytes" where
  "pad_to_bucket payload step =
     (let raw = 4 + length payload;
          tot = max (padded_len raw step) raw;
          out = u32_be (of_nat (length payload)) @ payload
      in vec_resize out tot 0)"

definition unpad_bucket :: "bytes \<Rightarrow> bytes option" where
  "unpad_bucket padded =
     (if length padded < 4 then None
      else let real = unat (u32_from_be [padded ! 0, padded ! 1, padded ! 2, padded ! 3])
           in if real > MAX_FRAME then None
              else case checked_add 4 real of
                     None \<Rightarrow> None
                   | Some tot \<Rightarrow>
                       if tot > length padded then None
                       else Some (take real (drop 4 padded)))"

section \<open>The fixed-capacity decoder\<close>

definition MAX_ITEMS :: nat where "MAX_ITEMS = 4"

definition MAX_FIELD :: nat where "MAX_FIELD = 8"

record bitem =
  bi_label_len :: nat
  bi_label :: bytes
  bi_data_len :: nat
  bi_data :: bytes

record bdoc =
  bdoc_n :: nat
  bdoc_items :: "bitem list"

definition empty_bitem :: bitem where
  "empty_bitem = \<lparr>bi_label_len = 0, bi_label = replicate MAX_FIELD 0,
                  bi_data_len = 0, bi_data = replicate MAX_FIELD 0\<rparr>"

text \<open>The copy loop \<open>while j < l { dst[j] = bytes[pos + j]; j += 1 }\<close>.\<close>

function copy_field :: "bytes \<Rightarrow> bytes \<Rightarrow> nat \<Rightarrow> nat \<Rightarrow> nat \<Rightarrow> bytes" where
  "copy_field dst bs pos j l =
     (if j < l then copy_field (dst[j := bs ! (pos + j)]) bs pos (j + 1) l else dst)"
  by pat_completeness auto
termination
  by (relation "measure (\<lambda>(dst, bs, pos, j, l). l - j)") auto

text \<open>
  One field of an item: a one-byte length at \<open>pos\<close>, bounded by \<open>MAX_FIELD\<close> and by the
  input, then the bytes; the result is the length, the filled array and the new position.
\<close>

definition bounded_field :: "bytes \<Rightarrow> nat \<Rightarrow> bytes \<Rightarrow> (nat \<times> bytes \<times> nat) option" where
  "bounded_field bs pos dst =
     (if pos \<ge> length bs then None
      else let l = unat (bs ! pos); pos = pos + 1
           in if l > MAX_FIELD \<or> l > length bs - pos then None
              else Some (l, copy_field dst bs pos 0 l, pos + l))"

function bounded_items :: "bytes \<Rightarrow> nat \<Rightarrow> nat \<Rightarrow> nat \<Rightarrow> bitem list \<Rightarrow> bitem list option" where
  "bounded_items bs n i pos its =
     (if i < n then
        (case bounded_field bs pos (bi_label (its ! i)) of
           None \<Rightarrow> None
         | Some (ll, lab, pos) \<Rightarrow>
             (case bounded_field bs pos (bi_data (its ! i)) of
                None \<Rightarrow> None
              | Some (dl, dat, pos) \<Rightarrow>
                  bounded_items bs n (i + 1) pos
                    (its[i := \<lparr>bi_label_len = ll, bi_label = lab, bi_data_len = dl, bi_data = dat\<rparr>])))
      else Some its)"
  by pat_completeness auto
termination
  by (relation "measure (\<lambda>(bs, n, i, pos, its). n - i)") auto

definition bounded_decode :: "bytes \<Rightarrow> bdoc option" where
  "bounded_decode bs =
     (if bs = [] then None
      else let n = unat (bs ! 0)
           in if n > MAX_ITEMS then None
              else case bounded_items bs n 0 1 (replicate MAX_ITEMS empty_bitem) of
                     None \<Rightarrow> None
                   | Some its \<Rightarrow> Some \<lparr>bdoc_n = n, bdoc_items = its\<rparr>)"

declare copy_field.simps [simp del] bounded_items.simps [simp del]

section \<open>The contract of a field\<close>

text \<open>
  A reader is well formed when its cursor is inside the buffer and the buffer has a
  \<open>usize\<close> length, as every Rust slice has. \<open>reader_at p q\<close> is the reader that has
  consumed \<open>p\<close> and has \<open>q\<close> left.
\<close>

definition reader_ok :: "reader \<Rightarrow> bool" where
  "reader_ok r \<longleftrightarrow> rpos r \<le> length (rbuf r) \<and> length (rbuf r) < usize_limit"

definition reader_at :: "bytes \<Rightarrow> bytes \<Rightarrow> reader" where
  "reader_at p q = \<lparr>rbuf = p @ q, rpos = length p\<rparr>"

definition advance :: "nat \<Rightarrow> reader \<Rightarrow> reader" where
  "advance n r = r\<lparr>rpos := rpos r + n\<rparr>"

lemma reader_new_at [codec_simps]: "reader_new bs = reader_at [] bs"
  by (simp add: reader_new_def reader_at_def)

lemma rest_reader_at [simp]: "rest (reader_at p q) = q"
  by (simp add: rest_def reader_at_def)

lemma reader_ok_at [simp]: "reader_ok (reader_at p q) \<longleftrightarrow> length p + length q < usize_limit"
  by (simp add: reader_ok_def reader_at_def)

lemma reader_ok_new [simp]: "reader_ok (reader_new bs) \<longleftrightarrow> length bs < usize_limit"
  by (simp add: reader_ok_def reader_new_def)

lemma rest_new [simp]: "rest (reader_new bs) = bs"
  by (simp add: rest_def reader_new_def)

lemma advance_reader_at: "advance (length x) (reader_at p (x @ q)) = reader_at (p @ x) q"
  by (simp add: advance_def reader_at_def)

lemma rest_advance [simp]: "rest r = x @ q \<Longrightarrow> rest (advance (length x) r) = q"
  unfolding rest_def advance_def by (simp add: append_eq_conv_conj add.commute flip: drop_drop)

lemma reader_ok_advance: "reader_ok r \<Longrightarrow> rest r = x @ q \<Longrightarrow> reader_ok (advance (length x) r)"
  by (drule arg_cong[of "rest r" _ length]) (auto simp: rest_def advance_def reader_ok_def)

lemma finish_reader_at [codec_simps]:
  "finish (reader_at p q) = (if q = [] then Inr () else Inl (TrailingBytes (length q)))"
  by (simp add: finish_def remaining_def reader_at_def)

lemma finish_eq_Inr: "reader_ok r \<Longrightarrow> finish r = Inr () \<longleftrightarrow> rest r = []"
  by (auto simp: finish_def remaining_def rest_def reader_ok_def)

lemma take_n_iff:
  assumes "reader_ok r"
  shows "take_n r n = Inr (x, r') \<longleftrightarrow>
           length x = n \<and> (\<exists>q. rest r = x @ q) \<and> r' = advance n r"
proof -
  have "take_n r n = Inr (x, r') \<longleftrightarrow>
          rpos r + n \<le> length (rbuf r) \<and> x = take n (rest r) \<and> r' = advance n r"
    using assms
    by (auto simp: take_n_def checked_add_def reader_ok_def rest_def advance_def)
  also have "\<dots> \<longleftrightarrow> n \<le> length (rest r) \<and> x = take n (rest r) \<and> r' = advance n r"
    using assms by (auto simp: rest_def reader_ok_def)
  also have "\<dots> \<longleftrightarrow> length x = n \<and> (\<exists>q. rest r = x @ q) \<and> r' = advance n r"
    by (auto intro: exI[of _ "drop n (rest r)"])
  finally show ?thesis .
qed

locale field_codec =
  fixes put :: "writer \<Rightarrow> 'a \<Rightarrow> writer"
    and get :: "reader \<Rightarrow> wire_error + 'a \<times> reader"
    and enc :: "'a \<Rightarrow> bytes"
    and wf :: "'a \<Rightarrow> bool"
  assumes put_enc: "wbuf (put w x) = wbuf w @ enc x"
    and get_iff: "reader_ok r \<Longrightarrow>
      get r = Inr (x, r') \<longleftrightarrow> wf x \<and> (\<exists>q. rest r = enc x @ q) \<and> r' = advance (length (enc x)) r"
begin

text \<open>What was written is what is read, and the cursor stands right after it.\<close>

lemma get_at:
  assumes "wf x" and "length p + length (enc x) + length q < usize_limit"
  shows "get (reader_at p (enc x @ q)) = Inr (x, reader_at (p @ enc x) q)"
  using assms get_iff[of "reader_at p (enc x @ q)" x] by (simp add: advance_reader_at add.assoc)

text \<open>A successful read consumes exactly the canonical encoding of its result.\<close>

lemma get_consumes:
  assumes "reader_ok r" and "get r = Inr (x, r')"
  shows "wf x" and "rest r = enc x @ rest r'" and "reader_ok r'"
  using assms by (auto simp: get_iff reader_ok_advance)

text \<open>The encodings are prefix-free: a stream of fields has one reading.\<close>

lemma enc_prefix_free:
  assumes "wf x" "wf y" "enc x @ p = enc y @ q" "length (enc x @ p) < usize_limit"
  shows "x = y \<and> p = q"
proof -
  have ok: "reader_ok (reader_at [] (enc x @ p))" using assms(4) by simp
  have "get (reader_at [] (enc x @ p)) = Inr (x, reader_at (enc x) p)"
    using get_at[of x "[]" p] assms(1,4) by simp
  moreover have "get (reader_at [] (enc x @ p)) = Inr (y, reader_at (enc y) q)"
    using get_at[of y "[]" q] assms(2-4) by simp
  ultimately show ?thesis using assms(3) by simp
qed

end

text \<open>The three fixed-width integers share one argument: the window has the field's width.\<close>

lemma fixed_width_iff:
  assumes ok: "reader_ok r" and inv: "\<And>b. length b = n \<Longrightarrow> dec b = x \<longleftrightarrow> b = e"
    and len: "length e = n"
  shows "bind_result (take_n r n) (\<lambda>(b, r). Inr (dec b, r)) = Inr (x, r') \<longleftrightarrow>
           (\<exists>q. rest r = e @ q) \<and> r' = advance n r"
proof -
  have "bind_result (take_n r n) (\<lambda>(b, r). Inr (dec b, r)) = Inr (x, r') \<longleftrightarrow>
          (\<exists>b. take_n r n = Inr (b, r') \<and> dec b = x)"
    by (auto simp: result_simps)
  also have "\<dots> \<longleftrightarrow> take_n r n = Inr (e, r')"
    using ok inv len by (auto simp: take_n_iff)
  finally show ?thesis using ok len by (simp add: take_n_iff)
qed

lemma list_of_length_4: "length b = 4 \<Longrightarrow> [b ! 0, b ! Suc 0, b ! 2, b ! 3] = b"
  by (auto simp: list_eq_iff_nth_eq less_Suc_eq numeral_eq_Suc nth_Cons split: nat.splits)

lemma list_of_length_8:
  "length b = 8 \<Longrightarrow> [b ! 0, b ! Suc 0, b ! 2, b ! 3, b ! 4, b ! 5, b ! 6, b ! 7] = b"
  by (auto simp: list_eq_iff_nth_eq less_Suc_eq numeral_eq_Suc nth_Cons split: nat.splits)

lemma get_u8_iff:
  "reader_ok r \<Longrightarrow> get_u8 r = Inr (x, r') \<longleftrightarrow> (\<exists>q. rest r = [x] @ q) \<and> r' = advance 1 r"
  unfolding get_u8_def by (rule fixed_width_iff) (auto simp: length_Suc_conv)

lemma get_u32_iff:
  "reader_ok r \<Longrightarrow> get_u32 r = Inr (x, r') \<longleftrightarrow> (\<exists>q. rest r = u32_be x @ q) \<and> r' = advance 4 r"
  unfolding get_u32_def by (rule fixed_width_iff) (auto simp: list_of_length_4 u32_be_from_be)

lemma get_u64_iff:
  "reader_ok r \<Longrightarrow> get_u64 r = Inr (x, r') \<longleftrightarrow> (\<exists>q. rest r = u64_be x @ q) \<and> r' = advance 8 r"
  unfolding get_u64_def by (rule fixed_width_iff) (auto simp: list_of_length_8 u64_be_from_be)

definition bytes_enc :: "bytes \<Rightarrow> bytes" where
  "bytes_enc bs = u32_be (of_nat (length bs)) @ bs"

definition frame_sized :: "bytes \<Rightarrow> bool" where
  "frame_sized bs \<longleftrightarrow> length bs \<le> MAX_FRAME"

lemma frame_sized_unat [simp]:
  "frame_sized bs \<Longrightarrow> unat (of_nat (length bs) :: u32) = length bs"
  by (simp add: frame_sized_def MAX_FRAME_def)

lemma get_bytes_iff:
  assumes "reader_ok r"
  shows "get_bytes r = Inr (x, r') \<longleftrightarrow>
    frame_sized x \<and> (\<exists>q. rest r = bytes_enc x @ q) \<and> r' = advance (length (bytes_enc x)) r"
    (is "?lhs \<longleftrightarrow> ?rhs")
proof
  assume ?lhs
  then obtain len r1 where len: "get_u32 r = Inr (len, r1)" "unat len \<le> MAX_FRAME"
    and tk: "take_n r1 (unat len) = Inr (x, r')"
    by (auto simp: get_bytes_def result_simps split: if_splits)
  from assms len(1) obtain q1 where q1: "rest r = u32_be len @ q1" "r1 = advance 4 r"
    by (auto simp: get_u32_iff)
  have ok1: "reader_ok r1" and r1: "rest r1 = q1"
    using reader_ok_advance[OF assms q1(1)] rest_advance[OF q1(1)] q1(2) by simp_all
  from tk ok1 r1 obtain q where q: "length x = unat len" "q1 = x @ q" "r' = advance (unat len) r1"
    by (auto simp: take_n_iff)
  from q(1) have "len = of_nat (length x)" by (metis of_nat_unat ucast_id)
  then show ?rhs using q q1 len(2)
    by (auto simp: bytes_enc_def frame_sized_def advance_def)
next
  assume rhs: ?rhs
  then obtain q where q: "rest r = u32_be (of_nat (length x)) @ x @ q"
    by (auto simp: bytes_enc_def)
  let ?r1 = "advance 4 r"
  have g: "get_u32 r = Inr (of_nat (length x), ?r1)"
    using assms q by (auto simp: get_u32_iff)
  have "reader_ok ?r1" "rest ?r1 = x @ q"
    using reader_ok_advance[OF assms q] rest_advance[OF q] by simp_all
  then have "take_n ?r1 (length x) = Inr (x, advance (length x) ?r1)"
    by (auto simp: take_n_iff)
  then show ?lhs using g rhs
    by (auto simp: get_bytes_def frame_sized_def[symmetric] bytes_enc_def advance_def
        dest: frame_sized_unat) (simp_all add: frame_sized_def)
qed

interpretation u8: field_codec put_u8 get_u8 "\<lambda>x. [x]" "\<lambda>_. True"
  by unfold_locales (simp_all add: put_u8_def get_u8_iff)

interpretation u32: field_codec put_u32 get_u32 u32_be "\<lambda>_. True"
  by unfold_locales (simp_all add: put_u32_def get_u32_iff)

interpretation u64: field_codec put_u64 get_u64 u64_be "\<lambda>_. True"
  by unfold_locales (simp_all add: put_u64_def get_u64_iff)

interpretation lp: field_codec put_bytes get_bytes bytes_enc frame_sized
  by unfold_locales (simp_all add: put_bytes_def put_u32_def Let_def bytes_enc_def get_bytes_iff)

lemmas wire_at [codec_simps] = u8.get_at u32.get_at u64.get_at lp.get_at

lemma get_vec_at [codec_simps]:
  "frame_sized x \<Longrightarrow> length p + length (bytes_enc x) + length q < usize_limit \<Longrightarrow>
   get_vec (reader_at p (bytes_enc x @ q)) = Inr (x, reader_at (p @ bytes_enc x) q)"
  unfolding get_vec_def by (rule lp.get_at)

lemmas wire_put [codec_simps] = u8.put_enc u32.put_enc u64.put_enc lp.put_enc

lemma wbuf_writer_new [codec_simps]: "wbuf writer_new = []"
  by (simp add: writer_new_def)

lemma take_n_short:
  "reader_ok r \<Longrightarrow> length (rest r) < n \<Longrightarrow> take_n r n = Inl (UnexpectedEof n (length (rest r)))"
  by (auto simp: take_n_def checked_add_def remaining_def rest_def split: option.splits)

lemma take_n_enough:
  assumes "reader_ok r" "n \<le> length (rest r)"
  shows "take_n r n = Inr (take n (rest r), advance n r)"
  using assms by (auto simp: take_n_iff intro: exI[of _ "drop n (rest r)"])

lemma get_u32_enough:
  assumes "reader_ok r" "4 \<le> length (rest r)"
  shows "get_u32 r = Inr (u32_from_be (take 4 (rest r)), advance 4 r)"
proof -
  have "u32_be (u32_from_be (take 4 (rest r))) = take 4 (rest r)"
    using assms(2) by (intro u32_be_from_be) simp
  then show ?thesis
    using assms by (auto simp: get_u32_iff intro: exI[of _ "drop 4 (rest r)"])
qed

lemma get_u32_short:
  "reader_ok r \<Longrightarrow> length (rest r) < 4 \<Longrightarrow> get_u32 r = Inl (UnexpectedEof 4 (length (rest r)))"
  by (simp add: get_u32_def take_n_short)

lemma advance_ok:
  assumes "reader_ok r" "n \<le> length (rest r)"
  shows "reader_ok (advance n r)" and "rest (advance n r) = drop n (rest r)"
  using reader_ok_advance[of r "take n (rest r)" "drop n (rest r)"]
    rest_advance[of r "take n (rest r)" "drop n (rest r)"] assms
  by simp_all

section \<open>Properties of the codec\<close>

text \<open>
  C18. \<open>get_bytes\<close> is total on every input, and each of its outcomes is the one the
  input determines: an end-of-input error when the prefix or the payload is short, the
  too-large error exactly when the prefix exceeds \<open>MAX_FRAME\<close> (before anything is
  taken), and otherwise the payload, with the cursor right behind it.
\<close>

theorem get_bytes_outcomes:
  assumes "reader_ok r"
  shows "get_bytes r =
    (let avail = rest r; len = unat (u32_from_be (take 4 avail)) in
     if length avail < 4 then Inl (UnexpectedEof 4 (length avail))
     else if MAX_FRAME < len then Inl (FrameTooLarge len MAX_FRAME)
     else if length avail - 4 < len then Inl (UnexpectedEof len (length avail - 4))
     else Inr (take len (drop 4 avail), advance (4 + len) r))"
proof (cases "length (rest r) < 4")
  case True
  then show ?thesis using assms by (simp add: get_bytes_def get_u32_short)
next
  case False
  then have four: "4 \<le> length (rest r)" by simp
  note adv = advance_ok[OF assms four]
  show ?thesis
    using False four assms adv take_n_short[OF adv(1)] take_n_enough[OF adv(1)]
    by (simp add: get_bytes_def get_u32_enough Let_def advance_def add.assoc)
qed

theorem get_bytes_outcomes_witness:
  "reader_ok (reader_new [0, 0, 0, 5, 104, 105]) \<and>
   get_bytes (reader_new [0, 0, 0, 5, 104, 105]) = Inl (UnexpectedEof 5 2)"
proof -
  have ok: "reader_ok (reader_new [0, 0, 0, 5, 104, 105])"
    by (simp add: usize_limit_def)
  show ?thesis
    using ok get_bytes_outcomes[OF ok]
    by (simp add: u32_from_be_def be_nat_def MAX_FRAME_def)
qed

text \<open>
  C19. \<open>put_bytes\<close> and \<open>get_bytes\<close> are inverse on the nose: a reader returns the field
  \<open>x\<close> exactly when \<open>x\<close> fits \<open>MAX_FRAME\<close> and the unread input starts with the very
  bytes the writer appends for \<open>x\<close>; the rest of the input is left unread. So nothing
  but the canonical encoding is accepted, and two adjacent fields cannot be confused.
\<close>

theorem get_bytes_iff_put_bytes:
  assumes "reader_ok r"
  shows "get_bytes r = Inr (x, r') \<longleftrightarrow>
    length x \<le> MAX_FRAME \<and> rbuf r' = rbuf r \<and> rpos r \<le> rpos r' \<and>
    rest r = into_vec (put_bytes writer_new x) @ rest r' \<and> reader_ok r'"
    (is "?lhs \<longleftrightarrow> ?rhs")
proof -
  have enc: "into_vec (put_bytes writer_new x) = bytes_enc x"
    by (simp add: into_vec_def codec_simps)
  show ?thesis
  proof
    assume ?lhs
    then show ?rhs
      using lp.get_consumes[OF assms, of x r'] assms
      by (auto simp: enc get_bytes_iff frame_sized_def advance_def)
  next
    assume rhs: ?rhs
    then have "length (rest r) = length (bytes_enc x) + length (rest r')"
      by (simp add: enc)
    then have "rpos r' = rpos r + length (bytes_enc x)"
      using rhs assms by (auto simp: rest_def reader_ok_def)
    then have "r' = advance (length (bytes_enc x)) r"
      using rhs by (simp add: advance_def)
    moreover have "frame_sized x" "rest r = bytes_enc x @ rest r'"
      using rhs by (simp_all add: frame_sized_def enc)
    ultimately show ?lhs unfolding get_bytes_iff[OF assms] by blast
  qed
qed

theorem get_bytes_iff_put_bytes_witness:
  "get_bytes (reader_new [0, 0, 0, 1, 7, 9]) = Inr ([7], \<lparr>rbuf = [0, 0, 0, 1, 7, 9], rpos = 5\<rparr>)"
proof -
  have ok: "reader_ok (reader_new [0, 0, 0, 1, 7, 9])"
    by (simp add: usize_limit_def)
  show ?thesis
    by (subst get_bytes_iff_put_bytes[OF ok])
       (simp add: reader_new_def rest_def reader_ok_def usize_limit_def MAX_FRAME_def into_vec_def
         put_bytes_def put_u32_def writer_new_def eval_simps)
qed

text \<open>
  The pad. Buckets are clamped to \<open>[1, MAX_FRAME]\<close>, so the sums stay far below the
  \<open>usize\<close> limit and the saturating branch is not taken for any payload the codec carries.
\<close>

abbreviation bucket_of :: "nat \<Rightarrow> nat" where
  "bucket_of step \<equiv> clamp 1 MAX_FRAME step"

lemma clamp_bounds: "lo \<le> hi \<Longrightarrow> lo \<le> clamp lo hi x \<and> clamp lo hi x \<le> hi"
  by (simp add: clamp_def)

lemma round_up_bounds:
  fixes raw step :: nat
  assumes "0 < step"
  shows "raw \<le> (raw + (step - 1)) div step * step"
    and "(raw + (step - 1)) div step * step < raw + step"
proof -
  let ?x = "raw + (step - 1)"
  have "?x div step * step + ?x mod step = ?x" by simp
  moreover have "?x mod step < step" using assms by simp
  ultimately show "raw \<le> ?x div step * step" and "?x div step * step < raw + step"
    using assms by linarith+
qed

lemma padded_len_bucket:
  fixes step :: nat
  assumes "raw \<le> 4 + MAX_FRAME"
  defines "s \<equiv> clamp 1 MAX_FRAME step"
  shows "padded_len raw step mod s = 0" and "raw \<le> padded_len raw step"
    and "padded_len raw step < raw + s"
proof -
  have s: "0 < s" "s \<le> MAX_FRAME"
    using clamp_bounds[of 1 MAX_FRAME step] by (simp_all add: s_def MAX_FRAME_def)
  then have "raw + (s - 1) < usize_limit"
    using assms(1) by (simp add: MAX_FRAME_def usize_limit_def)
  then have eq: "padded_len raw step = (raw + (s - 1)) div s * s"
    by (simp add: padded_len_def checked_add_def s_def Let_def)
  show "padded_len raw step mod s = 0" by (simp add: eq)
  show "raw \<le> padded_len raw step" "padded_len raw step < raw + s"
    using round_up_bounds[OF s(1), of raw] unfolding eq by blast+
qed

lemma pad_to_bucket_eq:
  assumes "length payload \<le> MAX_FRAME"
  shows "pad_to_bucket payload step =
    bytes_enc payload @ replicate (padded_len (4 + length payload) step - (4 + length payload)) 0"
  using padded_len_bucket(2)[of "4 + length payload" step] assms
  by (simp add: pad_to_bucket_def vec_resize_def bytes_enc_def Let_def max_def)

lemma nth_u32_prefix:
  "[(u32_be w @ r) ! 0, (u32_be w @ r) ! Suc 0, (u32_be w @ r) ! 2, (u32_be w @ r) ! 3] = u32_be w"
  using list_of_length_4[of "u32_be w"] by (simp add: nth_append)

lemma unpad_padded:
  assumes "length payload \<le> MAX_FRAME"
  shows "unpad_bucket (pad_to_bucket payload step) = Some payload"
proof -
  obtain z where z: "pad_to_bucket payload step = u32_be (of_nat (length payload)) @ payload @ z"
    using pad_to_bucket_eq[OF assms] by (auto simp: bytes_enc_def)
  have "unat (of_nat (length payload) :: u32) = length payload"
    using assms frame_sized_unat by (simp add: frame_sized_def)
  moreover have "4 + length payload < usize_limit"
    using assms by (simp add: MAX_FRAME_def usize_limit_def)
  ultimately show ?thesis
    unfolding unpad_bucket_def z One_nat_def nth_u32_prefix
    using assms by (simp add: Let_def checked_add_def)
qed

text \<open>
  C15. Padding and unpadding are inverse for every payload the codec carries and every
  bucket size the descriptor can name, zero and absurd ones included.
\<close>

theorem unpad_pad_bucket:
  assumes "length payload \<le> MAX_FRAME"
  shows "unpad_bucket (pad_to_bucket payload step) = Some payload"
  using assms by (rule unpad_padded)

theorem unpad_pad_bucket_witness: "unpad_bucket (pad_to_bucket [104, 105] 0) = Some [104, 105]"
  by (rule unpad_pad_bucket) (simp add: MAX_FRAME_def)

lemma multiple_between:
  fixes d k b :: nat
  assumes "raw \<le> k * b" "k * b < raw + b" "raw \<le> d * b" "(d - 1) * b < raw"
  shows "k = d"
proof (rule antisym)
  have "k * b < d * b + b" using assms(2,3) by linarith
  then have "k * b < (d + 1) * b" by simp
  then have "k < d + 1" by (simp only: mult_less_cancel2)
  then show "k \<le> d" by simp
  have "(d - 1) * b < k * b" using assms(1,4) by linarith
  then have "d - 1 < k" by (simp only: mult_less_cancel2)
  then show "d \<le> k" by simp
qed

lemma padded_len_div_ceil:
  assumes "0 < raw" "raw \<le> 4 + MAX_FRAME"
  shows "padded_len raw step = div_ceil raw (bucket_of step) * bucket_of step"
proof -
  have b: "0 < bucket_of step"
    using clamp_bounds[of 1 MAX_FRAME step] by (simp add: MAX_FRAME_def)
  obtain k where k: "padded_len raw step = k * bucket_of step"
    using padded_len_bucket(1)[OF assms(2), of step] by (metis dvd_def mod_eq_0_iff_dvd mult.commute)
  have "k = div_ceil raw (bucket_of step)"
    using padded_len_bucket(2,3)[OF assms(2), of step] div_ceil_bounds[OF b, of raw] assms(1)
    unfolding k by (intro multiple_between) auto
  then show ?thesis by (simp add: k)
qed

lemma length_pad_to_bucket:
  "length p \<le> MAX_FRAME \<Longrightarrow> length (pad_to_bucket p step) = padded_len (4 + length p) step"
  using padded_len_bucket(2)[of "4 + length p" step] by (simp add: pad_to_bucket_eq bytes_enc_def)

text \<open>
  What an observer of the padded length learns. The length is a multiple of the
  bucket, it covers the payload, its overhead is below one bucket, and two payloads
  whose lengths fall in one bucket are padded to the same length.
\<close>

lemma pad_to_bucket_length:
  assumes "length payload \<le> MAX_FRAME" and "length other \<le> MAX_FRAME"
  shows "length (pad_to_bucket payload step) mod bucket_of step = 0 \<and>
    4 + length payload \<le> length (pad_to_bucket payload step) \<and>
    length (pad_to_bucket payload step) < 4 + length payload + bucket_of step \<and>
    (length (pad_to_bucket payload step) = length (pad_to_bucket other step) \<longleftrightarrow>
       div_ceil (4 + length payload) (bucket_of step) = div_ceil (4 + length other) (bucket_of step))"
proof -
  have "4 + length payload \<le> 4 + MAX_FRAME" using assms(1) by simp
  note bucket = padded_len_bucket[OF this, of step]
  have "0 < bucket_of step"
    using clamp_bounds[of 1 MAX_FRAME step] by (simp add: MAX_FRAME_def)
  with bucket assms show ?thesis
    by (simp add: length_pad_to_bucket) (simp add: padded_len_div_ceil)
qed

lemma pad_to_bucket_length_witness:
  "length (pad_to_bucket (replicate 10 1) 256) mod clamp 1 MAX_FRAME 256 = 0 \<and>
   (length (pad_to_bucket (replicate 10 1) 256) = length (pad_to_bucket (replicate 200 2) 256))"
  using pad_to_bucket_length[of "replicate 10 1" "replicate 200 2" 256]
  by (auto simp: MAX_FRAME_def clamp_def div_ceil_def)

section \<open>What the fixed-capacity decoder accepts\<close>

text \<open>
  The grammar as an encoder: a count, then per item two fields, each a one-byte length and
  the bytes. A decoded document keeps every array at its capacity, with zeros behind the
  bytes that were read and empty items behind the last one.
\<close>

definition zero_filled :: "nat \<Rightarrow> bytes \<Rightarrow> bool" where
  "zero_filled l arr \<longleftrightarrow> l \<le> MAX_FIELD \<and> arr = take l arr @ replicate (MAX_FIELD - l) 0 \<and> length arr = MAX_FIELD"

definition bitem_ok :: "bitem \<Rightarrow> bool" where
  "bitem_ok it \<longleftrightarrow> zero_filled (bi_label_len it) (bi_label it) \<and> zero_filled (bi_data_len it) (bi_data it)"

definition bitem_wire :: "bitem \<Rightarrow> bytes" where
  "bitem_wire it =
     of_nat (bi_label_len it) # take (bi_label_len it) (bi_label it) @
     of_nat (bi_data_len it) # take (bi_data_len it) (bi_data it)"

definition bdoc_ok :: "bdoc \<Rightarrow> bool" where
  "bdoc_ok d \<longleftrightarrow> bdoc_n d \<le> MAX_ITEMS \<and> length (bdoc_items d) = MAX_ITEMS \<and>
     list_all bitem_ok (take (bdoc_n d) (bdoc_items d)) \<and>
     drop (bdoc_n d) (bdoc_items d) = replicate (MAX_ITEMS - bdoc_n d) empty_bitem"

definition bdoc_wire :: "bdoc \<Rightarrow> bytes" where
  "bdoc_wire d = of_nat (bdoc_n d) # concat (map bitem_wire (take (bdoc_n d) (bdoc_items d)))"

lemma copy_field_eq:
  assumes "j \<le> l" "l \<le> length dst" "pos + l \<le> length bs"
  shows "copy_field dst bs pos j l = take j dst @ take (l - j) (drop (pos + j) bs) @ drop l dst"
  using assms
proof (induction dst bs pos j l rule: copy_field.induct)
  case (1 dst bs pos j l)
  show ?case
  proof (cases "j < l")
    case True
    then have "take (l - j) (drop (pos + j) bs) = bs ! (pos + j) # take (l - Suc j) (drop (pos + Suc j) bs)"
      using 1(4) by (simp add: Cons_nth_drop_Suc[symmetric] take_Cons' Suc_diff_Suc)
    moreover have "take (Suc j) (dst[j := bs ! (pos + j)]) = take j dst @ [bs ! (pos + j)]"
      using True 1(3) by (simp add: take_Suc_conv_app_nth)
    ultimately show ?thesis
      using 1 True by (subst copy_field.simps) simp
  next
    case False
    then show ?thesis using 1(2) by (subst copy_field.simps) simp
  qed
qed

lemma unat_byte_inj: "unat (b :: byte) = l \<Longrightarrow> b = of_nat l"
  by (metis of_nat_unat ucast_id)

lemma bounded_field_iff:
  "bounded_field bs pos (replicate MAX_FIELD 0) = Some (l, arr, pos') \<longleftrightarrow>
     zero_filled l arr \<and> pos' = pos + 1 + l \<and>
     (\<exists>q. drop pos bs = of_nat l # take l arr @ q)" (is "?lhs \<longleftrightarrow> ?rhs")
proof
  assume ?lhs
  then have l: "pos < length bs" "l = unat (bs ! pos)" "l \<le> MAX_FIELD" "l \<le> length bs - Suc pos"
    and arr: "arr = copy_field (replicate MAX_FIELD 0) bs (Suc pos) 0 l" and pos': "pos' = pos + 1 + l"
    by (auto simp: bounded_field_def Let_def split: if_splits)
  have eq: "arr = take l (drop (Suc pos) bs) @ replicate (MAX_FIELD - l) 0"
    unfolding arr using l by (subst copy_field_eq) auto
  have "drop pos bs = of_nat l # take l (drop (Suc pos) bs) @ drop l (drop (Suc pos) bs)"
    using l(1,2) unat_byte_inj[of "bs ! pos" l] by (metis Cons_nth_drop_Suc append_take_drop_id)
  then show ?rhs using l(3,4) eq pos' by (auto simp: zero_filled_def)
next
  assume rhs: ?rhs
  then obtain q where q: "drop pos bs = of_nat l # take l arr @ q"
    and z: "zero_filled l arr" "pos' = pos + 1 + l" by blast
  have "length (drop pos bs) = Suc (l + length q)"
    unfolding q using z(1) by (simp add: zero_filled_def)
  then have len: "length bs - pos = Suc (l + length q)" "pos < length bs" by simp_all
  have hd: "bs ! pos = of_nat l" "drop (Suc pos) bs = take l arr @ q"
    using q len(2) by (simp_all add: Cons_nth_drop_Suc[symmetric])
  have "unat (of_nat l :: byte) = l"
    using z(1) by (simp add: zero_filled_def MAX_FIELD_def)
  then show ?lhs using z hd len
    by (auto simp: bounded_field_def Let_def copy_field_eq zero_filled_def)
qed


lemma drop_after: "drop pos bs = a @ q \<Longrightarrow> drop (pos + length a) bs = q"
  by (metis add.commute append_eq_conv_conj drop_drop)

text \<open>One item: its two fields are read exactly when its encoding stands at the position.\<close>

lemma bounded_item_iff:
  fixes it :: bitem
  assumes "it = \<lparr>bi_label_len = ll, bi_label = lab, bi_data_len = dl, bi_data = dat\<rparr>"
  shows "(\<exists>p1. bounded_field bs pos (replicate MAX_FIELD 0) = Some (ll, lab, p1) \<and>
      bounded_field bs p1 (replicate MAX_FIELD 0) = Some (dl, dat, p2)) \<longleftrightarrow>
    bitem_ok it \<and> p2 = pos + length (bitem_wire it) \<and> (\<exists>q. drop pos bs = bitem_wire it @ q)"
proof -
  have "drop pos bs = of_nat ll # take ll lab @ q \<Longrightarrow> zero_filled ll lab \<Longrightarrow>
      drop (pos + 1 + ll) bs = q" for q
    using drop_after[of pos bs "of_nat ll # take ll lab" q] by (simp add: zero_filled_def)
  then show ?thesis
    unfolding bounded_field_iff assms
    by (auto simp: bitem_ok_def bitem_wire_def zero_filled_def)
qed

lemma bounded_items_step:
  assumes "length don = i" "i < n"
  shows "bounded_items bs n i pos (don @ empty_bitem # its) = Some res \<longleftrightarrow>
    (\<exists>it q. bitem_ok it \<and> drop pos bs = bitem_wire it @ q \<and>
       bounded_items bs n (Suc i) (pos + length (bitem_wire it)) ((don @ [it]) @ its) = Some res)"
    (is "?lhs \<longleftrightarrow> ?rhs")
proof -
  let ?item = "\<lambda>ll lab dl dat. \<lparr>bi_label_len = ll, bi_label = lab, bi_data_len = dl, bi_data = dat\<rparr>"
  have "?lhs \<longleftrightarrow> (\<exists>ll lab dl dat p2.
      (\<exists>p1. bounded_field bs pos (replicate MAX_FIELD 0) = Some (ll, lab, p1) \<and>
            bounded_field bs p1 (replicate MAX_FIELD 0) = Some (dl, dat, p2)) \<and>
      bounded_items bs n (Suc i) p2 ((don @ [?item ll lab dl dat]) @ its) = Some res)"
    using assms
    by (subst bounded_items.simps)
       (auto simp: nth_append list_update_append empty_bitem_def split: option.splits)
  also have "\<dots> \<longleftrightarrow> ?rhs"
    by (subst bounded_item_iff[OF refl]) (metis bitem.cases)
  finally show ?thesis .
qed

lemma bounded_items_iff:
  assumes "length don = i" "i \<le> n" "n \<le> MAX_ITEMS"
  shows "bounded_items bs n i pos (don @ replicate (MAX_ITEMS - i) empty_bitem) = Some its \<longleftrightarrow>
    (\<exists>new q. length new = n - i \<and> list_all bitem_ok new \<and>
       its = don @ new @ replicate (MAX_ITEMS - n) empty_bitem \<and>
       drop pos bs = concat (map bitem_wire new) @ q)"
  using assms
proof (induction "n - i" arbitrary: i pos don)
  case 0
  then show ?case by (subst bounded_items.simps) (auto intro: exI[of _ "drop pos bs"])
next
  case (Suc k)
  from Suc.hyps(2) Suc.prems have i: "i < n" "k = n - Suc i" by auto
  then have cur: "replicate (MAX_ITEMS - i) empty_bitem =
      empty_bitem # replicate (MAX_ITEMS - Suc i) empty_bitem"
    using Suc.prems by (metis Suc_diff_Suc less_le_trans replicate_Suc)
  have IH: "bounded_items bs n (Suc i) p ((don @ [it]) @ replicate (MAX_ITEMS - Suc i) empty_bitem) = Some its \<longleftrightarrow>
    (\<exists>new q. length new = n - Suc i \<and> list_all bitem_ok new \<and>
       its = (don @ [it]) @ new @ replicate (MAX_ITEMS - n) empty_bitem \<and>
       drop p bs = concat (map bitem_wire new) @ q)" for it p
    using Suc.hyps(1)[OF i(2), of "don @ [it]" p] Suc.prems i(1) by simp
  have len: "length new = n - i \<longleftrightarrow> (\<exists>it new'. new = it # new' \<and> length new' = n - Suc i)" for new :: "bitem list"
    using i(1) by (auto simp: Suc_diff_Suc[symmetric] length_Suc_conv)
  show ?case
    unfolding cur bounded_items_step[OF Suc.prems(1) i(1)] IH len
    by auto (metis drop_after)+
qed

text \<open>
  C20. The fixed-capacity decoder is total and accepts exactly the grammar: it returns
  \<open>d\<close> if and only if \<open>d\<close> is a zero-filled document within the caps and the input starts
  with the encoding of \<open>d\<close>. A count or a length over its cap, or a short read, is \<open>None\<close>.
\<close>

theorem bounded_decode_iff:
  "bounded_decode bs = Some d \<longleftrightarrow> bdoc_ok d \<and> (\<exists>tail. bs = bdoc_wire d @ tail)"
proof (cases bs)
  case Nil
  then show ?thesis by (simp add: bounded_decode_def bdoc_wire_def)
next
  case (Cons b r)
  have "bounded_decode bs = Some d \<longleftrightarrow> unat b \<le> MAX_ITEMS \<and> bdoc_n d = unat b \<and>
      bounded_items bs (unat b) 0 1 ([] @ replicate (MAX_ITEMS - 0) empty_bitem) = Some (bdoc_items d)"
    by (cases d) (auto simp: bounded_decode_def Cons Let_def split: option.splits)
  also have "\<dots> \<longleftrightarrow> bdoc_ok d \<and> (\<exists>tail. bs = bdoc_wire d @ tail)"
  proof (cases "unat b \<le> MAX_ITEMS \<and> bdoc_n d = unat b")
    case True
    have b: "of_nat (unat b) = b" by (simp add: unat_byte_inj[symmetric])
    have parts: "length new = k \<Longrightarrow> xs = new @ z \<longleftrightarrow> k \<le> length xs \<and> new = take k xs \<and> drop k xs = z"
      for new xs z :: "bitem list" and k
      by (metis append_eq_conv_conj append_take_drop_id length_append le_add1)
    have len: "length (bdoc_items d) = MAX_ITEMS"
      if "unat b \<le> length (bdoc_items d)" "drop (unat b) (bdoc_items d) = replicate (MAX_ITEMS - unat b) empty_bitem"
      using that True by (metis le_add_diff_inverse length_drop length_replicate)
    have "(\<exists>new q. length new = unat b \<and> list_all bitem_ok new \<and>
        bdoc_items d = new @ replicate (MAX_ITEMS - unat b) empty_bitem \<and>
        r = concat (map bitem_wire new) @ q) \<longleftrightarrow> bdoc_ok d \<and> (\<exists>tail. bs = bdoc_wire d @ tail)"
      using True len
      by (auto simp: parts bdoc_ok_def bdoc_wire_def Cons b cong: conj_cong
          intro!: exI[of _ "take (unat b) (bdoc_items d)"])
    with True show ?thesis
      by (subst bounded_items_iff) (simp_all add: Cons)
  next
    case False
    then show ?thesis
      by (auto simp: bdoc_ok_def bdoc_wire_def Cons MAX_ITEMS_def)
  qed
  finally show ?thesis .
qed

end
