(* ===== verification/Base32.thy ===== *)
theory Base32
  imports Prelude
begin

unbundle bit_operations_syntax

text \<open>
  The base-32 text form of an invite, \<open>src/crates/core/src/b32.rs\<close>: \<open>encode\<close> and
  \<open>decode\<close> with their 32-bit shift buffer. A string is its UTF-8 bytes; a byte outside
  ASCII belongs to a character outside the alphabet, so the byte loop rejects exactly
  what the \<open>chars\<close> loop rejects. The round trip is proved on the stream of bits that
  both loops move through the buffer.
\<close>

section \<open>Definitions\<close>

definition ALPHABET :: str where
  "ALPHABET = ascii ''abcdefghijklmnopqrstuvwxyz234567''"

text \<open>The inner \<open>while bits >= 5\<close> loop of \<open>encode\<close>.\<close>

function b32_drain :: "u32 \<Rightarrow> nat \<Rightarrow> str \<Rightarrow> nat \<times> str" where
  "b32_drain buffer bits out =
     (if bits \<ge> 5 then
        let bits = bits - 5;
            idx = unat (drop_bit bits buffer AND 0x1f)
        in b32_drain buffer bits (out @ [ALPHABET ! idx])
      else (bits, out))"
  by pat_completeness auto
termination
  by (relation "measure (\<lambda>(buffer, bits, out). bits)") auto

declare b32_drain.simps [simp del]

fun b32_encode_loop :: "bytes \<Rightarrow> u32 \<Rightarrow> nat \<Rightarrow> str \<Rightarrow> u32 \<times> nat \<times> str" where
  "b32_encode_loop [] buffer bits out = (buffer, bits, out)"
| "b32_encode_loop (b # rest) buffer bits out =
     (let buffer = push_bit 8 buffer OR ucast b;
          (bits, out) = b32_drain buffer (bits + 8) out
      in b32_encode_loop rest buffer bits out)"

definition b32_encode :: "bytes \<Rightarrow> str" where
  "b32_encode data =
     (let (buffer, bits, out) = b32_encode_loop data 0 0 []
      in if bits > 0 then
           let idx = unat (push_bit (5 - bits) buffer AND 0x1f) in out @ [ALPHABET ! idx]
         else out)"

definition b32_val :: "byte \<Rightarrow> u32 option" where
  "b32_val c =
     (if of_char CHR ''a'' \<le> c \<and> c \<le> of_char CHR ''z'' then Some (ucast c - of_char CHR ''a'')
      else if of_char CHR ''A'' \<le> c \<and> c \<le> of_char CHR ''Z'' then Some (ucast c - of_char CHR ''A'')
      else if of_char CHR ''2'' \<le> c \<and> c \<le> of_char CHR ''7'' then
        Some (ucast c - of_char CHR ''2'' + 26)
      else None)"

fun b32_decode_loop :: "str \<Rightarrow> u32 \<Rightarrow> nat \<Rightarrow> bytes \<Rightarrow> bytes option" where
  "b32_decode_loop [] buffer bits out = Some out"
| "b32_decode_loop (c # s) buffer bits out =
     (case b32_val c of
        None \<Rightarrow> None
      | Some v \<Rightarrow>
          let buffer = push_bit 5 buffer OR v; bits = bits + 5
          in if bits \<ge> 8
             then let bits = bits - 8
                  in b32_decode_loop s buffer bits (out @ [ucast (drop_bit bits buffer)])
             else b32_decode_loop s buffer bits out)"

definition b32_decode :: "str \<Rightarrow> bytes option" where
  "b32_decode s = b32_decode_loop s 0 0 []"

section \<open>The stream of bits\<close>

text \<open>The low \<open>n\<close> bits of a word, most significant first.\<close>

definition bits_of :: "nat \<Rightarrow> 'a::len word \<Rightarrow> bool list" where
  "bits_of n w = map (bit w) (rev [0..<n])"

lemma length_bits_of [simp]: "length (bits_of n w) = n"
  by (simp add: bits_of_def)

lemma bits_of_0 [simp]: "bits_of 0 w = []"
  by (simp add: bits_of_def)

lemma bits_of_cong: "(\<And>i. i < n \<Longrightarrow> bit v i = bit w i) \<Longrightarrow> bits_of n v = bits_of n w"
  by (auto simp: bits_of_def)

lemma bits_of_split: "bits_of (a + b) w = map (\<lambda>i. bit w (i + b)) (rev [0..<a]) @ bits_of b w"
proof -
  have "[0..<a + b] = [0..<b] @ map (\<lambda>i. i + b) [0..<a]"
    using upt_add_eq_append[of 0 b a] by (simp add: map_add_upt add.commute)
  then show ?thesis by (simp add: bits_of_def rev_map comp_def)
qed

lemma bits_of_drop: "bits_of (a + b) w = bits_of a (drop_bit b w) @ bits_of b w"
  unfolding bits_of_split by (simp add: bits_of_def bit_simps add.commute)

lemma bits_of_push:
  fixes w v :: u32
  assumes "n + k \<le> 32" and "\<And>i. k \<le> i \<Longrightarrow> \<not> bit v i"
  shows "bits_of (n + k) (push_bit k w OR v) = bits_of n w @ bits_of k v"
proof -
  have "bits_of k (push_bit k w OR v) = bits_of k v"
    by (rule bits_of_cong) (simp add: bit_simps)
  moreover have "map (\<lambda>i. bit (push_bit k w OR v) (i + k)) (rev [0..<n]) = bits_of n w"
    unfolding bits_of_def using assms by (auto simp: bit_simps)
  ultimately show ?thesis unfolding bits_of_split by simp
qed

lemma mask5: "(0x1f :: u32) = mask 5"
  by (simp add: mask_eq_exp_minus_1)

lemma bits_of_mask5: "bits_of 5 (w AND 0x1f :: u32) = bits_of 5 w"
  unfolding mask5 by (rule bits_of_cong) (simp add: bit_simps)

lemma mask5_less: "unat (w AND 0x1f :: u32) < 32"
proof -
  have "unat (w AND 0x1f) \<le> unat (0x1f :: u32)"
    using word_and_le1 word_le_nat_alt by blast
  then show ?thesis by simp
qed

lemma bits_of_inject: "bits_of LENGTH('a) v = bits_of LENGTH('a) w \<Longrightarrow> v = (w :: 'a::len word)"
  by (rule bit_word_eqI) (auto simp: bits_of_def)


text \<open>The letters of a text as the 5-bit groups they stand for.\<close>

lemma b32_val_ALPHABET: "i < 32 \<Longrightarrow> b32_val (ALPHABET ! i) = Some (of_nat i)"
proof -
  have "\<forall>i \<in> set [0..<32]. b32_val (ALPHABET ! i) = Some (of_nat i)"
    by (simp add: upt_rec ALPHABET_def ascii_def b32_val_def)
  then show "i < 32 \<Longrightarrow> ?thesis" by simp
qed

fun quints :: "str \<Rightarrow> bool list option" where
  "quints [] = Some []"
| "quints (c # s) = do { v \<leftarrow> b32_val c; q \<leftarrow> quints s; Some (bits_of 5 v @ q) }"

lemma quints_append:
  "quints (s @ t) = do { p \<leftarrow> quints s; q \<leftarrow> quints t; Some (p @ q) }"
  by (induction s) (auto simp: Option.bind_assoc split: bind_splits)

definition byte_bits :: "bytes \<Rightarrow> bool list" where
  "byte_bits bs = concat (map (bits_of 8) bs)"

lemma length_byte_bits: "length (byte_bits bs) = 8 * length bs"
  by (induction bs) (simp_all add: byte_bits_def)

lemma quints_letter: "quints [ALPHABET ! unat (w AND 0x1f :: u32)] = Some (bits_of 5 w)"
  by (simp add: b32_val_ALPHABET mask5_less bits_of_mask5)

lemma b32_drain_bits:
  assumes "quints out = Some q" "b32_drain buffer n out = (m, out')"
  shows "m < 5 \<and> (\<exists>q'. quints out' = Some q' \<and> q' @ bits_of m buffer = q @ bits_of n buffer)"
  using assms
proof (induction buffer n out arbitrary: q rule: b32_drain.induct)
  case (1 buffer n out)
  show ?case
  proof (cases "n \<ge> 5")
    case True
    let ?w = "drop_bit (n - 5) buffer"
    have "quints (out @ [ALPHABET ! unat (?w AND 0x1f)]) = Some (q @ bits_of 5 ?w)"
      using 1(2) by (simp add: quints_append quints_letter del: quints.simps)
    moreover have "b32_drain buffer (n - 5) (out @ [ALPHABET ! unat (?w AND 0x1f)]) = (m, out')"
      using True 1(3) by (subst (asm) b32_drain.simps) (simp add: Let_def)
    ultimately have "m < 5 \<and> (\<exists>q'. quints out' = Some q' \<and>
        q' @ bits_of m buffer = (q @ bits_of 5 ?w) @ bits_of (n - 5) buffer)"
      using 1(1)[OF True refl refl] by blast
    moreover have "bits_of n buffer = bits_of 5 ?w @ bits_of (n - 5) buffer"
      using True bits_of_drop[of 5 "n - 5" buffer] by simp
    ultimately show ?thesis by simp
  next
    case False
    then show ?thesis using 1(2,3) by (subst (asm) b32_drain.simps) simp
  qed
qed

lemma byte_high_bits: "8 \<le> i \<Longrightarrow> \<not> bit (ucast (b :: byte) :: u32) i"
  using bit_imp_le_length[of b i] by (auto simp: bit_simps)

lemma bits_of_ucast_byte: "bits_of 8 (ucast (b :: byte) :: u32) = bits_of 8 b"
  by (auto simp: bits_of_def bit_simps)

lemma bits_of_ucast_low: "bits_of 8 (ucast (w :: u32) :: byte) = bits_of 8 w"
  by (auto simp: bits_of_def bit_simps)

lemma b32_encode_loop_bits:
  assumes "quints out = Some q" "n < 5" "b32_encode_loop data buffer n out = (buffer', n', out')"
  shows "n' < 5 \<and> (\<exists>q'. quints out' = Some q' \<and>
    q' @ bits_of n' buffer' = q @ bits_of n buffer @ byte_bits data)"
  using assms
proof (induction data arbitrary: buffer n out q)
  case Nil
  then show ?case by (simp add: byte_bits_def)
next
  case (Cons b data)
  let ?buf = "push_bit 8 buffer OR ucast b"
  obtain m o1 where d: "b32_drain ?buf (n + 8) out = (m, o1)" by fastforce
  obtain q1 where q1: "m < 5" "quints o1 = Some q1" "q1 @ bits_of m ?buf = q @ bits_of (n + 8) ?buf"
    using b32_drain_bits[OF Cons.prems(1) d] by blast
  have split: "bits_of (n + 8) ?buf = bits_of n buffer @ bits_of 8 b"
    using bits_of_push[of n 8 "ucast b" buffer] Cons.prems(2) byte_high_bits
    by (simp add: bits_of_ucast_byte)
  have "b32_encode_loop data ?buf m o1 = (buffer', n', out')"
    using Cons.prems(3) d by (simp add: Let_def)
  from Cons.IH[OF q1(2,1) this] show ?case
    using q1(3) split by (simp add: byte_bits_def) (metis append_assoc)
qed


lemma b32_val_less: "b32_val c = Some v \<Longrightarrow> unat v < 2 ^ 5"
proof -
  have ge: "unat (ucast c - of_nat k :: u32) = unat c - k" if "k \<le> unat c" for k
  proof -
    have "k < 2 ^ 32"
      by (rule le_less_trans[OF that], rule less_trans[OF unat_byte_less]) simp
    then show ?thesis using that by (simp add: unat_sub_if_size)
  qed
  show "b32_val c = Some v \<Longrightarrow> unat v < 2 ^ 5"
    using ge[of 97] ge[of 65] ge[of 50] ge[of 24] unat_byte_less[of c]
    by (auto simp: b32_val_def word_le_nat_alt unat_word_ariths split: if_splits)
qed

lemma b32_decode_loop_bits:
  assumes "quints s = Some q" "n < 8"
  shows "\<exists>out' n' (buffer' :: u32). b32_decode_loop s buffer n out = Some out' \<and> n' < 8 \<and>
    byte_bits out' @ bits_of n' buffer' = byte_bits out @ bits_of n buffer @ q"
  using assms
proof (induction s arbitrary: buffer n out q)
  case Nil
  then show ?case by (intro exI[of _ out] exI[of _ n] exI[of _ buffer]) simp
next
  case (Cons c s)
  then obtain v q' where v: "b32_val c = Some v" "quints s = Some q'" "q = bits_of 5 v @ q'"
    by (auto split: bind_splits)
  let ?buf = "push_bit 5 buffer OR v"
  have split: "bits_of (n + 5) ?buf = bits_of n buffer @ bits_of 5 v"
    using Cons.prems(2) no_high_bits[OF b32_val_less[OF v(1)]] by (intro bits_of_push) auto
  show ?case
  proof (cases "n + 5 \<ge> 8")
    case True
    let ?n = "n + 5 - 8"
    let ?b = "ucast (drop_bit ?n ?buf) :: byte"
    have "bits_of 8 ?b = bits_of 8 (drop_bit ?n ?buf)"
      by (rule bits_of_ucast_low)
    then have eq: "bits_of 8 ?b @ bits_of ?n ?buf = bits_of n buffer @ bits_of 5 v"
      using True bits_of_drop[of 8 ?n ?buf] split by (simp add: add.commute)
    have step: "b32_decode_loop (c # s) buffer n out = b32_decode_loop s ?buf ?n (out @ [?b])"
      using True v(1) by (simp add: Let_def)
    have "byte_bits (out @ [?b]) @ bits_of ?n ?buf @ q' =
        byte_bits out @ (bits_of 8 ?b @ bits_of ?n ?buf) @ q'"
      by (simp add: byte_bits_def)
    also have "\<dots> = byte_bits out @ bits_of n buffer @ q"
      unfolding eq by (simp add: v(3))
    finally show ?thesis
      using Cons.IH[OF v(2), of ?n ?buf "out @ [?b]"] Cons.prems(2) unfolding step by simp
  next
    case False
    then show ?thesis
      using Cons.IH[OF v(2), of "n + 5" ?buf out] v split by (simp add: Let_def)
  qed
qed

lemma byte_bits_inject:
  assumes "byte_bits xs @ p = byte_bits ys @ q" "length p < 8" "length q < 8"
  shows "xs = ys"
proof -
  have "8 * length xs + length p = 8 * length ys + length q"
    using arg_cong[OF assms(1), of length] by (simp add: length_byte_bits)
  then have "length xs = length ys" using assms(2,3) by linarith
  then show ?thesis using assms(1)
  proof (induction xs ys rule: list_induct2)
    case (Cons x xs y ys)
    then have "bits_of 8 x = bits_of 8 y" "byte_bits xs @ p = byte_bits ys @ q"
      by (simp_all add: byte_bits_def)
    then show ?case using Cons.IH bits_of_inject[of x y] by simp
  qed simp
qed

section \<open>Properties\<close>

text \<open>
  The text form loses nothing: \<open>decode\<close> returns exactly the bytes that were encoded,
  for data of any length, so for every fill of the last letter.
\<close>

lemma b32_roundtrip: "b32_decode (b32_encode data) = Some data"
proof -
  obtain buffer n out where l: "b32_encode_loop data 0 0 [] = (buffer, n, out)"
    by (metis prod_cases3)
  then obtain q where q: "n < 5" "quints out = Some q" "q @ bits_of n buffer = byte_bits data"
    using b32_encode_loop_bits[of "[]" "[]" 0 data 0 buffer n out] by (auto simp: byte_bits_def)
  have "\<exists>z. quints (b32_encode data) = Some (byte_bits data @ z) \<and> length z < 8"
  proof (cases "n > 0")
    case True
    have "bits_of 5 (push_bit (5 - n) buffer) = bits_of n buffer @ bits_of (5 - n) (0 :: u32)"
      using q(1) bits_of_push[of n "5 - n" 0 buffer] by simp
    then have "quints (b32_encode data) = Some (byte_bits data @ bits_of (5 - n) (0 :: u32))"
      using True l q by (simp add: b32_encode_def quints_append quints_letter Let_def flip: q(3)
          del: quints.simps(2))
    then show ?thesis by (intro exI conjI) auto
  next
    case False
    then show ?thesis using l q by (simp add: b32_encode_def)
  qed
  then obtain z where z: "quints (b32_encode data) = Some (byte_bits data @ z)" "length z < 8" by blast
  from b32_decode_loop_bits[OF z(1), of 0 0 "[]"] obtain out' n' and buffer' :: u32 where
    "b32_decode (b32_encode data) = Some out'" "n' < 8"
    "byte_bits out' @ bits_of n' buffer' = byte_bits data @ z"
    unfolding b32_decode_def by (auto simp: byte_bits_def[of "[]"])
  then show ?thesis using byte_bits_inject[of out' "bits_of n' buffer'" data z] z(2) by simp
qed

end
