(* ===== verification/TreeMath.thy ===== *)
theory TreeMath
  imports Prelude
begin

unbundle bit_operations_syntax

text \<open>
  The RFC 9420 tree arithmetic, \<open>src/crates/crypto/src/mls/treemath.rs\<close>, on 32-bit node
  indices. A panic (the assertion on leaves, a shift by 32 or more, an overflow of the
  checked build) and a loop that does not end are the result \<open>None\<close>. The refinement:
  \<open>node_at k m\<close> is the \<open>m\<close>-th node of level \<open>k\<close> of the complete binary tree, and the
  index arithmetic is the parent/child relation on these coordinates.
\<close>

section \<open>Definitions\<close>

definition shl32 :: "u32 \<Rightarrow> nat \<Rightarrow> u32 option" where
  "shl32 x k = (if k < 32 then Some (push_bit k x) else None)"

definition shr32 :: "u32 \<Rightarrow> nat \<Rightarrow> u32 option" where
  "shr32 x k = (if k < 32 then Some (drop_bit k x) else None)"

partial_function (option) log2_loop :: "u32 \<Rightarrow> nat \<Rightarrow> nat option" where
  "log2_loop x k = do { y \<leftarrow> shr32 x k; if y > 0 then log2_loop x (k + 1) else Some k }"

definition log2 :: "u32 \<Rightarrow> nat option" where
  "log2 x = (if x = 0 then Some 0 else do { k \<leftarrow> log2_loop x 0; Some (k - 1) })"

partial_function (option) level_loop :: "u32 \<Rightarrow> nat \<Rightarrow> nat option" where
  "level_loop x k =
     do { y \<leftarrow> shr32 x k; if y AND 1 = 1 then level_loop x (k + 1) else Some k }"

definition level :: "u32 \<Rightarrow> nat option" where
  "level x = (if x AND 1 = 0 then Some 0 else level_loop x 0)"

definition node_width :: "u32 \<Rightarrow> u32 option" where
  "node_width n =
     (if n = 0 then Some 0
      else if 2 * (unat n - 1) + 1 < 2 ^ 32 then Some (2 * (n - 1) + 1) else None)"

definition root :: "u32 \<Rightarrow> u32 option" where
  "root n = do { w \<leftarrow> node_width n; k \<leftarrow> log2 w; p \<leftarrow> shl32 1 k; Some (p - 1) }"

definition left :: "u32 \<Rightarrow> u32 option" where
  "left x = do {
     k \<leftarrow> level x;
     if k = 0 then None else do { b \<leftarrow> shl32 1 (k - 1); Some (x XOR b) } }"

definition right :: "u32 \<Rightarrow> u32 option" where
  "right x = do {
     k \<leftarrow> level x;
     if k = 0 then None else do { b \<leftarrow> shl32 3 (k - 1); Some (x XOR b) } }"

definition parent_step :: "u32 \<Rightarrow> u32 option" where
  "parent_step x = do {
     k \<leftarrow> level x;
     y \<leftarrow> shr32 x (k + 1);
     let b = y AND 1;
     s \<leftarrow> shl32 1 k;
     t \<leftarrow> shl32 b (k + 1);
     Some ((x OR s) XOR t) }"

partial_function (option) parent_loop :: "u32 \<Rightarrow> u32 \<Rightarrow> u32 option" where
  "parent_loop w p = (if p \<ge> w then do { q \<leftarrow> parent_step p; parent_loop w q } else Some p)"

text \<open>The outer option is a panic or a loop that does not end, the inner one the code's own.\<close>

definition parent :: "u32 \<Rightarrow> u32 \<Rightarrow> u32 option option" where
  "parent x n = do {
     r \<leftarrow> root n;
     if x = r then Some None
     else do { p \<leftarrow> parent_step x; w \<leftarrow> node_width n; q \<leftarrow> parent_loop w p; Some (Some q) } }"

definition sibling :: "u32 \<Rightarrow> u32 \<Rightarrow> u32 option option" where
  "sibling x n = do {
     pp \<leftarrow> parent x n;
     case pp of
       None \<Rightarrow> Some None
     | Some p \<Rightarrow> do { s \<leftarrow> (if x < p then right p else left p); Some (Some s) } }"

section \<open>Coordinates\<close>

definition node_at :: "nat \<Rightarrow> u32 \<Rightarrow> u32" where
  "node_at k m = push_bit (k + 1) m OR mask k"

lemma bit_double: "bit (2 * m :: u32) i \<longleftrightarrow> 0 < i \<and> i < 32 \<and> bit m (i - 1)"
  by (auto simp: bit_double_iff)

lemma bit_double_Suc: "bit (2 * m + 1 :: u32) i \<longleftrightarrow> i = 0 \<or> bit (2 * m) i"
proof -
  have "2 * m + 1 = (2 * m OR 1 :: u32)"
    by (rule disjunctive_add) (auto simp: bit_double bit_1_iff)
  then show ?thesis by (auto simp: bit_or_iff bit_1_iff)
qed

lemma bit_exp_u32: "bit (2 ^ k :: u32) i \<longleftrightarrow> i = k \<and> i < 32"
  by (auto simp: bit_exp_iff)

lemma bit_half: "bit (m div 2 :: u32) i \<longleftrightarrow> bit m (Suc i)"
  by (simp add: bit_Suc)

lemma bit_node_at:
  "k < 32 \<Longrightarrow> bit (node_at k m) i \<longleftrightarrow> i < 32 \<and> (i < k \<or> (k < i \<and> bit m (i - Suc k)))"
  unfolding node_at_def
  by (simp only: bit_or_iff bit_push_bit_iff bit_mask_iff possible_bit_word) auto

lemma odd_and1: "(x :: u32) AND 1 = 1 \<longleftrightarrow> bit x 0"
  by (metis and_one_eq bit_0 mod2_eq_if odd_iff_mod_2_eq_one zero_neq_one)

lemma even_and1: "(x :: u32) AND 1 = 0 \<longleftrightarrow> \<not> bit x 0"
  by (metis and_one_eq bit_0 even_iff_mod_2_eq_zero)

lemma level_loop_at:
  assumes "k < 32" "j \<le> k"
  shows "level_loop (node_at k m) j = Some k"
  using assms(2)
proof (induction "k - j" arbitrary: j)
  case 0
  then show ?case using assms(1)
    by (subst level_loop.simps) (simp add: shr32_def odd_and1 bit_simps bit_node_at)
next
  case (Suc d)
  then have "j < k" "d = k - Suc j" by auto
  then show ?case using Suc.hyps(1)[of "Suc j"] assms(1)
    by (subst level_loop.simps) (simp add: shr32_def odd_and1 bit_simps bit_node_at)
qed

lemma level_node_at: "k < 32 \<Longrightarrow> level (node_at k m) = Some k"
  by (auto simp: level_def even_and1 bit_node_at level_loop_at)

lemma left_node_at:
  assumes "0 < k" "k < 32"
  shows "left (node_at k m) = Some (node_at (k - 1) (2 * m))"
proof -
  have "node_at k m XOR push_bit (k - 1) 1 = node_at (k - 1) (2 * m)"
    by (rule bit_word_eqI)
       (use assms in \<open>auto simp: bit_node_at bit_double bit_xor_iff bit_exp_u32\<close>)
  then show ?thesis using assms by (simp add: left_def level_node_at shl32_def)
qed

lemma right_node_at:
  assumes "0 < k" "k < 32"
  shows "right (node_at k m) = Some (node_at (k - 1) (2 * m + 1))"
proof -
  have "(3 :: u32) = 2 * 1 + 1" by simp
  then have three: "bit (3 :: u32) i \<longleftrightarrow> i = 0 \<or> 0 < i \<and> i < 32 \<and> i - 1 = 0" for i
    by (simp only: bit_double_Suc bit_double bit_1_iff)
  define f where "f = push_bit (k - 1) (3 :: u32)"
  have f: "bit f i \<longleftrightarrow> (i = k - 1 \<or> i = k) \<and> i < 32" for i
    unfolding f_def using assms(1)
    by (simp only: bit_push_bit_iff possible_bit_word three) auto
  have "bit (node_at k m XOR f) i = bit (node_at (k - 1) (2 * m + 1)) i" if "i < 32" for i
  proof -
    obtain c where c: "k = Suc c" using assms(1) by (cases k) auto
    consider "i < c" | "i = c" | "i = Suc c" | "Suc c < i" by linarith
    then show ?thesis
      by cases (use assms that c in
          \<open>simp_all add: bit_xor_iff bit_node_at f bit_double_Suc bit_double less_imp_diff_less\<close>)
  qed
  then have "node_at k m XOR f = node_at (k - 1) (2 * m + 1)"
    by (intro bit_word_eqI) simp
  then show ?thesis using assms by (simp add: right_def level_node_at shl32_def f_def)
qed

lemma parent_step_node_at:
  assumes "k < 31"
  shows "parent_step (node_at k m) = Some (node_at (k + 1) (m div 2))"
proof -
  define b where "b = push_bit (k + 1) (drop_bit (k + 1) (node_at k m) AND 1)"
  have b: "bit b i \<longleftrightarrow> i = k + 1 \<and> bit m 0" for i
    unfolding b_def using assms
    by (simp only: bit_push_bit_iff bit_and_iff bit_drop_bit_eq comp_def possible_bit_word bit_1_iff)
       (auto simp: bit_node_at)
  have "bit ((node_at k m OR 2 ^ k) XOR b) i = bit (node_at (k + 1) (m div 2)) i" if "i < 32" for i
  proof -
    consider "i < k" | "i = k" | "i = Suc k" | "Suc k < i" by linarith
    then show ?thesis
      by cases (use assms that in \<open>simp_all add: bit_xor_iff bit_or_iff bit_node_at bit_exp_u32 bit_half
          b Suc_diff_Suc\<close>)
  qed
  then have "(node_at k m OR 2 ^ k) XOR b = node_at (k + 1) (m div 2)"
    by (intro bit_word_eqI) simp
  then show ?thesis
    using assms by (simp add: parent_step_def level_node_at shl32_def shr32_def Let_def b_def)
qed

lemma node_at_nat_bound:
  assumes "k \<le> d" "(j :: nat) < 2 ^ (d - k)"
  shows "j * 2 ^ (k + 1) + (2 ^ k - 1) < 2 ^ (d + 1) - 1"
proof -
  have "(j + 1) * 2 ^ (k + 1) \<le> 2 ^ (d - k) * 2 ^ (k + 1)"
    using assms(2) by (intro mult_le_mono1) simp
  also have "\<dots> = (2 :: nat) ^ (d + 1)"
    using assms(1) by (simp flip: power_add)
  finally have "j * 2 ^ (k + 1) + 2 * 2 ^ k \<le> (2 :: nat) ^ (d + 1)"
    by (simp add: add_mult_distrib)
  moreover have "(1 :: nat) \<le> 2 ^ k" by simp
  ultimately show ?thesis by linarith
qed

lemma node_at_of_nat: "node_at k (of_nat j) = of_nat (j * 2 ^ (k + 1) + (2 ^ k - 1))"
proof -
  have "node_at k (of_nat j) = push_bit (k + 1) (of_nat j) + mask k"
    unfolding node_at_def
    by (rule disjunctive_add[symmetric]) (auto simp: bit_push_bit_iff bit_mask_iff)
  moreover have "(of_nat (2 ^ k - 1) :: u32) = 2 ^ k - 1" by (simp add: of_nat_diff)
  ultimately show ?thesis
    by (simp only: push_bit_eq_mult mask_eq_exp_minus_1 of_nat_add of_nat_mult of_nat_power of_nat_numeral)
qed

lemma unat_node_at:
  assumes "k \<le> d" "d \<le> 30" "j < 2 ^ (d - k)"
  shows "unat (node_at k (of_nat j)) = j * 2 ^ (k + 1) + (2 ^ k - 1)"
proof -
  have "(2 :: nat) ^ (d + 1) \<le> 2 ^ 31" using assms(2) by (intro power_increasing) auto
  with node_at_nat_bound[OF assms(1,3)] show ?thesis
    unfolding node_at_of_nat by (intro unat_u32_of_nat) simp
qed

text \<open>Every index below \<open>2 ^ (d + 1) - 1\<close> is a node of the complete tree of depth \<open>d\<close>.\<close>

lemma odd_part: "\<exists>k j. Suc v = 2 ^ k * (2 * j + 1)"
proof (induction v rule: less_induct)
  case (less v)
  show ?case
  proof (cases "odd (Suc v)")
    case True
    then show ?thesis by (intro exI[of _ 0] exI[of _ "v div 2"]) simp
  next
    case False
    then obtain u where u: "Suc v = 2 * Suc u" by (metis evenE mult_0_right not0_implies_Suc nat.distinct(1))
    then obtain k j where "Suc u = 2 ^ k * (2 * j + 1)" using less[of u] by auto
    with u show ?thesis by (intro exI[of _ "Suc k"] exI[of _ j]) simp
  qed
qed

definition in_tree :: "nat \<Rightarrow> nat \<Rightarrow> nat \<Rightarrow> u32 \<Rightarrow> bool" where
  "in_tree d k j x \<longleftrightarrow> k \<le> d \<and> j < 2 ^ (d - k) \<and> x = node_at k (of_nat j)"

lemma ex_in_tree:
  assumes "unat x < 2 ^ (d + 1) - 1"
  shows "\<exists>k j. in_tree d k j x"
proof -
  obtain k j where kj: "Suc (unat x) = 2 ^ k * (2 * j + 1)" using odd_part by blast
  have lt: "2 ^ k * (2 * j + 1) < (2 :: nat) ^ (d + 1)" using assms kj by simp
  then have "(2 :: nat) ^ k < 2 ^ (d + 1)"
    by (rule le_less_trans[rotated]) simp
  then have "k < d + 1" by (rule power_less_imp_less_exp[rotated]) simp
  then have k: "k \<le> d" by simp
  have "(2 :: nat) ^ k * 2 ^ (d - k) = 2 ^ d" using k by (simp flip: power_add)
  then have "2 ^ k * (2 * j + 1) < 2 ^ k * (2 * 2 ^ (d - k))"
    using lt by simp
  then have "2 * j + 1 < 2 * 2 ^ (d - k)" by (simp only: mult_less_cancel1)
  then have j: "j < 2 ^ (d - k)" by linarith
  have "unat x = j * 2 ^ (k + 1) + (2 ^ k - 1)"
    using kj by (simp add: algebra_simps)
  then have "x = node_at k (of_nat j)"
    unfolding node_at_of_nat by (metis of_nat_unat ucast_id)
  with k j show ?thesis by (auto simp: in_tree_def)
qed


lemma in_tree_facts:
  assumes "in_tree d k j x" "d \<le> 30"
  shows "level x = Some k" and "unat x = j * 2 ^ (k + 1) + (2 ^ k - 1)"
    and "unat x < 2 ^ (d + 1) - 1"
  using assms unat_node_at[of k d j] node_at_nat_bound[of k d j]
  by (auto simp: in_tree_def level_node_at)

lemma pow_split: "k < d \<Longrightarrow> (2 :: nat) ^ (d - k) = 2 * 2 ^ (d - Suc k)"
  by (metis Suc_diff_Suc power_Suc)

text \<open>The children of a node, and its parent, in coordinates.\<close>

lemma left_in_tree:
  assumes "in_tree d k j x" "0 < k" "d \<le> 30"
  shows "\<exists>l. left x = Some l \<and> in_tree d (k - 1) (2 * j) l"
  using assms left_node_at[of k "of_nat j"] pow_split[of "k - 1" d]
  by (auto simp: in_tree_def)

lemma right_in_tree:
  assumes "in_tree d k j x" "0 < k" "d \<le> 30"
  shows "\<exists>r. right x = Some r \<and> in_tree d (k - 1) (2 * j + 1) r"
  using assms right_node_at[of k "of_nat j"] pow_split[of "k - 1" d]
  by (auto simp: in_tree_def add.commute)

lemma of_nat_half:
  assumes "j < 2 ^ 31"
  shows "(of_nat j :: u32) div 2 = of_nat (j div 2)"
  using assms by (intro word_eq_iff_unsigned[where 'a = nat, THEN iffD2]) (simp add: unat_div)

lemma parent_step_in_tree:
  assumes "in_tree d k j x" "k < d" "d \<le> 30"
  shows "\<exists>p. parent_step x = Some p \<and> in_tree d (k + 1) (j div 2) p"
proof -
  have j: "j < 2 * 2 ^ (d - Suc k)" using assms pow_split[of k d] by (simp add: in_tree_def)
  have "(2 :: nat) ^ (d - Suc k) \<le> 2 ^ 30" using assms(3) by (intro power_increasing) auto
  with j have "(of_nat j :: u32) div 2 = of_nat (j div 2)" by (intro of_nat_half) simp
  then show ?thesis
    using assms j parent_step_node_at[of k "of_nat j"] by (auto simp: in_tree_def)
qed

lemma node_width_pow:
  assumes "unat n = 2 ^ d" "d \<le> 30"
  shows "\<exists>w. node_width n = Some w \<and> unat w = 2 ^ (d + 1) - 1"
proof -
  have le: "(2 :: nat) ^ d \<le> 2 ^ 30" using assms(2) by (intro power_increasing) auto
  have pos: "n \<noteq> 0" using assms(1) by (metis power_not_zero unat_0 zero_neq_numeral)
  have "2 * (n - 1) + 1 = of_nat (2 * (2 ^ d - 1) + 1)"
    unfolding assms(1)[symmetric] using pos by (simp add: of_nat_diff unat_gt_0 Suc_leI)
  moreover have "2 * (2 ^ d - 1) + 1 < (2 :: nat) ^ 32" using le by simp
  ultimately have "unat (2 * (n - 1) + 1) = 2 * (2 ^ d - 1) + 1"
    by (metis unat_u32_of_nat)
  moreover have "2 * (2 ^ d - 1) + 1 = (2 :: nat) ^ (d + 1) - 1"
    by (cases "(2 :: nat) ^ d") auto
  ultimately show ?thesis
    using pos assms(1) \<open>2 * (2 ^ d - 1) + 1 < 2 ^ 32\<close> by (simp add: node_width_def)
qed

lemma drop_bit_pos: "drop_bit k (x :: u32) > 0 \<longleftrightarrow> 2 ^ k \<le> unat x"
proof -
  have "drop_bit k x > 0 \<longleftrightarrow> 0 < unat x div 2 ^ k"
    by (metis drop_bit_eq_div unat_drop_bit_eq unat_gt_0 word_neq_0_conv)
  then show ?thesis by (simp add: div_greater_zero_iff)
qed

lemma log2_loop_eq:
  assumes "2 ^ d \<le> unat x" "unat x < 2 ^ (d + 1)" "d \<le> 30" "k \<le> d + 1"
  shows "log2_loop x k = Some (d + 1)"
  using assms(4)
proof (induction "d + 1 - k" arbitrary: k)
  case 0
  then have "k = d + 1" by simp
  then show ?case using assms(2,3)
    by (subst log2_loop.simps) (simp add: shr32_def drop_bit_pos del: drop_bit_Suc)
next
  case (Suc c)
  then have "k \<le> d" "c = d + 1 - Suc k" by auto
  moreover from this have "2 ^ k \<le> unat x"
    by (intro order_trans[OF _ assms(1)] power_increasing) auto
  ultimately show ?case using assms(1,3) Suc.hyps(1)[of "Suc k"]
    by (subst log2_loop.simps) (simp add: shr32_def drop_bit_pos)
qed

lemma root_pow:
  assumes "unat n = 2 ^ d" "d \<le> 30"
  shows "\<exists>r. root n = Some r \<and> in_tree d d 0 r"
proof -
  obtain w where w: "node_width n = Some w" "unat w = 2 ^ (d + 1) - 1"
    using node_width_pow[OF assms] by blast
  have "2 ^ d \<le> unat w" "unat w < 2 ^ (d + 1)" "unat w \<noteq> 0"
    using w(2) by (cases "(2 :: nat) ^ d"; simp)+
  moreover from this(3) have "w \<noteq> 0" by auto
  ultimately have "log2 w = Some d"
    using log2_loop_eq[of d w 0] assms(2) by (simp add: log2_def)
  then show ?thesis
    using w(1) assms(2)
    by (simp add: root_def shl32_def in_tree_def node_at_def mask_eq_exp_minus_1)
qed

lemma in_tree_unique:
  assumes "in_tree d k j x" "in_tree d k' j' x" "d \<le> 30"
  shows "k = k' \<and> j = j'"
proof -
  have "k = k'" using in_tree_facts(1)[OF assms(1,3)] in_tree_facts(1)[OF assms(2,3)] by simp
  moreover from this have "j * 2 ^ (k + 1) = j' * 2 ^ (k + 1)"
    using in_tree_facts(2)[OF assms(1,3)] in_tree_facts(2)[OF assms(2,3)]
    by (metis add_right_cancel)
  ultimately show ?thesis by simp
qed

lemma parent_in_tree:
  assumes "in_tree d k j x" "unat n = 2 ^ d" "d \<le> 30" "k < d"
  shows "\<exists>p. parent x n = Some (Some p) \<and> in_tree d (k + 1) (j div 2) p"
proof -
  obtain r w p where r: "root n = Some r" "in_tree d d 0 r"
    and w: "node_width n = Some w" "unat w = 2 ^ (d + 1) - 1"
    and p: "parent_step x = Some p" "in_tree d (k + 1) (j div 2) p"
    using root_pow[OF assms(2,3)] node_width_pow[OF assms(2,3)] parent_step_in_tree[OF assms(1,4,3)]
    by blast
  have "x \<noteq> r" using in_tree_unique[OF assms(1) _ assms(3)] r(2) assms(4) by blast
  moreover have "p < w" using in_tree_facts(3)[OF p(2) assms(3)] w(2) by (simp add: word_less_nat_alt)
  then have "parent_loop w p = Some p" by (subst parent_loop.simps) auto
  ultimately show ?thesis using r(1) w(1) p by (simp add: parent_def)
qed


section \<open>Properties\<close>

lemma in_tree_children_order:
  assumes "in_tree d k j x" "in_tree d (k - 1) (2 * j) l" "in_tree d (k - 1) (2 * j + 1) r"
    and "0 < k" "d \<le> 30"
  shows "l < x \<and> x < r"
proof -
  obtain c where k: "k = Suc c" using assms(4) by (cases k) auto
  have "unat x = j * 2 ^ (k + 1) + (2 ^ k - 1)" "unat l = 2 * j * 2 ^ k + (2 ^ c - 1)"
    "unat r = (2 * j + 1) * 2 ^ k + (2 ^ c - 1)"
    using assms in_tree_facts(2) k by (metis Suc_eq_plus1 diff_Suc_1)+
  moreover obtain e where "(2 :: nat) ^ c = Suc e" by (cases "(2 :: nat) ^ c") auto
  ultimately show ?thesis
    unfolding word_less_nat_alt k by (simp add: algebra_simps)
qed

lemma sibling_in_tree:
  assumes "in_tree d k j x" "unat n = 2 ^ d" "d \<le> 30" "k < d"
  shows "\<exists>s. sibling x n = Some (Some s) \<and> in_tree d k (if even j then j + 1 else j - 1) s"
proof -
  obtain p where p: "parent x n = Some (Some p)" "in_tree d (k + 1) (j div 2) p"
    using parent_in_tree[OF assms] by blast
  obtain l r where l: "left p = Some l" "in_tree d k (2 * (j div 2)) l"
    and r: "right p = Some r" "in_tree d k (2 * (j div 2) + 1) r"
    using left_in_tree[OF p(2)] right_in_tree[OF p(2)] assms(3) by auto
  have ord: "l < p \<and> p < r"
    using in_tree_children_order[OF p(2), of l r] l r assms(3) by simp
  show ?thesis
  proof (cases "even j")
    case True
    then have "x = l" using l(2) assms(1) by (simp add: in_tree_def)
    then show ?thesis using True p(1) r ord by (simp add: sibling_def)
  next
    case False
    then have "2 * (j div 2) + 1 = j" "2 * (j div 2) = j - 1" by (simp_all add: odd_two_times_div_two_succ)
    moreover from this have "x = r" using r(2) assms(1) by (simp add: in_tree_def)
    ultimately show ?thesis using False p(1) l ord by (auto simp: sibling_def)
  qed
qed

text \<open>
  C34. In the tree of a group of \<open>2 ^ d\<close> leaves every inner node has a left child below it
  and a right child above it, one level down and inside the tree; both have it as their
  parent, and they are each other's sibling. No call panics or loops.
\<close>

theorem children_and_parent:
  assumes "unat n = 2 ^ d" "d \<le> 30" "node_width n = Some w" "x < w" "level x = Some k" "0 < k"
  shows "\<exists>l r. left x = Some l \<and> right x = Some r \<and> l < x \<and> x < r \<and> r < w \<and>
    level l = Some (k - 1) \<and> level r = Some (k - 1) \<and>
    parent l n = Some (Some x) \<and> parent r n = Some (Some x) \<and>
    sibling l n = Some (Some r) \<and> sibling r n = Some (Some l)"
proof -
  have w: "unat w = 2 ^ (d + 1) - 1" using node_width_pow[OF assms(1,2)] assms(3) by auto
  then obtain j where j: "in_tree d k j x"
    using ex_in_tree[of x d] assms(2,4,5) in_tree_facts(1) by (auto simp: word_less_nat_alt)
  obtain l r where l: "left x = Some l" "in_tree d (k - 1) (2 * j) l"
    and r: "right x = Some r" "in_tree d (k - 1) (2 * j + 1) r"
    using left_in_tree[OF j assms(6,2)] right_in_tree[OF j assms(6,2)] by blast
  have lt: "k - 1 < d" using j assms(6) by (auto simp: in_tree_def)
  have up: "in_tree d k j p \<Longrightarrow> p = x" "in_tree d (k - 1) (2 * j) p \<Longrightarrow> p = l"
    "in_tree d (k - 1) (2 * j + 1) p \<Longrightarrow> p = r" for p
    using j l(2) r(2) by (auto simp: in_tree_def)
  have "parent l n = Some (Some x)" "parent r n = Some (Some x)"
    using parent_in_tree[OF l(2) assms(1,2) lt] parent_in_tree[OF r(2) assms(1,2) lt] up(1) assms(6)
    by auto
  moreover have "sibling l n = Some (Some r)" "sibling r n = Some (Some l)"
    using sibling_in_tree[OF l(2) assms(1,2) lt] sibling_in_tree[OF r(2) assms(1,2) lt] up(2,3)
    by auto
  moreover have "r < w" using in_tree_facts(3)[OF r(2) assms(2)] w by (simp add: word_less_nat_alt)
  ultimately show ?thesis
    using l r in_tree_children_order[OF j l(2) r(2) assms(6,2)] in_tree_facts(1) assms(2) by blast
qed

theorem children_and_parent_witness:
  "\<exists>l r. left 3 = Some l \<and> right 3 = Some r \<and> l < (3 :: u32) \<and> 3 < r \<and> r < 7 \<and>
    level l = Some (2 - 1) \<and> level r = Some (2 - 1) \<and>
    parent l 4 = Some (Some 3) \<and> parent r 4 = Some (Some 3) \<and>
    sibling l 4 = Some (Some r) \<and> sibling r 4 = Some (Some l)"
proof (rule children_and_parent)
  show "unat (4 :: u32) = 2 ^ 2" "node_width 4 = Some 7" "(3 :: u32) < 7"
    by (simp_all add: node_width_def)
  show "level 3 = Some 2"
    by (simp add: level_def level_loop.simps shr32_def)
qed simp_all

text \<open>
  C35. Walking up. Every node of the tree of \<open>2 ^ d\<close> leaves has a level at most \<open>d\<close>; the
  root is the one node without a parent; the parent of any other node is one level up
  and has the node as one of its two children. So a walk from any node reaches the root
  after \<open>d\<close> minus its level steps.
\<close>

theorem parent_is_up:
  assumes "unat n = 2 ^ d" "d \<le> 30" "node_width n = Some w" "x < w"
  shows "\<exists>k. level x = Some k \<and> k \<le> d \<and>
    (if root n = Some x then k = d \<and> parent x n = Some None
     else k < d \<and> (\<exists>p. parent x n = Some (Some p) \<and> level p = Some (k + 1) \<and> p < w \<and>
       (left p = Some x \<or> right p = Some x)))"
proof -
  have w: "unat w = 2 ^ (d + 1) - 1" using node_width_pow[OF assms(1,2)] assms(3) by auto
  then obtain k j where x: "in_tree d k j x"
    using ex_in_tree[of x d] assms(4) by (auto simp: word_less_nat_alt)
  obtain r where r: "root n = Some r" "in_tree d d 0 r" using root_pow[OF assms(1,2)] by blast
  have k: "level x = Some k" "k \<le> d" using in_tree_facts(1)[OF x assms(2)] x by (simp_all add: in_tree_def)
  show ?thesis
  proof (cases "k = d")
    case True
    then have "x = r" using x r(2) by (simp add: in_tree_def)
    then show ?thesis using True k r by (simp add: parent_def)
  next
    case False
    then have lt: "k < d" using k by simp
    have "r \<noteq> x" using in_tree_unique[OF x _ assms(2)] r(2) lt by blast
    obtain p where p: "parent x n = Some (Some p)" "in_tree d (k + 1) (j div 2) p"
      using parent_in_tree[OF x assms(1,2) lt] by blast
    have "left p = Some x \<or> right p = Some x"
      using left_in_tree[OF p(2) _ assms(2)] right_in_tree[OF p(2) _ assms(2)] x
      by (cases "even j") (auto simp: in_tree_def odd_two_times_div_two_succ)
    then show ?thesis
      using k lt r(1) \<open>r \<noteq> x\<close> p in_tree_facts[OF p(2) assms(2)] w by (simp add: word_less_nat_alt)
  qed
qed

theorem parent_is_up_witness:
  "\<exists>k. level (4 :: u32) = Some k \<and> k \<le> 2 \<and>
    (if root 4 = Some 4 then k = 2 \<and> parent 4 4 = Some None
     else k < 2 \<and> (\<exists>p. parent 4 4 = Some (Some p) \<and> level p = Some (k + 1) \<and> p < 7 \<and>
       (left p = Some 4 \<or> right p = Some 4)))"
  by (rule parent_is_up) (simp_all add: node_width_def)

end
