(* ===== verification/Crypto.thy ===== *)
theory Crypto
  imports Wire "HOL-Library.AList"
begin

text \<open>
  The primitives of the crypto crate as the rest of the code uses them:
  \<open>crypto/src/error.rs\<close>, \<open>kdf.rs\<close>, \<open>aead.rs\<close> and \<open>identity.rs\<close>.

  KMAC256, AES-256-GCM, HKDF-SHA256, SHA-256, SHA3-384, ML-KEM-1024, ML-DSA-87 and X25519
  are third-party crates: they are the fields of the record \<open>prims\<close>, an argument of every
  definition that calls them. What the code relies on is written as the predicates
  \<open>kmac_sized\<close>, \<open>gcm_correct\<close>, \<open>kem_correct\<close>, \<open>kem_sized\<close>, \<open>x_agrees\<close> and \<open>dsa_correct\<close>,
  each the documented functional behaviour of one crate; \<open>demo_prims\<close> is a small
  computable instance that satisfies them. Randomness is an explicit argument (the
  coins an operation draws).
\<close>

section \<open>Errors\<close>

datatype crypto_error =
    DecryptionFailed
  | Malformed str
  | BadSignature
  | TooManySkipped nat
  | Replay
  | WireErr wire_error
  | UnknownSuite str
  | BelowFloor str
  | SelfTest str

text \<open>The \<open>?\<close> on a wire call inside the crypto layer converts through \<open>From<WireError>\<close>.\<close>

abbreviation wire :: "wire_error + 'a \<Rightarrow> crypto_error + 'a" where
  "wire m \<equiv> map_err WireErr m"

abbreviation malformed :: "string \<Rightarrow> crypto_error + 'a" where
  "malformed s \<equiv> Inl (Malformed (ascii s))"

section \<open>Third-party primitives\<close>

record prims =
  kmac256 :: "bytes \<Rightarrow> bytes \<Rightarrow> bytes \<Rightarrow> nat \<Rightarrow> bytes"
  gcm_encrypt :: "bytes \<Rightarrow> bytes \<Rightarrow> bytes \<Rightarrow> bytes \<Rightarrow> bytes option"
  gcm_decrypt :: "bytes \<Rightarrow> bytes \<Rightarrow> bytes \<Rightarrow> bytes \<Rightarrow> bytes option"
  hkdf256_expand :: "bytes \<Rightarrow> bytes \<Rightarrow> nat \<Rightarrow> bytes option"
  hkdf256_extract :: "bytes \<Rightarrow> bytes \<Rightarrow> bytes"
  sha256 :: "bytes \<Rightarrow> bytes"
  sha3_384 :: "bytes \<Rightarrow> bytes"
  kem_generate :: "bytes \<Rightarrow> bytes \<times> bytes"
  kem_generate_deterministic :: "bytes \<Rightarrow> bytes \<Rightarrow> bytes \<times> bytes"
  kem_encapsulate :: "bytes \<Rightarrow> bytes \<Rightarrow> (bytes \<times> bytes) option"
  kem_decapsulate :: "bytes \<Rightarrow> bytes \<Rightarrow> bytes option"
  x_public :: "bytes \<Rightarrow> bytes"
  x_dh :: "bytes \<Rightarrow> bytes \<Rightarrow> bytes"
  dsa_verifying_key :: "bytes \<Rightarrow> bytes"
  dsa_sign :: "bytes \<Rightarrow> bytes \<Rightarrow> bytes"
  dsa_decodes :: "bytes \<Rightarrow> bool"
  dsa_verifies :: "bytes \<Rightarrow> bytes \<Rightarrow> bytes \<Rightarrow> bool"

definition kmac_sized :: "prims \<Rightarrow> bool" where
  "kmac_sized P \<longleftrightarrow> (\<forall>key label msg n. length (kmac256 P key label msg n) = n)"

definition gcm_correct :: "prims \<Rightarrow> bool" where
  "gcm_correct P \<longleftrightarrow> (\<forall>key nonce pt aad ct.
     gcm_encrypt P key nonce pt aad = Some ct \<longrightarrow> gcm_decrypt P key nonce ct aad = Some pt)"

text \<open>The encoded sizes of FIPS 203 and 204 at category 5, which the code checks by length.\<close>

definition EK_LEN :: nat where "EK_LEN = 1568"
definition CT_LEN :: nat where "CT_LEN = 1568"
definition VK_LEN :: nat where "VK_LEN = 2592"
definition SIG_LEN :: nat where "SIG_LEN = 4627"

text \<open>A key pair of either generator: the decapsulation key first, as the crate returns it.\<close>

definition kem_pair :: "prims \<Rightarrow> bytes \<Rightarrow> bytes \<Rightarrow> bool" where
  "kem_pair P dk ek \<longleftrightarrow>
     (\<exists>c. kem_generate P c = (dk, ek)) \<or> (\<exists>d z. kem_generate_deterministic P d z = (dk, ek))"

definition kem_correct :: "prims \<Rightarrow> bool" where
  "kem_correct P \<longleftrightarrow> (\<forall>dk ek coins ct ss.
     kem_pair P dk ek \<and> kem_encapsulate P ek coins = Some (ct, ss) \<longrightarrow>
     kem_decapsulate P dk ct = Some ss)"

definition kem_sized :: "prims \<Rightarrow> bool" where
  "kem_sized P \<longleftrightarrow>
     (\<forall>dk ek. kem_pair P dk ek \<longrightarrow> length ek = EK_LEN) \<and>
     (\<forall>ek coins ct ss. kem_encapsulate P ek coins = Some (ct, ss) \<longrightarrow>
        length ct = CT_LEN \<and> length ss = 32)"

definition x_agrees :: "prims \<Rightarrow> bool" where
  "x_agrees P \<longleftrightarrow> (\<forall>a b. x_dh P a (x_public P b) = x_dh P b (x_public P a)) \<and>
     (\<forall>a. length (x_public P a) = 32)"

definition dsa_correct :: "prims \<Rightarrow> bool" where
  "dsa_correct P \<longleftrightarrow> (\<forall>seed msg.
     length (dsa_verifying_key P seed) = VK_LEN \<and> length (dsa_sign P seed msg) = SIG_LEN \<and>
     dsa_decodes P (dsa_sign P seed msg) \<and>
     dsa_verifies P (dsa_verifying_key P seed) msg (dsa_sign P seed msg))"

section \<open>Key derivation\<close>

definition KEY_LEN :: nat where "KEY_LEN = 32"

definition NONCE_LEN :: nat where "NONCE_LEN = 12"

definition INFO_RK :: bytes where "INFO_RK = ascii ''talkrypt/v1/rk''"
definition INFO_CK :: bytes where "INFO_CK = ascii ''talkrypt/v1/ck''"
definition INFO_MK :: bytes where "INFO_MK = ascii ''talkrypt/v1/mk''"

text \<open>The default (SHA-3) build: KMAC256 with the label as customization string.\<close>

definition mac_kdf :: "prims \<Rightarrow> bytes \<Rightarrow> bytes \<Rightarrow> bytes \<Rightarrow> nat \<Rightarrow> bytes" where
  "mac_kdf P key msg label out_len = kmac256 P key label msg out_len"

definition kdf_rk :: "prims \<Rightarrow> bytes \<Rightarrow> bytes \<Rightarrow> bytes \<times> bytes" where
  "kdf_rk P root ikm =
     (let out = mac_kdf P root ikm INFO_RK (KEY_LEN * 2)
      in (take KEY_LEN out, drop KEY_LEN out))"

definition kdf_ck :: "prims \<Rightarrow> bytes \<Rightarrow> bytes \<times> bytes" where
  "kdf_ck P chain =
     (mac_kdf P chain [] (INFO_CK @ ascii ''/next'') KEY_LEN,
      mac_kdf P chain [] (INFO_CK @ ascii ''/mk'') KEY_LEN)"

definition kdf_mk :: "prims \<Rightarrow> bytes \<Rightarrow> bytes \<times> bytes" where
  "kdf_mk P mk_seed =
     (let okm = mac_kdf P mk_seed [] INFO_MK (KEY_LEN + NONCE_LEN)
      in (take KEY_LEN okm, drop KEY_LEN okm))"

definition MAX_SKIP :: nat where "MAX_SKIP = 1000"

section \<open>AEAD\<close>

definition aead_seal :: "prims \<Rightarrow> bytes \<Rightarrow> bytes \<Rightarrow> bytes \<Rightarrow> bytes \<Rightarrow> crypto_error + bytes" where
  "aead_seal P key nonce pt aad =
     (if length key \<noteq> KEY_LEN then malformed ''aead key''
      else ok_or (Malformed (ascii ''aead seal'')) (gcm_encrypt P key nonce pt aad))"

definition aead_open :: "prims \<Rightarrow> bytes \<Rightarrow> bytes \<Rightarrow> bytes \<Rightarrow> bytes \<Rightarrow> crypto_error + bytes" where
  "aead_open P key nonce ct aad =
     (if length key \<noteq> KEY_LEN then malformed ''aead key''
      else ok_or DecryptionFailed (gcm_decrypt P key nonce ct aad))"

section \<open>Identity\<close>

record identity_public =
  sig_vk :: bytes

record identity_key_pair =
  sig_seed :: bytes
  id_public :: identity_public

definition from_secret_bytes :: "prims \<Rightarrow> bytes \<Rightarrow> identity_key_pair" where
  "from_secret_bytes P seed =
     \<lparr>sig_seed = seed, id_public = \<lparr>sig_vk = dsa_verifying_key P seed\<rparr>\<rparr>"

definition id_sign :: "prims \<Rightarrow> identity_key_pair \<Rightarrow> bytes \<Rightarrow> bytes" where
  "id_sign P kp msg = dsa_sign P (sig_seed kp) msg"

definition id_verify :: "prims \<Rightarrow> identity_public \<Rightarrow> bytes \<Rightarrow> bytes \<Rightarrow> crypto_error + unit" where
  "id_verify P pk msg sig =
     (if length (sig_vk pk) \<noteq> VK_LEN then malformed ''ml-dsa verifying key length''
      else if length sig \<noteq> SIG_LEN then malformed ''ml-dsa signature length''
      else if \<not> dsa_decodes P sig then Inl BadSignature
      else if dsa_verifies P (sig_vk pk) msg sig then Inr () else Inl BadSignature)"

definition fingerprint :: "prims \<Rightarrow> identity_public \<Rightarrow> bytes" where
  "fingerprint P pk = sha3_384 P (sig_vk pk)"

definition id_ct_eq :: "identity_public \<Rightarrow> identity_public \<Rightarrow> bool" where
  "id_ct_eq a b \<longleftrightarrow>
     (if length (sig_vk a) \<noteq> length (sig_vk b) then False else sig_vk a = sig_vk b)"

section \<open>A computable instance\<close>

text \<open>
  Sums over the first bytes and the lengths stand for the keyed functions, so closed
  terms evaluate quickly; the sizes and the correctness laws are those of the crates.
\<close>

definition fold_byte :: "bytes \<Rightarrow> byte" where
  "fold_byte bs = (case bs of [] \<Rightarrow> 7 | b # _ \<Rightarrow> b + of_nat (length bs))"

definition demo_kmac :: "bytes \<Rightarrow> bytes \<Rightarrow> bytes \<Rightarrow> nat \<Rightarrow> bytes" where
  "demo_kmac key label msg n = replicate n (fold_byte key + fold_byte label * 5 + fold_byte msg)"

definition demo_seal :: "bytes \<Rightarrow> bytes \<Rightarrow> bytes \<Rightarrow> bytes \<Rightarrow> bytes option" where
  "demo_seal key nonce pt aad = Some (pt @ [fold_byte key + fold_byte nonce + fold_byte aad + fold_byte pt])"

definition demo_open :: "bytes \<Rightarrow> bytes \<Rightarrow> bytes \<Rightarrow> bytes \<Rightarrow> bytes option" where
  "demo_open key nonce ct aad = (if ct \<noteq> [] \<and> last ct = fold_byte key + fold_byte nonce + fold_byte aad + fold_byte (butlast ct)
      then Some (butlast ct) else None)"

definition demo_expand :: "bytes \<Rightarrow> bytes \<Rightarrow> nat \<Rightarrow> bytes option" where
  "demo_expand prk info n = Some (replicate n (fold_byte prk + fold_byte info * 5))"

definition demo_extract :: "bytes \<Rightarrow> bytes \<Rightarrow> bytes" where
  "demo_extract salt ikm = replicate 32 (fold_byte salt + fold_byte ikm)"

definition demo_sha256 :: "bytes \<Rightarrow> bytes" where
  "demo_sha256 bs = replicate 32 (fold_byte bs)"

definition demo_sha3 :: "bytes \<Rightarrow> bytes" where
  "demo_sha3 bs = replicate 48 (fold_byte bs)"

definition demo_kem_gen :: "bytes \<Rightarrow> bytes \<times> bytes" where
  "demo_kem_gen c = ([fold_byte c], replicate EK_LEN (fold_byte c))"

definition demo_kem_det :: "bytes \<Rightarrow> bytes \<Rightarrow> bytes \<times> bytes" where
  "demo_kem_det d z = ([fold_byte d + fold_byte z], replicate EK_LEN (fold_byte d + fold_byte z))"

definition demo_encap :: "bytes \<Rightarrow> bytes \<Rightarrow> (bytes \<times> bytes) option" where
  "demo_encap ek c = Some (replicate CT_LEN (fold_byte c + hd ek), replicate 32 (fold_byte c))"

definition demo_decap :: "bytes \<Rightarrow> bytes \<Rightarrow> bytes option" where
  "demo_decap dk ct = Some (replicate 32 (hd ct - hd dk))"

definition demo_xpub :: "bytes \<Rightarrow> bytes" where
  "demo_xpub a = replicate 32 (fold_byte a)"

definition demo_xdh :: "bytes \<Rightarrow> bytes \<Rightarrow> bytes" where
  "demo_xdh a b = replicate 32 (fold_byte a * hd b)"

definition demo_vk :: "bytes \<Rightarrow> bytes" where
  "demo_vk seed = replicate VK_LEN (fold_byte seed)"

definition demo_sign :: "bytes \<Rightarrow> bytes \<Rightarrow> bytes" where
  "demo_sign seed msg = replicate SIG_LEN (fold_byte seed + fold_byte msg)"

definition demo_decodes :: "bytes \<Rightarrow> bool" where
  "demo_decodes sig = True"

definition demo_verifies :: "bytes \<Rightarrow> bytes \<Rightarrow> bytes \<Rightarrow> bool" where
  "demo_verifies vk msg sig = (hd sig = hd vk + fold_byte msg)"

definition demo_prims :: prims where
  "demo_prims =
     \<lparr>kmac256 = demo_kmac,
      gcm_encrypt = demo_seal,
      gcm_decrypt = demo_open,
      hkdf256_expand = demo_expand,
      hkdf256_extract = demo_extract,
      sha256 = demo_sha256,
      sha3_384 = demo_sha3,
      kem_generate = demo_kem_gen,
      kem_generate_deterministic = demo_kem_det,
      kem_encapsulate = demo_encap,
      kem_decapsulate = demo_decap,
      x_public = demo_xpub,
      x_dh = demo_xdh,
      dsa_verifying_key = demo_vk,
      dsa_sign = demo_sign,
      dsa_decodes = demo_decodes,
      dsa_verifies = demo_verifies\<rparr>"

lemma demo_prims_sel [simp]:
  "kmac256 demo_prims = demo_kmac"
  "gcm_encrypt demo_prims = demo_seal"
  "gcm_decrypt demo_prims = demo_open"
  "hkdf256_expand demo_prims = demo_expand"
  "hkdf256_extract demo_prims = demo_extract"
  "sha256 demo_prims = demo_sha256"
  "sha3_384 demo_prims = demo_sha3"
  "kem_generate demo_prims = demo_kem_gen"
  "kem_generate_deterministic demo_prims = demo_kem_det"
  "kem_encapsulate demo_prims = demo_encap"
  "kem_decapsulate demo_prims = demo_decap"
  "x_public demo_prims = demo_xpub"
  "x_dh demo_prims = demo_xdh"
  "dsa_verifying_key demo_prims = demo_vk"
  "dsa_sign demo_prims = demo_sign"
  "dsa_decodes demo_prims = demo_decodes"
  "dsa_verifies demo_prims = demo_verifies"
  by (simp_all add: demo_prims_def)

lemmas demo_defs =
  demo_kmac_def demo_seal_def demo_open_def demo_expand_def demo_extract_def demo_sha256_def demo_sha3_def demo_kem_gen_def
  demo_kem_det_def demo_encap_def demo_decap_def demo_xpub_def demo_xdh_def demo_vk_def demo_sign_def demo_decodes_def demo_verifies_def

lemma fold_byte_eval [eval_simps]:
  "fold_byte [] = 7" "fold_byte (b # bs) = b + of_nat (length (b # bs))"
  "fold_byte (replicate n b) = (if n = 0 then 7 else b + of_nat n)"
  by (simp_all add: fold_byte_def) (cases n; simp)

lemmas crypto_eval [eval_simps] =
  kdf_rk_def kdf_ck_def kdf_mk_def mac_kdf_def aead_seal_def aead_open_def ascii_def
  INFO_RK_def INFO_CK_def INFO_MK_def KEY_LEN_def NONCE_LEN_def demo_defs

lemma sizes_pos: "EK_LEN \<noteq> 0" "CT_LEN \<noteq> 0" "VK_LEN \<noteq> 0" "SIG_LEN \<noteq> 0"
  by (simp_all add: EK_LEN_def CT_LEN_def VK_LEN_def SIG_LEN_def)

lemma demo_prims_lawful:
  shows "kmac_sized demo_prims" and "gcm_correct demo_prims" and "kem_correct demo_prims"
    and "kem_sized demo_prims" and "x_agrees demo_prims" and "dsa_correct demo_prims"
  by (auto simp: kmac_sized_def gcm_correct_def kem_correct_def kem_sized_def kem_pair_def
      x_agrees_def dsa_correct_def demo_defs sizes_pos hd_replicate)

section \<open>Symmetric chains\<close>

text \<open>The chain key and the message-key seed of the \<open>i\<close>-th message of a chain started at \<open>c\<close>.\<close>

fun chain_at :: "prims \<Rightarrow> bytes \<Rightarrow> nat \<Rightarrow> bytes" where
  "chain_at P c 0 = c"
| "chain_at P c (Suc i) = fst (kdf_ck P (chain_at P c i))"

definition seed_at :: "prims \<Rightarrow> bytes \<Rightarrow> nat \<Rightarrow> bytes" where
  "seed_at P c i = snd (kdf_ck P (chain_at P c i))"

lemma kdf_ck_chain: "kdf_ck P (chain_at P c i) = (chain_at P c (Suc i), seed_at P c i)"
  by (simp add: seed_at_def)

section \<open>Facts the protocol layers use\<close>

lemma kdf_lengths:
  assumes "kmac_sized P"
  shows "length (fst (kdf_rk P root ikm)) = KEY_LEN" "length (snd (kdf_rk P root ikm)) = KEY_LEN"
    and "length (fst (kdf_ck P chain)) = KEY_LEN" "length (snd (kdf_ck P chain)) = KEY_LEN"
    and "length (fst (kdf_mk P seed)) = KEY_LEN" "length (snd (kdf_mk P seed)) = NONCE_LEN"
  using assms
  by (simp_all add: kdf_rk_def kdf_ck_def kdf_mk_def mac_kdf_def kmac_sized_def KEY_LEN_def NONCE_LEN_def Let_def)

lemma aead_open_seal:
  "gcm_correct P \<Longrightarrow> aead_seal P key nonce pt aad = Inr ct \<Longrightarrow> aead_open P key nonce ct aad = Inr pt"
  by (auto simp: aead_seal_def aead_open_def gcm_correct_def split: if_splits)

text \<open>With a derived key, opening either succeeds or reports the one uninformative error.\<close>

lemma aead_open_derived:
  assumes "kmac_sized P" "aead_open P (fst (kdf_mk P seed)) nonce ct aad = Inl e"
  shows "e = DecryptionFailed"
  using assms kdf_lengths(5)[OF assms(1)]
  by (auto simp: aead_open_def ok_or_def split: option.splits)

lemma verify_signed:
  "dsa_correct P \<Longrightarrow>
   id_verify P (id_public (from_secret_bytes P seed)) msg (id_sign P (from_secret_bytes P seed) msg) = Inr ()"
  by (simp add: id_verify_def from_secret_bytes_def id_sign_def dsa_correct_def)

lemma id_verify_eq_Inr:
  "id_verify P pk msg sig = Inr () \<longleftrightarrow>
   length (sig_vk pk) = VK_LEN \<and> length sig = SIG_LEN \<and> dsa_decodes P sig \<and> dsa_verifies P (sig_vk pk) msg sig"
  by (simp add: id_verify_def)

lemma id_ct_eq_iff [simp]: "id_ct_eq a b \<longleftrightarrow> a = b"
  by (auto simp: id_ct_eq_def)

end
