(* ===== verification/SenderKeys.thy ===== *)
theory SenderKeys
  imports Crypto
begin

text \<open>
  Sender-key group messaging, \<open>src/crates/crypto/src/group.rs\<close>: the sending half
  \<open>sender_key\<close>, the receiving half \<open>sender_key_receiver\<close> with its cache of skipped
  message-key seeds, and the \<open>group_session\<close> that frames them on the wire. A failed call
  keeps the effects it had before the error, so \<open>recv_open\<close> returns the new state beside
  the result. The lemmas relate a receiver to the sender's chain \<open>chain_at\<close>: in-order,
  out-of-order and replayed delivery, and what a rejected forgery leaves behind.
\<close>

section \<open>The model\<close>

record sender_key =
  sk_chain :: bytes
  sk_n :: u32

definition sender_key_new :: "bytes \<Rightarrow> sender_key \<times> bytes" where
  "sender_key_new coins = (\<lparr>sk_chain = coins, sk_n = 0\<rparr>, coins)"

definition sk_seal :: "prims \<Rightarrow> sender_key \<Rightarrow> bytes \<Rightarrow> bytes \<Rightarrow> crypto_error + ((u32 \<times> bytes) \<times> sender_key)" where
  "sk_seal P s plaintext aad =
     (let (nxt, mk_seed) = kdf_ck P (sk_chain s);
          (key, nonce) = kdf_mk P mk_seed
      in bind_result (aead_seal P key nonce plaintext aad) (\<lambda>ct.
           Inr ((sk_n s, ct), s\<lparr>sk_chain := nxt, sk_n := sk_n s + 1\<rparr>)))"

record sender_key_receiver =
  rk_chain :: bytes
  rk_n :: u32
  rk_skipped :: "(u32 \<times> bytes) list"

definition from_initial :: "bytes \<Rightarrow> sender_key_receiver" where
  "from_initial chain = \<lparr>rk_chain = chain, rk_n = 0, rk_skipped = []\<rparr>"

text \<open>The loop \<open>while idx < n\<close>: it caches one seed per index and returns the chain key at \<open>n\<close>.\<close>

function skip_to :: "prims \<Rightarrow> u32 \<Rightarrow> u32 \<Rightarrow> bytes \<Rightarrow> (u32 \<times> bytes) list \<Rightarrow> bytes \<times> (u32 \<times> bytes) list" where
  "skip_to P idx n chain skipped =
     (if idx < n then
        let (nxt, mk_seed) = kdf_ck P chain
        in skip_to P (idx + 1) n nxt (AList.update idx mk_seed skipped)
      else (chain, skipped))"
  by pat_completeness auto
termination
  by (relation "measure (\<lambda>(P, idx, n, c, s). unat n - unat idx)") (auto simp: word_count_up)

declare skip_to.simps [simp del]

definition recv_open :: "prims \<Rightarrow> sender_key_receiver \<Rightarrow> u32 \<Rightarrow> bytes \<Rightarrow> bytes \<Rightarrow>
    (crypto_error + bytes) \<times> sender_key_receiver" where
  "recv_open P r n ct aad =
     (case map_of (rk_skipped r) n of
        Some mk_seed \<Rightarrow>
          let (key, nonce) = kdf_mk P mk_seed
          in (case aead_open P key nonce ct aad of
                Inl e \<Rightarrow> (Inl e, r)
              | Inr pt \<Rightarrow> (Inr pt, r\<lparr>rk_skipped := AList.delete n (rk_skipped r)\<rparr>))
      | None \<Rightarrow>
          if n < rk_n r then (Inl DecryptionFailed, r)
          else if unat (n - rk_n r) > MAX_SKIP then (Inl (TooManySkipped MAX_SKIP), r)
          else
            let (chain, skipped) = skip_to P (rk_n r) n (rk_chain r) (rk_skipped r);
                r = r\<lparr>rk_skipped := skipped\<rparr>;
                (nxt, mk_seed) = kdf_ck P chain;
                (key, nonce) = kdf_mk P mk_seed
            in (case aead_open P key nonce ct aad of
                  Inl e \<Rightarrow> (Inl e, r)
                | Inr pt \<Rightarrow> (Inr pt, r\<lparr>rk_chain := nxt, rk_n := n + 1\<rparr>)))"

record group_session =
  gs_own :: sender_key
  gs_receivers :: "(bytes \<times> sender_key_receiver) list"

definition group_new :: "bytes \<Rightarrow> group_session \<times> bytes" where
  "group_new coins =
     (let (own, initial) = sender_key_new coins in (\<lparr>gs_own = own, gs_receivers = []\<rparr>, initial))"

definition add_member :: "group_session \<Rightarrow> bytes \<Rightarrow> bytes \<Rightarrow> group_session" where
  "add_member g member chain =
     g\<lparr>gs_receivers := AList.update member (from_initial chain) (gs_receivers g)\<rparr>"

definition aad_for :: "u32 \<Rightarrow> bytes" where
  "aad_for n = into_vec (put_u32 writer_new n)"

definition group_seal :: "prims \<Rightarrow> group_session \<Rightarrow> bytes \<Rightarrow> crypto_error + (bytes \<times> group_session)" where
  "group_seal P g plaintext =
     (let aad = aad_for (sk_n (gs_own g))
      in bind_result (sk_seal P (gs_own g) plaintext aad) (\<lambda>((n, ct), own).
           Inr (into_vec (put_bytes (put_u32 writer_new n) ct), g\<lparr>gs_own := own\<rparr>)))"

definition group_parse :: "bytes \<Rightarrow> crypto_error + (u32 \<times> bytes)" where
  "group_parse message =
     bind_result (wire (get_u32 (reader_new message))) (\<lambda>(n, r).
     bind_result (wire (get_vec r)) (\<lambda>(ct, r).
     bind_result (wire (finish r)) (\<lambda>_. Inr (n, ct))))"

definition group_open :: "prims \<Rightarrow> group_session \<Rightarrow> bytes \<Rightarrow> bytes \<Rightarrow>
    (crypto_error + bytes) \<times> group_session" where
  "group_open P g sender message =
     (case group_parse message of
        Inl e \<Rightarrow> (Inl e, g)
      | Inr (n, ct) \<Rightarrow>
          (case map_of (gs_receivers g) sender of
             None \<Rightarrow> (malformed ''unknown group sender'', g)
           | Some recv \<Rightarrow>
               let (res, recv) = recv_open P recv n ct (aad_for n)
               in (res, g\<lparr>gs_receivers := AList.update sender recv (gs_receivers g)\<rparr>)))"

definition member_count :: "group_session \<Rightarrow> nat" where
  "member_count g = length (gs_receivers g)"

section \<open>The sender's chain\<close>

text \<open>\<open>ct\<close> is what the sender's AEAD call produced for message \<open>n\<close>.\<close>

definition sealed :: "prims \<Rightarrow> bytes \<Rightarrow> u32 \<Rightarrow> bytes \<Rightarrow> bytes \<Rightarrow> bytes \<Rightarrow> bool" where
  "sealed P c n aad pt ct \<longleftrightarrow>
     (let (key, nonce) = kdf_mk P (seed_at P c (unat n)) in aead_seal P key nonce pt aad = Inr ct)"

text \<open>
  A receiver that has opened exactly the messages \<open>D\<close> of the chain started at \<open>c\<close> and
  seen no rejected one: it stands at the first index above all of them and caches the
  seeds of the gaps.
\<close>

definition in_sync :: "prims \<Rightarrow> bytes \<Rightarrow> u32 set \<Rightarrow> sender_key_receiver \<Rightarrow> bool" where
  "in_sync P c D r \<longleftrightarrow>
     rk_chain r = chain_at P c (unat (rk_n r)) \<and> (\<forall>k \<in> D. k < rk_n r) \<and>
     map_of (rk_skipped r) =
       (\<lambda>k. if k < rk_n r \<and> k \<notin> D then Some (seed_at P c (unat k)) else None)"

lemma skip_to_same [simp]: "skip_to P n n c sk = (c, sk)"
  by (subst skip_to.simps) simp

lemma skip_to_chain:
  assumes "idx \<le> n"
  shows "\<exists>sk'. skip_to P idx n (chain_at P c (unat idx)) sk = (chain_at P c (unat n), sk') \<and>
    map_of sk' = (\<lambda>k. if idx \<le> k \<and> k < n then Some (seed_at P c (unat k)) else map_of sk k)"
  using assms
proof (induction "unat n - unat idx" arbitrary: idx sk)
  case 0
  then have "idx = n" by (simp add: word_le_nat_alt word_unat_eq_iff)
  then show ?case by (simp add: fun_eq_iff not_le[symmetric])
next
  case (Suc d)
  then have lt: "idx < n" by (simp add: word_less_nat_alt)
  note u = unat_Suc_word[OF lt]
  have le: "idx + 1 \<le> n" using lt u by (simp add: word_le_nat_alt word_less_nat_alt)
  have "\<exists>sk'. skip_to P (idx + 1) n (chain_at P c (unat (idx + 1))) (AList.update idx (seed_at P c (unat idx)) sk)
          = (chain_at P c (unat n), sk') \<and>
        map_of sk' = (\<lambda>k. if idx + 1 \<le> k \<and> k < n then Some (seed_at P c (unat k))
          else map_of (AList.update idx (seed_at P c (unat idx)) sk) k)"
    using Suc.hyps(2) u le by (intro Suc.hyps(1)) auto
  moreover have "idx + 1 \<le> k \<longleftrightarrow> idx < k" for k
    using u by (simp add: word_le_nat_alt word_less_nat_alt Suc_le_eq)
  ultimately show ?case using lt u
    by (auto simp: skip_to.simps[of P idx] kdf_ck_chain fun_eq_iff update_conv' simp del: chain_at.simps)
qed

lemma recv_open_ahead:
  assumes "in_sync P c D r" "rk_n r \<le> n" "unat n \<le> unat (rk_n r) + MAX_SKIP"
  obtains sk' where "recv_open P r n ct aad =
      (let r = r\<lparr>rk_skipped := sk'\<rparr>; (key, nonce) = kdf_mk P (seed_at P c (unat n)) in
       case aead_open P key nonce ct aad of Inl e \<Rightarrow> (Inl e, r)
       | Inr pt \<Rightarrow> (Inr pt, r\<lparr>rk_chain := chain_at P c (Suc (unat n)), rk_n := n + 1\<rparr>))"
    and "map_of sk' = (\<lambda>k. if k < n \<and> k \<notin> D then Some (seed_at P c (unat k)) else None)"
proof -
  obtain sk' where sk: "skip_to P (rk_n r) n (chain_at P c (unat (rk_n r))) (rk_skipped r) = (chain_at P c (unat n), sk')"
    "map_of sk' = (\<lambda>k. if rk_n r \<le> k \<and> k < n then Some (seed_at P c (unat k)) else map_of (rk_skipped r) k)"
    using skip_to_chain[OF assms(2)] by blast
  have none: "map_of (rk_skipped r) n = None" and ch: "rk_chain r = chain_at P c (unat (rk_n r))"
    using assms(1,2) by (auto simp: in_sync_def)
  have "unat (n - rk_n r) = unat n - unat (rk_n r)"
    using assms(2) by (simp add: unat_sub word_le_nat_alt)
  then have gap: "\<not> MAX_SKIP < unat (n - rk_n r)" using assms(3) by simp
  show thesis
  proof (rule that)
    show "recv_open P r n ct aad =
      (let r = r\<lparr>rk_skipped := sk'\<rparr>; (key, nonce) = kdf_mk P (seed_at P c (unat n)) in
       case aead_open P key nonce ct aad of Inl e \<Rightarrow> (Inl e, r)
       | Inr pt \<Rightarrow> (Inr pt, r\<lparr>rk_chain := chain_at P c (Suc (unat n)), rk_n := n + 1\<rparr>))"
      using leD[OF assms(2)] gap none ch sk(1)
      by (simp add: recv_open_def kdf_ck_chain Let_def split_beta del: chain_at.simps split: sum.split)
    show "map_of sk' = (\<lambda>k. if k < n \<and> k \<notin> D then Some (seed_at P c (unat k)) else None)"
      using assms(1,2) sk(2) by (auto simp: in_sync_def fun_eq_iff)
  qed
qed

section \<open>Delivery\<close>

text \<open>
  One genuine message: it opens to its plaintext whether it is the next one, ahead of a
  gap of at most \<open>MAX_SKIP\<close> messages, or one of the gaps, and the receiver stays in step.
\<close>

lemma open_genuine:
  assumes "gcm_correct P" "in_sync P c D r" "n \<notin> D" "sealed P c n aad pt ct"
    and "unat n \<le> unat (rk_n r) + MAX_SKIP" "n < - 1"
  shows "\<exists>r'. recv_open P r n ct aad = (Inr pt, r') \<and> in_sync P c (insert n D) r'"
proof -
  obtain key nonce where kn: "kdf_mk P (seed_at P c (unat n)) = (key, nonce)" by fastforce
  then have op: "aead_open P key nonce ct aad = Inr pt"
    using assms(1,4) by (auto simp: sealed_def intro: aead_open_seal)
  note suc = unat_Suc_word[OF assms(6)] word_less_Suc[OF assms(6)]
  show ?thesis
  proof (cases "n < rk_n r")
    case True
    then have "map_of (rk_skipped r) n = Some (seed_at P c (unat n))"
      using assms(2,3) by (simp add: in_sync_def)
    then show ?thesis using assms(2) True op kn
      by (auto simp: recv_open_def in_sync_def delete_conv' fun_eq_iff)
  next
    case False
    then have le: "rk_n r \<le> n" by simp
    obtain sk' where o: "recv_open P r n ct aad =
        (Inr pt, r\<lparr>rk_skipped := sk', rk_chain := chain_at P c (Suc (unat n)), rk_n := n + 1\<rparr>)"
      and m: "map_of sk' = (\<lambda>k. if k < n \<and> k \<notin> D then Some (seed_at P c (unat k)) else None)"
      using recv_open_ahead[OF assms(2) le assms(5), of ct aad] op kn by (auto simp: Let_def)
    have "\<forall>k \<in> D. k \<le> n" using assms(2) le by (auto simp: in_sync_def)
    then show ?thesis unfolding o
      by (auto simp: in_sync_def suc m fun_eq_iff le_less simp del: chain_at.simps)
  qed
qed

lemma replay_rejected:
  assumes "in_sync P c D r" "n \<in> D"
  shows "recv_open P r n ct aad = (Inl DecryptionFailed, r)"
  using assms by (auto simp: in_sync_def recv_open_def)

lemma in_sync_initial: "in_sync P c {} (from_initial c)"
  by (simp add: in_sync_def from_initial_def fun_eq_iff)

lemma group_seal_iff:
  "group_seal P g pt = Inr (m, g') \<longleftrightarrow>
     (\<exists>ct. (let (key, nonce) = kdf_mk P (snd (kdf_ck P (sk_chain (gs_own g))))
            in aead_seal P key nonce pt (aad_for (sk_n (gs_own g))) = Inr ct) \<and>
        m = u32_be (sk_n (gs_own g)) @ bytes_enc ct \<and>
        g' = g\<lparr>gs_own := (gs_own g)\<lparr>sk_chain := fst (kdf_ck P (sk_chain (gs_own g))),
                                   sk_n := sk_n (gs_own g) + 1\<rparr>\<rparr>)"
  by (auto simp: group_seal_def sk_seal_def Let_def split_beta result_simps into_vec_def codec_simps)

lemma group_parse_message:
  assumes "length (u32_be n @ bytes_enc ct) \<le> MAX_FRAME"
  shows "group_parse (u32_be n @ bytes_enc ct) = Inr (n, ct)"
proof -
  have "frame_sized ct" "4 + length (bytes_enc ct) < usize_limit"
    using assms by (simp_all add: frame_sized_def bytes_enc_def MAX_FRAME_def usize_limit_def)
  then show ?thesis
    using u32.get_at[of "[]" n "bytes_enc ct"] get_vec_at[of ct "u32_be n" "[]"]
    by (simp add: group_parse_def codec_simps)
qed

lemma group_open_genuine:
  assumes "gcm_correct P" "map_of (gs_receivers h) who = Some r" "in_sync P c D r" "n \<notin> D"
    and "sealed P c n (aad_for n) pt ct" "unat n \<le> MAX_SKIP"
    and "length (u32_be n @ bytes_enc ct) \<le> MAX_FRAME"
  shows "\<exists>r'. group_open P h who (u32_be n @ bytes_enc ct) =
      (Inr pt, h\<lparr>gs_receivers := AList.update who r' (gs_receivers h)\<rparr>) \<and> in_sync P c (insert n D) r'"
proof -
  have "n < - 1" using assms(6) 
    unfolding word_less_nat_alt unat_minus_1_u32 MAX_SKIP_def by (rule le_less_trans) simp
  then obtain r' where "recv_open P r n ct (aad_for n) = (Inr pt, r')" "in_sync P c (insert n D) r'"
    using open_genuine[OF assms(1,3,4,5)] assms(6) by auto
  then show ?thesis using assms(2) group_parse_message[OF assms(7)] by (auto simp: group_open_def)
qed

text \<open>A batch of broadcasts by one member, and a member opening a list of frames in order.\<close>

fun group_seal_all :: "prims \<Rightarrow> group_session \<Rightarrow> bytes list \<Rightarrow> crypto_error + (bytes list \<times> group_session)" where
  "group_seal_all P g [] = Inr ([], g)"
| "group_seal_all P g (pt # pts) =
     bind_result (group_seal P g pt) (\<lambda>(m, g).
     bind_result (group_seal_all P g pts) (\<lambda>(ms, g). Inr (m # ms, g)))"

fun group_open_all :: "prims \<Rightarrow> group_session \<Rightarrow> bytes \<Rightarrow> bytes list \<Rightarrow>
    (crypto_error + bytes) list \<times> group_session" where
  "group_open_all P g who [] = ([], g)"
| "group_open_all P g who (m # ms) =
     (let (res, g) = group_open P g who m; (ress, g) = group_open_all P g who ms in (res # ress, g))"

lemma group_seal_all_nth:
  assumes "group_seal_all P g pts = Inr (ms, g')"
    and "sk_chain (gs_own g) = chain_at P c i" "sk_n (gs_own g) = of_nat i" "i + length pts \<le> 2 ^ 32"
  shows "length ms = length pts \<and> (\<forall>j < length pts. \<exists>ct. let n = of_nat (i + j) in
    ms ! j = u32_be n @ bytes_enc ct \<and> sealed P c n (aad_for n) (pts ! j) ct)"
  using assms
proof (induction pts arbitrary: g ms i)
  case (Cons pt pts)
  from Cons.prems(1) obtain m g1 ms' where m: "group_seal P g pt = Inr (m, g1)" "ms = m # ms'"
    and ms': "group_seal_all P g1 pts = Inr (ms', g')"
    by (auto simp: result_simps)
  let ?n = "of_nat i :: u32"
  have un: "unat ?n = i" using Cons.prems(4) by simp
  from m(1) Cons.prems(2,3) obtain ct where ct: "m = u32_be ?n @ bytes_enc ct" "sealed P c ?n (aad_for ?n) pt ct"
    and g1: "sk_chain (gs_own g1) = chain_at P c (Suc i)" "sk_n (gs_own g1) = of_nat (Suc i)"
    by (auto simp: group_seal_iff sealed_def un seed_at_def add.commute)
  have IH: "length ms' = length pts \<and> (\<forall>j < length pts. \<exists>ct. let n = of_nat (Suc i + j) in
    ms' ! j = u32_be n @ bytes_enc ct \<and> sealed P c n (aad_for n) (pts ! j) ct)"
    using Cons.IH[OF ms' g1] Cons.prems(4) by simp
  show ?case
  proof (intro conjI allI impI)
    show "length ms = length (pt # pts)" using IH m(2) by simp
    show "\<exists>ct. let n = of_nat (i + j) in
       ms ! j = u32_be n @ bytes_enc ct \<and> sealed P c n (aad_for n) ((pt # pts) ! j) ct"
      if "j < length (pt # pts)" for j
      using that IH m(2) ct by (cases j) (auto simp: Let_def)
  qed
qed simp

lemma group_open_all_sync:
  assumes "gcm_correct P" "map_of (gs_receivers h) who = Some r" "in_sync P c (of_nat ` D) r"
    and "distinct js" "set js \<inter> D = {}" "\<forall>j \<in> set js \<union> D. j \<le> MAX_SKIP"
    and "\<forall>j \<in> set js. \<exists>ct. ms ! j = u32_be (of_nat j) @ bytes_enc ct \<and>
           sealed P c (of_nat j) (aad_for (of_nat j)) (pts ! j) ct \<and> length (ms ! j) \<le> MAX_FRAME"
  shows "fst (group_open_all P h who (map ((!) ms) js)) = map (\<lambda>j. Inr (pts ! j)) js"
  using assms
proof (induction js arbitrary: h r D)
  case (Cons j js)
  from Cons.prems(7) obtain ct where ct: "ms ! j = u32_be (of_nat j) @ bytes_enc ct"
    "sealed P c (of_nat j) (aad_for (of_nat j)) (pts ! j) ct" "length (ms ! j) \<le> MAX_FRAME"
    by auto
  have small: "unat (of_nat k :: u32) = k" if "k \<in> set (j # js) \<union> D" for k
  proof -
    have "k \<le> 1000" using Cons.prems(6) that by (auto simp: MAX_SKIP_def)
    then show ?thesis by (intro unat_u32_of_nat) simp
  qed
  have "(of_nat j :: u32) \<notin> of_nat ` D"
    using Cons.prems(5) small by (metis UnI1 UnI2 disjoint_iff imageE list.set_intros(1))
  then obtain r' where r': "group_open P h who (ms ! j) =
      (Inr (pts ! j), h\<lparr>gs_receivers := AList.update who r' (gs_receivers h)\<rparr>)"
    "in_sync P c (of_nat ` insert j D) r'"
    using group_open_genuine[OF Cons.prems(1-3) _ ct(2)] ct small[of j] Cons.prems(6) by auto
  let ?h = "h\<lparr>gs_receivers := AList.update who r' (gs_receivers h)\<rparr>"
  have "fst (group_open_all P ?h who (map ((!) ms) js)) = map (\<lambda>j. Inr (pts ! j)) js"
    using Cons.prems r'(2) by (intro Cons.IH[of _ r' "insert j D"]) (auto simp: update_conv')
  then show ?case using r'(1) by (simp add: split_beta)
qed simp

section \<open>Properties\<close>

text \<open>
  C36. Group delivery. A member that starts its sender key from \<open>coins\<close> broadcasts any
  batch of at most \<open>MAX_SKIP\<close> messages; another member who registered the distributed
  initial chain key receives any of the frames, each at most once, in any order and with
  any of them lost: every frame opens to the plaintext that was sealed.
\<close>

theorem group_delivery:
  assumes "gcm_correct P"
    and "group_seal_all P (fst (group_new coins)) pts = Inr (ms, g')"
    and "length pts \<le> MAX_SKIP" "\<forall>m \<in> set ms. length m \<le> MAX_FRAME"
    and "distinct js" "\<forall>j \<in> set js. j < length pts"
  shows "fst (group_open_all P (add_member h who (snd (group_new coins))) who (map ((!) ms) js))
           = map (\<lambda>j. Inr (pts ! j)) js"
proof (rule group_open_all_sync[OF assms(1), where D = "{}" and c = coins and r = "from_initial coins"])
  have nth: "length ms = length pts \<and> (\<forall>j < length pts. \<exists>ct. let n = of_nat (0 + j) in
    ms ! j = u32_be n @ bytes_enc ct \<and> sealed P coins n (aad_for n) (pts ! j) ct)"
    using assms(3) by (intro group_seal_all_nth[OF assms(2)])
      (simp_all add: group_new_def sender_key_new_def MAX_SKIP_def)
  show "\<forall>j \<in> set js. \<exists>ct. ms ! j = u32_be (of_nat j) @ bytes_enc ct \<and>
     sealed P coins (of_nat j) (aad_for (of_nat j)) (pts ! j) ct \<and> length (ms ! j) \<le> MAX_FRAME"
    using nth assms(4,6) by (auto simp: Let_def)
qed (use assms in_sync_initial in
      \<open>auto simp: add_member_def group_new_def sender_key_new_def update_conv'\<close>)

theorem group_delivery_witness:
  "\<exists>ms g'. group_seal_all demo_prims (fst (group_new [5])) [[7], [8, 9]] = Inr (ms, g') \<and>
     fst (group_open_all demo_prims (add_member (fst (group_new [9])) [1] (snd (group_new [5]))) [1]
            (map ((!) ms) [1, 0])) = [Inr [8, 9], Inr [7]]"
proof -
  let ?run = "group_seal_all demo_prims (fst (group_new [5])) [[7], [8, 9]]"
  let ?ms = "[[0, 0, 0, 0, 0, 0, 0, 2, 7, 230], [0, 0, 0, 1, 0, 0, 0, 3, 8, 9, 124]]"
  have run: "?run = Inr (?ms, snd (projr ?run))"
    by (simp add: group_new_def sender_key_new_def group_seal_def sk_seal_def aad_for_def into_vec_def
        codec_simps bytes_enc_def eval_simps Let_def)
  have "fst (group_open_all demo_prims (add_member (fst (group_new [9])) [1] (snd (group_new [5]))) [1]
      (map ((!) ?ms) [1, 0])) = map (\<lambda>j. Inr ([[7], [8, 9]] ! j)) [1, 0]"
    by (rule group_delivery[OF demo_prims_lawful(2) run]) (simp_all add: MAX_SKIP_def MAX_FRAME_def)
  then show ?thesis using run by (intro exI[of _ ?ms] exI[of _ "snd (projr ?run)"]) simp
qed

text \<open>
  C11. No replay without a forgery. A receiver that has opened exactly the messages \<open>D\<close>
  of a sender, every presented frame having been genuine, refuses each of them when it is
  presented again, whatever the bytes, with the uninformative error and no change of state.
\<close>

theorem replay_refused:
  assumes "gcm_correct P" "in_sync P c D r" "n \<notin> D" "sealed P c n aad pt ct"
    and "unat n \<le> unat (rk_n r) + MAX_SKIP" "n < - 1"
  shows "fst (recv_open P r n ct aad) = Inr pt \<and>
    (let r' = snd (recv_open P r n ct aad)
     in in_sync P c (insert n D) r' \<and>
        (\<forall>k ct' aad'. k \<in> insert n D \<longrightarrow> recv_open P r' k ct' aad' = (Inl DecryptionFailed, r')))"
  using open_genuine[OF assms] replay_rejected by fastforce

theorem replay_refused_witness:
  "let r = from_initial [5]; r' = snd (recv_open demo_prims r 0 [7, 229] [1, 2])
   in recv_open demo_prims r' 0 [7, 229] [1, 2] = (Inl DecryptionFailed, r')"
proof -
  have sealed: "sealed demo_prims [5] 0 [1, 2] [7] [7, 229]" by code_simp
  show ?thesis
    using replay_refused[OF demo_prims_lawful(2) in_sync_initial _ sealed]
    by (simp add: Let_def word_less_nat_alt unat_minus_1_u32)
qed

text \<open>
  C37. A rejected forgery re-opens the door to a replay. \<open>recv_open\<close> caches the skipped
  seeds before the AEAD check and keeps them when it fails, while the chain position does
  not move. So after one rejected frame that claims the next index, the pending genuine
  message is accepted twice: first from the cache, then again from the chain.
\<close>

theorem forgery_allows_replay:
  assumes "kmac_sized P" "gcm_correct P" "in_sync P c D r" "sealed P c (rk_n r) aad pt ct" "rk_n r < - 1"
    and "gcm_decrypt P (fst (kdf_mk P (seed_at P c (Suc (unat (rk_n r))))))
           (snd (kdf_mk P (seed_at P c (Suc (unat (rk_n r)))))) forged aad' = None"
  shows "let (e, r1) = recv_open P r (rk_n r + 1) forged aad';
             (a, r2) = recv_open P r1 (rk_n r) ct aad;
             (b, r3) = recv_open P r2 (rk_n r) ct aad
         in e = Inl DecryptionFailed \<and> a = Inr pt \<and> b = Inr pt"
proof -
  let ?n = "rk_n r"
  obtain key nonce where kn: "kdf_mk P (seed_at P c (unat ?n)) = (key, nonce)" by fastforce
  then have op: "aead_open P key nonce ct aad = Inr pt"
    using assms(2,4) by (auto simp: sealed_def intro: aead_open_seal)
  note u = unat_Suc_word[OF assms(5)]
  have le: "?n \<le> ?n + 1" "unat (?n + 1) \<le> unat ?n + MAX_SKIP" "?n < ?n + 1"
    by (simp_all add: word_le_nat_alt word_less_nat_alt u MAX_SKIP_def)
  obtain sk' where o: "recv_open P r (?n + 1) forged aad' = (Inl DecryptionFailed, r\<lparr>rk_skipped := sk'\<rparr>)"
    and m: "map_of sk' = (\<lambda>k. if k < ?n + 1 \<and> k \<notin> D then Some (seed_at P c (unat k)) else None)"
    using recv_open_ahead[OF assms(3) le(1,2), of forged aad'] assms(6) kdf_lengths(5)[OF assms(1)]
    by (auto simp: u Let_def split_beta aead_open_def)
  have "map_of sk' ?n = Some (seed_at P c (unat ?n))"
    using m assms(3) le(3) by (auto simp: in_sync_def)
  moreover have "rk_chain r = chain_at P c (unat ?n)" using assms(3) by (simp add: in_sync_def)
  ultimately show ?thesis using o op kn
    by (simp add: recv_open_def delete_conv' kdf_ck_chain del: chain_at.simps)
qed

theorem forgery_allows_replay_witness:
  "let (e, r1) = recv_open demo_prims (from_initial [5]) 1 [0] [0, 0, 0, 1];
       (a, r2) = recv_open demo_prims r1 0 [7, 229] [1, 2];
       (b, r3) = recv_open demo_prims r2 0 [7, 229] [1, 2]
   in e = Inl DecryptionFailed \<and> a = Inr [7] \<and> b = Inr [7]"
proof -
  have sealed: "sealed demo_prims [5] (rk_n (from_initial [5])) [1, 2] [7] [7, 229]" by code_simp
  have none: "gcm_decrypt demo_prims (fst (kdf_mk demo_prims (seed_at demo_prims [5] 1)))
      (snd (kdf_mk demo_prims (seed_at demo_prims [5] 1))) [0] [0, 0, 0, 1] = None" by code_simp
  show ?thesis
    using forgery_allows_replay[OF demo_prims_lawful(1,2) in_sync_initial sealed, of "[0]" "[0, 0, 0, 1]"] none
    by (simp add: from_initial_def word_less_nat_alt unat_minus_1_u32)
qed

end
