(* ===== verification/MlsSchedule.thy ===== *)
theory MlsSchedule
  imports Crypto TreeMath
begin

text \<open>
  The MLS key schedule and secret tree, \<open>src/crates/crypto/src/mls\<close>: \<open>schedule.rs\<close> (the
  variable-length vectors of RFC 9420, \<open>ExpandWithLabel\<close>, the epoch secrets, \<open>RefHash\<close>),
  \<open>secret_tree.rs\<close>, \<open>sign.rs\<close> and \<open>hpke.rs\<close>. \<open>None\<close> is the panic of an \<open>expect\<close>. The
  lemmas show that the framings are injective, so different labels, contexts and lengths
  never reach a primitive as the same bytes, and that the walk of the secret tree ends at
  the requested leaf.
\<close>

section \<open>schedule.rs\<close>

definition NH :: u16 where "NH = 32"

definition put_varint :: "bytes \<Rightarrow> u64 \<Rightarrow> bytes" where
  "put_varint out v =
     (if v < push_bit 6 1 then out @ [ucast v]
      else if v < push_bit 14 1 then out @ u16_be (ucast v OR 0x4000)
      else if v < push_bit 30 1 then out @ u32_be (ucast v OR 0x80000000)
      else out @ u64_be (v OR 0xC000000000000000))"

definition put_opaque :: "bytes \<Rightarrow> bytes \<Rightarrow> bytes" where
  "put_opaque out d = put_varint out (of_nat (length d)) @ d"

definition labeled_content :: "str \<Rightarrow> bytes \<Rightarrow> bytes" where
  "labeled_content label content =
     (let b = []; b = put_opaque b (ascii ''MLS 1.0 '' @ label); b = put_opaque b content in b)"

text \<open>The KDF label that \<open>expand_with_label\<close> hands to HKDF.\<close>

definition kdf_label :: "str \<Rightarrow> bytes \<Rightarrow> u16 \<Rightarrow> bytes" where
  "kdf_label label ctx len =
     (let info = u16_be len;
          full_label = ascii ''MLS 1.0 '' @ label;
          info = put_opaque info full_label
      in put_opaque info ctx)"

definition expand_with_label :: "prims \<Rightarrow> bytes \<Rightarrow> str \<Rightarrow> bytes \<Rightarrow> u16 \<Rightarrow> bytes option" where
  "expand_with_label P secret label ctx len =
     hkdf256_expand P secret (kdf_label label ctx len) (unat len)"

definition derive_secret :: "prims \<Rightarrow> bytes \<Rightarrow> str \<Rightarrow> bytes option" where
  "derive_secret P secret label = expand_with_label P secret label [] NH"

definition kdf_extract :: "prims \<Rightarrow> bytes \<Rightarrow> bytes \<Rightarrow> bytes" where
  "kdf_extract P salt ikm = hkdf256_extract P salt ikm"

record epoch_secrets =
  es_sender_data :: bytes
  es_encryption :: bytes
  es_exporter :: bytes
  es_external :: bytes
  es_confirmation_key :: bytes
  es_membership_key :: bytes
  es_resumption_psk :: bytes
  es_epoch_authenticator :: bytes
  es_init_next :: bytes

definition epoch_key_schedule :: "prims \<Rightarrow> bytes \<Rightarrow> bytes \<Rightarrow> bytes \<Rightarrow>
    (bytes \<times> bytes \<times> epoch_secrets) option" where
  "epoch_key_schedule P joiner_secret psk_secret group_context = do {
     let prk = kdf_extract P joiner_secret psk_secret;
     welcome_secret \<leftarrow> expand_with_label P prk (ascii ''welcome'') [] NH;
     epoch_secret \<leftarrow> expand_with_label P prk (ascii ''epoch'') group_context NH;
     sender_data \<leftarrow> derive_secret P epoch_secret (ascii ''sender data'');
     encryption \<leftarrow> derive_secret P epoch_secret (ascii ''encryption'');
     exporter \<leftarrow> derive_secret P epoch_secret (ascii ''exporter'');
     external \<leftarrow> derive_secret P epoch_secret (ascii ''external'');
     confirmation_key \<leftarrow> derive_secret P epoch_secret (ascii ''confirm'');
     membership_key \<leftarrow> derive_secret P epoch_secret (ascii ''membership'');
     resumption_psk \<leftarrow> derive_secret P epoch_secret (ascii ''resumption'');
     epoch_authenticator \<leftarrow> derive_secret P epoch_secret (ascii ''authentication'');
     init_next \<leftarrow> derive_secret P epoch_secret (ascii ''init'');
     Some (welcome_secret, epoch_secret,
       \<lparr>es_sender_data = sender_data, es_encryption = encryption, es_exporter = exporter,
        es_external = external, es_confirmation_key = confirmation_key,
        es_membership_key = membership_key, es_resumption_psk = resumption_psk,
        es_epoch_authenticator = epoch_authenticator, es_init_next = init_next\<rparr>)
   }"

definition ref_hash_input :: "str \<Rightarrow> bytes \<Rightarrow> bytes" where
  "ref_hash_input label v = (let input = put_opaque [] label in put_opaque input v)"

definition ref_hash :: "prims \<Rightarrow> str \<Rightarrow> bytes \<Rightarrow> bytes" where
  "ref_hash P label v = sha256 P (ref_hash_input label v)"

section \<open>secret_tree.rs\<close>

definition NK :: u16 where "NK = 16"
definition NN :: u16 where "NN = 12"

definition derive_tree_secret :: "prims \<Rightarrow> bytes \<Rightarrow> str \<Rightarrow> u32 \<Rightarrow> u16 \<Rightarrow> bytes option" where
  "derive_tree_secret P secret label generation len =
     expand_with_label P secret label (u32_be generation) len"

text \<open>The descent loop; the array layout makes the turn a comparison of indices.\<close>

partial_function (option) leaf_secret_loop :: "prims \<Rightarrow> u32 \<Rightarrow> u32 \<Rightarrow> bytes \<Rightarrow> bytes option" where
  "leaf_secret_loop P target node secret = do {
     k \<leftarrow> level node;
     if k > 0 then
       if target < node then do {
         secret \<leftarrow> expand_with_label P secret (ascii ''tree'') (ascii ''left'') NH;
         node \<leftarrow> left node;
         leaf_secret_loop P target node secret }
       else do {
         secret \<leftarrow> expand_with_label P secret (ascii ''tree'') (ascii ''right'') NH;
         node \<leftarrow> right node;
         leaf_secret_loop P target node secret }
     else Some secret }"

definition leaf_secret :: "prims \<Rightarrow> bytes \<Rightarrow> u32 \<Rightarrow> u32 \<Rightarrow> bytes option" where
  "leaf_secret P encryption_secret n_leaves leaf =
     (if 2 * unat leaf < 2 ^ 32 then do {
        node \<leftarrow> root n_leaves;
        leaf_secret_loop P (2 * leaf) node encryption_secret }
      else None)"

record key_nonce =
  kn_key :: bytes
  kn_nonce :: bytes

text \<open>The loop \<open>for j in 0..generation\<close> of \<open>ratchet_key\<close>, from \<open>j\<close> on.\<close>

fun ratchet_loop :: "prims \<Rightarrow> bytes \<Rightarrow> nat \<Rightarrow> nat \<Rightarrow> bytes option" where
  "ratchet_loop P ratchet j 0 = Some ratchet"
| "ratchet_loop P ratchet j (Suc k) = do {
     ratchet \<leftarrow> derive_tree_secret P ratchet (ascii ''secret'') (of_nat j) NH;
     ratchet_loop P ratchet (Suc j) k
   }"

definition ratchet_key :: "prims \<Rightarrow> bytes \<Rightarrow> str \<Rightarrow> u32 \<Rightarrow> key_nonce option" where
  "ratchet_key P leaf_sec which generation = do {
     ratchet \<leftarrow> expand_with_label P leaf_sec which [] NH;
     ratchet \<leftarrow> ratchet_loop P ratchet 0 (unat generation);
     key \<leftarrow> derive_tree_secret P ratchet (ascii ''key'') generation NK;
     nonce \<leftarrow> derive_tree_secret P ratchet (ascii ''nonce'') generation NN;
     Some \<lparr>kn_key = key, kn_nonce = nonce\<rparr>
   }"

definition sender_data_key_nonce :: "prims \<Rightarrow> bytes \<Rightarrow> bytes \<Rightarrow> key_nonce option" where
  "sender_data_key_nonce P sender_data_secret ciphertext = do {
     let sample = take (min (unat NH) (length ciphertext)) ciphertext;
     key \<leftarrow> expand_with_label P sender_data_secret (ascii ''key'') sample NK;
     nonce \<leftarrow> expand_with_label P sender_data_secret (ascii ''nonce'') sample NN;
     Some \<lparr>kn_key = key, kn_nonce = nonce\<rparr>
   }"

section \<open>sign.rs and hpke.rs\<close>

record mls_signer =
  signer_seed :: bytes

definition sign_with_label :: "prims \<Rightarrow> mls_signer \<Rightarrow> str \<Rightarrow> bytes \<Rightarrow> bytes" where
  "sign_with_label P s label content =
     (let body = labeled_content label content in dsa_sign P (signer_seed s) body)"

definition signer_verifying_key :: "prims \<Rightarrow> mls_signer \<Rightarrow> bytes" where
  "signer_verifying_key P s = dsa_verifying_key P (signer_seed s)"

definition verify_with_label :: "prims \<Rightarrow> bytes \<Rightarrow> str \<Rightarrow> bytes \<Rightarrow> bytes \<Rightarrow> crypto_error + unit" where
  "verify_with_label P vk label content sig =
     (if length vk \<noteq> VK_LEN then malformed ''ml-dsa verifying key length''
      else if length sig \<noteq> SIG_LEN then malformed ''ml-dsa signature length''
      else if \<not> dsa_decodes P sig then Inl BadSignature
      else if dsa_verifies P vk (labeled_content label content) sig then Inr () else Inl BadSignature)"

definition hpke_derive :: "prims \<Rightarrow> bytes \<Rightarrow> bytes \<Rightarrow> bytes \<times> bytes" where
  "hpke_derive P ss info =
     (let okm = mac_kdf P ss info (ascii ''talkrypt-mls-hpke'') 44 in (take 32 okm, drop 32 okm))"

record hpke_key_pair =
  hpke_dk :: bytes
  hpke_public :: bytes

definition hpke_generate :: "prims \<Rightarrow> bytes \<Rightarrow> hpke_key_pair" where
  "hpke_generate P coins =
     (let (dk, ek) = kem_generate P coins in \<lparr>hpke_dk = dk, hpke_public = ek\<rparr>)"

definition encrypt_with_label :: "prims \<Rightarrow> bytes \<Rightarrow> bytes \<Rightarrow> str \<Rightarrow> bytes \<Rightarrow> bytes \<Rightarrow> crypto_error + bytes" where
  "encrypt_with_label P coins public label ctx plaintext =
     (if length public \<noteq> EK_LEN then malformed ''ml-kem encapsulation key length''
      else bind_result (ok_or (Malformed (ascii ''ml-kem encapsulation failed'')) (kem_encapsulate P public coins))
        (\<lambda>(kem_ct, ss).
          let info = labeled_content label ctx; (key, nonce) = hpke_derive P ss info
          in bind_result (aead_seal P key nonce plaintext info) (\<lambda>aead_ct.
             Inr (into_vec (put_bytes (put_bytes writer_new kem_ct) aead_ct)))))"

definition decrypt_with_label :: "prims \<Rightarrow> hpke_key_pair \<Rightarrow> str \<Rightarrow> bytes \<Rightarrow> bytes \<Rightarrow> crypto_error + bytes" where
  "decrypt_with_label P kp label ctx blob =
     bind_result (wire (get_vec (reader_new blob))) (\<lambda>(kem_ct, r).
     bind_result (wire (get_vec r)) (\<lambda>(aead_ct, r).
     bind_result (wire (finish r)) (\<lambda>_.
       if length kem_ct \<noteq> CT_LEN then malformed ''ml-kem ciphertext length''
       else bind_result (ok_or DecryptionFailed (kem_decapsulate P (hpke_dk kp) kem_ct)) (\<lambda>ss.
         let info = labeled_content label ctx; (key, nonce) = hpke_derive P ss info
         in aead_open P key nonce aead_ct info))))"

section \<open>Framings are prefix codes\<close>

text \<open>The length prefix, without the output it is appended to.\<close>

abbreviation varint :: "u64 \<Rightarrow> bytes" where
  "varint v \<equiv> put_varint [] v"

abbreviation opaque :: "bytes \<Rightarrow> bytes" where
  "opaque d \<equiv> put_opaque [] d"

lemma put_varint_append: "put_varint out v = out @ varint v"
  by (simp add: put_varint_def)

lemma put_opaque_append: "put_opaque out d = out @ opaque d"
  by (simp add: put_opaque_def put_varint_append[of out])

text \<open>Setting tag bits above the value is adding them.\<close>

lemma or_tag:
  fixes v :: u64
  assumes "unat v < 2 ^ k" "k \<le> LENGTH('a)" "unat v + unat (push_bit k t) < 2 ^ LENGTH('a)"
  shows "unat (ucast v OR push_bit k t :: 'a::len word) = unat v + unat (push_bit k t :: 'a word)"
proof -
  have "unat v < 2 ^ LENGTH('a)"
    using assms(1,2) by (meson one_le_numeral order_less_le_trans power_increasing)
  then have u: "unat (ucast v :: 'a word) = unat v"
    by (simp add: unsigned_ucast_eq take_bit_nat_eq_self_iff)
  have "(ucast v :: 'a word) AND push_bit k t = 0"
  proof (rule bit_eqI)
    show "bit ((ucast v :: 'a word) AND push_bit k t) i = bit 0 i" for i
      using no_high_bits[of "ucast v :: 'a word" k i] assms(1) u
      by (auto simp: bit_and_iff bit_push_bit_iff)
  qed
  then have "(ucast v OR push_bit k t :: 'a word) = ucast v + push_bit k t"
    by (rule disjunctive_add_eq_or[symmetric])
  then show ?thesis using u assms(3) by (simp add: unat_word_ariths)
qed

lemma varint_form:
  assumes "unat v < 2 ^ 62"
  shows "\<exists>k t. (k, t) \<in> {(1, 0), (2, 1), (4, 2), (8, 3)} \<and> unat v < 64 * 256 ^ (k - 1) \<and>
    varint v = be_bytes k (unat v + t * (64 * 256 ^ (k - 1)))"
proof -
  have or16: "unat (ucast v OR 0x4000 :: u16) = unat v + 0x4000" if "unat v < 2 ^ 14"
    using or_tag[of v 14 "1 :: u16"] that by simp
  have or32: "unat (ucast v OR 0x80000000 :: u32) = unat v + 0x80000000" if "unat v < 2 ^ 30"
    using or_tag[of v 30 "2 :: u32"] that by simp
  have or64: "unat (v OR 0xC000000000000000 :: u64) = unat v + 0xC000000000000000"
    using or_tag[of v 62 "3 :: u64"] assms by simp
  consider "unat v < 2 ^ 6" | "2 ^ 6 \<le> unat v" "unat v < 2 ^ 14"
    | "2 ^ 14 \<le> unat v" "unat v < 2 ^ 30" | "2 ^ 30 \<le> unat v" by linarith
  then show ?thesis
  proof cases
    case 1
    have "(ucast v :: byte) = of_nat (unat v)" by (simp add: of_nat_unat)
    with 1 show ?thesis
      by (intro exI[of _ 1] exI[of _ 0]) (simp add: put_varint_def word_less_nat_alt)
  next
    case 2 then show ?thesis
      by (intro exI[of _ 2] exI[of _ 1]) (simp add: put_varint_def word_less_nat_alt u16_be_def or16)
  next
    case 3 then show ?thesis
      by (intro exI[of _ 4] exI[of _ 2]) (simp add: put_varint_def word_less_nat_alt u32_be_def or32)
  next
    case 4 with assms show ?thesis
      by (intro exI[of _ 8] exI[of _ 3]) (simp add: put_varint_def word_less_nat_alt u64_be_def or64)
  qed
qed

lemma tagged_head:
  assumes "k \<noteq> 0" "n < 64 * 256 ^ (k - 1)" "t \<le> 3"
  shows "unat (hd (be_bytes k (n + t * (64 * 256 ^ (k - 1))) @ p)) div 64 = t"
    and "n + t * (64 * 256 ^ (k - 1)) < 256 ^ k"
proof -
  obtain c where k: "k = Suc c" using assms(1) by (cases k) auto
  have "n + t * (64 * 256 ^ c) = n + t * 64 * 256 ^ c" by simp
  then have q: "(n + t * (64 * 256 ^ c)) div 256 ^ c = n div 256 ^ c + t * 64"
    by (metis div_mult_self1 power_not_zero zero_neq_numeral add.commute)
  have m: "n div 256 ^ c < 64" using assms(2) k by (simp add: less_mult_imp_div_less)
  show "unat (hd (be_bytes k (n + t * (64 * 256 ^ (k - 1))) @ p)) div 64 = t"
  proof -
    have "hd (be_bytes k (n + t * (64 * 256 ^ (k - 1))) @ p) = of_nat (n div 256 ^ c + t * 64)"
      unfolding k by (simp only: be_bytes.simps append_Cons list.sel diff_Suc_1 q)
    moreover have "(n div 256 ^ c + t * 64) mod 256 = n div 256 ^ c + t * 64" using m assms(3) by simp
    ultimately show ?thesis using m by (simp only: unat_of_nat_byte)
  qed
  have "n + t * (64 * 256 ^ c) < (1 + t) * (64 * 256 ^ c)" using assms(2) k by simp
  also have "\<dots> \<le> 4 * (64 * 256 ^ c)" using assms(3) by (intro mult_right_mono) auto
  finally show "n + t * (64 * 256 ^ (k - 1)) < 256 ^ k" using k by simp
qed

interpretation vi: prefix_code "\<lambda>v. varint v" "\<lambda>v. unat v < 2 ^ 62"
proof
  fix v w p q
  assume eq: "varint v @ p = varint w @ q" and v: "unat v < 2 ^ 62" and w: "unat w < 2 ^ 62"
  let ?x = "\<lambda>(k, t) n. n + t * (64 * 256 ^ (k - 1))"
  obtain k t k' t' where kt: "(k, t) \<in> {(1, 0), (2, 1), (4, 2), (8, 3)}" "unat v < 64 * 256 ^ (k - 1)"
      "varint v = be_bytes k (?x (k, t) (unat v))"
    and kt': "(k', t') \<in> {(1, 0), (2, 1), (4, 2), (8, 3)}" "unat w < 64 * 256 ^ (k' - 1)"
      "varint w = be_bytes k' (?x (k', t') (unat w))"
    using varint_form[OF v] varint_form[OF w] by auto
  have bnd: "k \<noteq> 0" "t \<le> 3" "k' \<noteq> 0" "t' \<le> 3" using kt(1) kt'(1) by auto
  have "t = t'"
    using tagged_head(1)[OF bnd(1) kt(2) bnd(2), of p] tagged_head(1)[OF bnd(3) kt'(2) bnd(4), of q] eq kt(3) kt'(3)
    by simp
  then have k: "k = k'" using kt(1) kt'(1) by auto
  then have "be_bytes k (?x (k, t) (unat v)) = be_bytes k' (?x (k', t') (unat w))" "p = q"
    using eq kt(3) kt'(3) by simp_all
  then have "?x (k, t) (unat v) = ?x (k', t') (unat w)"
    using tagged_head(2)[OF bnd(1) kt(2) bnd(2)] tagged_head(2)[OF bnd(3) kt'(2) bnd(4)]
    by (metis be_nat_be_bytes_less old.prod.case)
  then show "v = w \<and> p = q" using \<open>t = t'\<close> k \<open>p = q\<close> by (simp add: word_unat_eq_iff)
qed

interpretation op: prefix_code "\<lambda>d. opaque d" "\<lambda>d. length d < 2 ^ 62"
proof
  fix d e p q :: bytes
  assume eq: "opaque d @ p = opaque e @ q" and d: "length d < 2 ^ 62" and e: "length e < 2 ^ 62"
  have u: "unat (of_nat n :: u64) = n" if "n < 2 ^ 62" for n
    using that by (simp add: unat_of_nat)
  have "(of_nat (length d) :: u64) = of_nat (length e) \<and> d @ p = e @ q"
    using eq u[OF d] u[OF e] d e
    by (intro vi.prefix_free) (simp_all add: put_opaque_def)
  then have "length d = length e" "d @ p = e @ q" using u[OF d] u[OF e] by metis+
  then show "d = e \<and> p = q" by simp
qed

section \<open>The walk of the secret tree\<close>

text \<open>
  The reference: one derivation per level, the bits of the leaf index from the top, a set
  bit going right.
\<close>

fun descend :: "prims \<Rightarrow> bytes \<Rightarrow> bool list \<Rightarrow> bytes option" where
  "descend P secret [] = Some secret"
| "descend P secret (b # bs) = do {
     s \<leftarrow> expand_with_label P secret (ascii ''tree'') (if b then ascii ''right'' else ascii ''left'') NH;
     descend P s bs }"

lemma turn_is_bit:
  fixes leaf j k :: nat
  assumes "leaf div 2 ^ Suc k = j"
  shows "2 * leaf < j * 2 ^ (Suc k + 1) + (2 ^ Suc k - 1) \<longleftrightarrow> \<not> odd (leaf div 2 ^ k)"
    and "leaf div 2 ^ k = 2 * j + (if odd (leaf div 2 ^ k) then 1 else 0)"
proof -
  let ?q = "leaf div 2 ^ k"
  have j: "j = ?q div 2" using assms by (metis div_mult2_eq power_Suc2)
  then show sp: "?q = 2 * j + (if odd ?q then 1 else 0)" by (simp add: minus_mod_eq_mult_div[symmetric] odd_iff_mod_2_eq_one)
  obtain e where e: "(2 :: nat) ^ k = Suc e" by (cases "(2 :: nat) ^ k") auto
  obtain r where leaf: "leaf = ?q * 2 ^ k + r" and r: "r \<le> e"
    using div_mult_mod_eq[of leaf "2 ^ k"] e by (metis less_Suc_eq_le mod_less_divisor zero_less_Suc)
  show "2 * leaf < j * 2 ^ (Suc k + 1) + (2 ^ Suc k - 1) \<longleftrightarrow> \<not> odd ?q"
  proof (cases "odd ?q")
    case True
    then have "leaf = (2 * j + 1) * 2 ^ k + r" using leaf sp by simp
    then have "2 * leaf \<ge> j * 2 ^ (Suc k + 1) + 2 ^ Suc k" by (simp add: algebra_simps)
    with True show ?thesis by simp
  next
    case False
    then have "leaf = 2 * j * 2 ^ k + r" using leaf sp by simp
    then have "2 * leaf = j * 2 ^ (Suc k + 1) + 2 * r" by (simp add: algebra_simps)
    with False r e show ?thesis by simp
  qed
qed

lemma leaf_secret_loop_at:
  assumes "in_tree d k (unat leaf div 2 ^ k) node" "d \<le> 30" "unat leaf < 2 ^ d"
  shows "leaf_secret_loop P (2 * leaf) node secret = descend P secret (map (bit leaf) (rev [0..<k]))"
  using assms
proof (induction k arbitrary: node secret)
  case 0
  then show ?case using in_tree_facts(1)[OF 0(1,2)] by (subst leaf_secret_loop.simps) simp
next
  case (Suc k)
  let ?j = "unat leaf div 2 ^ Suc k"
  note nd = in_tree_facts(1,2)[OF Suc.prems(1,2)]
  have "(2 :: nat) ^ d \<le> 2 ^ 30" using assms(2) by (intro power_increasing) auto
  then have "2 * unat leaf < 2 ^ 32" using assms(3) by simp
  then have tgt: "unat (2 * leaf) = 2 * unat leaf" by (simp add: unat_word_ariths)
  have odd: "odd (unat leaf div 2 ^ k) \<longleftrightarrow> bit leaf k"
    by (simp add: bit_unsigned_iff flip: bit_iff_odd)
  have turn: "2 * leaf < node \<longleftrightarrow> \<not> bit leaf k"
    using turn_is_bit(1)[of "unat leaf" k, OF refl] nd(2) odd unfolding word_less_nat_alt tgt by simp
  obtain l r where l: "left node = Some l" "in_tree d k (2 * ?j) l"
    and r: "right node = Some r" "in_tree d k (2 * ?j + 1) r"
    using left_in_tree[OF Suc.prems(1) _ assms(2)] right_in_tree[OF Suc.prems(1) _ assms(2)] by auto
  have q: "unat leaf div 2 ^ k = 2 * ?j + (if bit leaf k then 1 else 0)"
    using turn_is_bit(2)[of "unat leaf" k, OF refl] odd by simp
  show ?case
    by (subst leaf_secret_loop.simps)
      (use nd l r turn q Suc.IH[OF _ assms(2,3)] in \<open>auto split: bind_splits\<close>)
qed

section \<open>Properties\<close>

text \<open>
  The secret tree reaches the requested leaf. For a complete tree of \<open>2 ^ d\<close> leaves,
  the index comparisons of \<open>leaf_secret\<close> end after \<open>d\<close> steps and derive exactly along the
  binary expansion of the leaf index; no step panics unless a derivation does.
\<close>

lemma leaf_secret_descends:
  assumes "unat n_leaves = 2 ^ d" "d \<le> 30" "unat leaf < 2 ^ d"
  shows "leaf_secret P encryption_secret n_leaves leaf =
           descend P encryption_secret (map (bit leaf) (rev [0..<d]))"
proof -
  obtain r where r: "root n_leaves = Some r" "in_tree d d 0 r" using root_pow[OF assms(1,2)] by blast
  have "(2 :: nat) ^ d \<le> 2 ^ 30" using assms(2) by (intro power_increasing) auto
  then have "2 * unat leaf < 2 ^ 32" using assms(3) by simp
  then show ?thesis
    using r leaf_secret_loop_at[of d d leaf r P encryption_secret] assms by (simp add: leaf_secret_def)
qed

lemma leaf_secret_descends_witness:
  "leaf_secret demo_prims [1, 2, 3] 8 5 = descend demo_prims [1, 2, 3] [True, False, True]"
proof -
  have "map (bit (5 :: u32)) (rev [0..<3]) = [True, False, True]" by code_simp
  then show ?thesis using leaf_secret_descends[of 8 3 5 demo_prims "[1, 2, 3]"] by simp
qed

text \<open>
  C38. Domain separation of the MLS framings. Two KDF labels are the same bytes only for the
  same label, context and length; likewise for the body that is signed or encrypted with a
  label and for the input of \<open>RefHash\<close>. The bound is the largest vector the variable-length
  prefix can carry.
\<close>

theorem mls_framings_injective:
  assumes "length l + 8 < 2 ^ 62" "length l' + 8 < 2 ^ 62" "length c < 2 ^ 62" "length c' < 2 ^ 62"
  shows "(kdf_label l c n = kdf_label l' c' n' \<longleftrightarrow> l = l' \<and> c = c' \<and> n = n') \<and>
    (labeled_content l c = labeled_content l' c' \<longleftrightarrow> l = l' \<and> c = c') \<and>
    (ref_hash_input l c = ref_hash_input l' c' \<longleftrightarrow> l = l' \<and> c = c')"
proof -
  have mls: "length (ascii ''MLS 1.0 '' @ l) < 2 ^ 62" "length (ascii ''MLS 1.0 '' @ l') < 2 ^ 62"
    using assms by (simp_all add: ascii_def)
  have n: "u16_be n = u16_be n' \<longleftrightarrow> n = n'" by (metis u16_from_be_be)
  have "kdf_label l c n = kdf_label l' c' n' \<longleftrightarrow> l = l' \<and> c = c' \<and> n = n'"
    using op.enc_append_iff[OF mls] op.enc_eq_iff[OF assms(3,4)] n
    by (auto simp: kdf_label_def put_opaque_append[of "u16_be _"] put_opaque_append[of "_ @ _"])
  moreover have "labeled_content l c = labeled_content l' c' \<longleftrightarrow> l = l' \<and> c = c'"
    using op.enc_append_iff[OF mls] op.enc_eq_iff[OF assms(3,4)]
    by (simp add: labeled_content_def put_opaque_append[of "opaque _"])
  moreover have "ref_hash_input l c = ref_hash_input l' c' \<longleftrightarrow> l = l' \<and> c = c'"
    using op.enc_append_iff[of l l' "opaque c" "opaque c'"] op.enc_eq_iff[OF assms(3,4)] assms(1,2)
    by (simp add: ref_hash_input_def put_opaque_append[of "opaque _"])
  ultimately show ?thesis by blast
qed

theorem mls_framings_injective_witness:
  "kdf_label (ascii ''key'') [] 16 \<noteq> kdf_label (ascii ''nonce'') [] 16"
  using mls_framings_injective[of "ascii ''key''" "ascii ''nonce''" "[]" "[]" 16 16]
  by (simp add: ascii_def)

text \<open>
  \<open>DecryptWithLabel\<close> inverts \<open>EncryptWithLabel\<close>: what was encrypted to a generated key
  under a label and a context is what the key's owner reads under the same ones.
\<close>

lemma decrypt_encrypt_with_label:
  assumes "kem_correct P" "kem_sized P" "gcm_correct P"
    and "encrypt_with_label P coins (hpke_public (hpke_generate P seed)) label ctx pt = Inr blob"
    and "length blob \<le> MAX_FRAME"
  shows "decrypt_with_label P (hpke_generate P seed) label ctx blob = Inr pt"
proof -
  obtain dk ek where gen: "kem_generate P seed = (dk, ek)" by fastforce
  let ?info = "labeled_content label ctx"
  obtain kem_ct ss ct where enc: "kem_encapsulate P ek coins = Some (kem_ct, ss)"
    and seal: "aead_seal P (fst (hpke_derive P ss ?info)) (snd (hpke_derive P ss ?info)) pt ?info = Inr ct"
    and blob: "blob = bytes_enc kem_ct @ bytes_enc ct"
    using assms(4) gen
    by (auto simp: encrypt_with_label_def hpke_generate_def result_simps Let_def split_beta
        into_vec_def codec_simps split: if_splits)
  have pair: "kem_pair P dk ek" using gen by (auto simp: kem_pair_def)
  then have dec: "kem_decapsulate P dk kem_ct = Some ss" and len: "length kem_ct = CT_LEN"
    using assms(1,2) enc by (auto simp: kem_correct_def kem_sized_def)
  have sz: "frame_sized kem_ct" "frame_sized ct" "length (bytes_enc kem_ct) + length (bytes_enc ct) < usize_limit"
    using assms(5) blob by (simp_all add: frame_sized_def bytes_enc_def MAX_FRAME_def usize_limit_def)
  show ?thesis
    using get_vec_at[of kem_ct "[]" "bytes_enc ct"] get_vec_at[of ct "bytes_enc kem_ct" "[]"] sz dec len gen
      aead_open_seal[OF assms(3) seal]
    by (simp add: decrypt_with_label_def hpke_generate_def blob codec_simps Let_def split_beta)
qed

lemma decrypt_encrypt_with_label_witness:
  "\<exists>blob. encrypt_with_label demo_prims [3] (hpke_public (hpke_generate demo_prims [4])) (ascii ''w'') [1] [7, 8]
      = Inr blob \<and>
    decrypt_with_label demo_prims (hpke_generate demo_prims [4]) (ascii ''w'') [1] blob = Inr [7, 8]"
proof -
  have "\<exists>blob. encrypt_with_label demo_prims [3] (hpke_public (hpke_generate demo_prims [4])) (ascii ''w'') [1] [7, 8]
      = Inr blob \<and> length blob \<le> MAX_FRAME"
    by (simp add: encrypt_with_label_def hpke_generate_def hpke_derive_def mac_kdf_def demo_defs aead_seal_def
        KEY_LEN_def into_vec_def codec_simps bytes_enc_def MAX_FRAME_def CT_LEN_def Let_def)
  then show ?thesis using decrypt_encrypt_with_label[OF demo_prims_lawful(3,4,2)] by blast
qed

end
