(* ===== verification/RatchetKey.thy ===== *)
theory RatchetKey
  imports Crypto
begin

unbundle bit_operations_syntax

text \<open>
  The asymmetric ratchet key with its selectable profile, \<open>src/crates/crypto/src/hybrid.rs\<close>:
  generation from explicit coins, deterministic derivation, the sender and receiver steps
  that combine ML-KEM with (under the hybrid posture) X25519, and the wire encoding.
  \<open>None\<close> is the abort of a failed pairwise-consistency test. The lemmas: both ends of a
  step derive the same keying material, the encoding round-trips for the profile, and a
  padded PQ-pure key has the length of a hybrid one.
\<close>

section \<open>Profiles\<close>

datatype kem_posture = Hybrid | PqPure

definition posture_tag :: "kem_posture \<Rightarrow> byte" where
  "posture_tag p = (case p of Hybrid \<Rightarrow> 0 | PqPure \<Rightarrow> 1)"

definition posture_from_tag :: "byte \<Rightarrow> crypto_error + kem_posture" where
  "posture_from_tag t =
     (if t = 0 then Inr Hybrid else if t = 1 then Inr PqPure else malformed ''kem posture tag'')"

definition has_ec :: "kem_posture \<Rightarrow> bool" where
  "has_ec p \<longleftrightarrow> (case p of Hybrid \<Rightarrow> True | _ \<Rightarrow> False)"

record kem_profile =
  posture :: kem_posture
  pad_pure :: bool

definition PAD_LEN :: nat where "PAD_LEN = 32"

definition SS_LEN :: nat where "SS_LEN = 32"

definition profile_hybrid :: kem_profile where
  "profile_hybrid = \<lparr>posture = Hybrid, pad_pure = False\<rparr>"

definition profile_pq_pure :: kem_profile where
  "profile_pq_pure = \<lparr>posture = PqPure, pad_pure = True\<rparr>"

definition profile_pq_pure_compact :: kem_profile where
  "profile_pq_pure_compact = \<lparr>posture = PqPure, pad_pure = False\<rparr>"

section \<open>Keys\<close>

record ratchet_secret =
  rs_profile :: kem_profile
  rs_x :: "bytes option"
  rs_kem_dk :: bytes

record ratchet_public =
  rp_profile :: kem_profile
  rp_x_pub :: "bytes option"
  rp_pad :: "bytes option"
  rp_kem_ek :: bytes

definition to_32 :: "bytes \<Rightarrow> bytes" where
  "to_32 b = take 32 b"

definition try_to_32 :: "bytes \<Rightarrow> crypto_error + bytes" where
  "try_to_32 b =
     (if length b = 32 then Inr b else malformed ''ratchet public x25519/pad length'')"

definition shape_like_x25519_public :: "bytes \<Rightarrow> bytes" where
  "shape_like_x25519_public p = p[PAD_LEN - 1 := p ! (PAD_LEN - 1) AND 0x7f]"

definition encapsulate :: "prims \<Rightarrow> bytes \<Rightarrow> ratchet_public \<Rightarrow> crypto_error + (bytes \<times> bytes)" where
  "encapsulate P coins pk =
     (if length (rp_kem_ek pk) \<noteq> EK_LEN then malformed ''ml-kem encapsulation key length''
      else bind_result (ok_or (Malformed (ascii ''ml-kem encapsulation failed''))
                          (kem_encapsulate P (rp_kem_ek pk) coins))
             (\<lambda>(ct, ss). Inr (ct, to_32 ss)))"

definition decapsulate :: "prims \<Rightarrow> ratchet_secret \<Rightarrow> bytes \<Rightarrow> crypto_error + bytes" where
  "decapsulate P sk ct =
     (if length ct \<noteq> CT_LEN then malformed ''ml-kem ciphertext length''
      else bind_result (ok_or DecryptionFailed (kem_decapsulate P (rs_kem_dk sk) ct))
             (\<lambda>ss. Inr (to_32 ss)))"

definition dh :: "prims \<Rightarrow> ratchet_secret \<Rightarrow> bytes \<Rightarrow> crypto_error + bytes" where
  "dh P sk peer_x_pub =
     bind_result (ok_or (Malformed (ascii ''dh requested on a PQ-pure key'')) (rs_x sk))
       (\<lambda>x. Inr (x_dh P x peer_x_pub))"

definition combine_ikm :: "prims \<Rightarrow> ratchet_secret \<Rightarrow> ratchet_public \<Rightarrow> bytes \<Rightarrow> crypto_error + bytes" where
  "combine_ikm P sk peer kem_ss =
     (case posture (rs_profile sk) of
        Hybrid \<Rightarrow>
          bind_result (ok_or (Malformed (ascii ''hybrid step against PQ-pure peer'')) (rp_x_pub peer))
            (\<lambda>peer_x. bind_result (dh P sk peer_x) (\<lambda>d. Inr (d @ kem_ss)))
      | PqPure \<Rightarrow> Inr kem_ss)"

definition step_to :: "prims \<Rightarrow> bytes \<Rightarrow> ratchet_secret \<Rightarrow> ratchet_public \<Rightarrow> crypto_error + (bytes \<times> bytes)" where
  "step_to P coins sk peer =
     bind_result (encapsulate P coins peer) (\<lambda>(ct, kem_ss).
     bind_result (combine_ikm P sk peer kem_ss) (\<lambda>ikm. Inr (ct, ikm)))"

definition step_from :: "prims \<Rightarrow> ratchet_secret \<Rightarrow> ratchet_public \<Rightarrow> bytes \<Rightarrow> crypto_error + bytes" where
  "step_from P sk peer_pub ct =
     bind_result (decapsulate P sk ct) (\<lambda>kem_ss. combine_ikm P sk peer_pub kem_ss)"

text \<open>The FIPS pairwise-consistency test of a fresh pair: \<open>False\<close> aborts the process.\<close>

definition pairwise_consistent :: "prims \<Rightarrow> bytes \<Rightarrow> ratchet_secret \<Rightarrow> ratchet_public \<Rightarrow> bool" where
  "pairwise_consistent P coins sk pk =
     (case bind_result (encapsulate P coins pk) (\<lambda>(ct, ss_enc).
             bind_result (decapsulate P sk ct) (\<lambda>ss_dec. Inr (ss_enc = ss_dec))) of
        Inl e \<Rightarrow> False
      | Inr agree \<Rightarrow> agree)"

text \<open>The coins of a generation: for the KEM, for the X25519 key or the filler, for the self-test.\<close>

record gen_coins =
  gc_kem :: bytes
  gc_x :: bytes
  gc_pct :: bytes

definition rk_generate :: "prims \<Rightarrow> gen_coins \<Rightarrow> kem_profile \<Rightarrow> (ratchet_secret \<times> ratchet_public) option" where
  "rk_generate P c profile =
     (let (kem_dk, kem_ek) = kem_generate P (gc_kem c);
          (x, x_pub, pad) =
            (case posture profile of
               Hybrid \<Rightarrow> (Some (gc_x c), Some (x_public P (gc_x c)), None)
             | PqPure \<Rightarrow>
                 (None, None,
                  if pad_pure profile then Some (shape_like_x25519_public (gc_x c)) else None));
          public = \<lparr>rp_profile = profile, rp_x_pub = x_pub, rp_pad = pad, rp_kem_ek = kem_ek\<rparr>;
          secret = \<lparr>rs_profile = profile, rs_x = x, rs_kem_dk = kem_dk\<rparr>
      in if pairwise_consistent P (gc_pct c) secret public then Some (secret, public) else None)"

definition derive_deterministic :: "prims \<Rightarrow> bytes \<Rightarrow> kem_profile \<Rightarrow> bytes \<Rightarrow> (ratchet_secret \<times> ratchet_public) option" where
  "derive_deterministic P pct_coins profile seed =
     (let (secret, public) =
        (case posture profile of
           Hybrid \<Rightarrow>
             let okm = mac_kdf P seed [] (ascii ''talkrypt-treekem-node'') 96;
                 x = take 32 okm;
                 d = take 32 (drop 32 okm);
                 z = take 32 (drop 64 okm);
                 (kem_dk, kem_ek) = kem_generate_deterministic P d z
             in (\<lparr>rs_profile = profile, rs_x = Some x, rs_kem_dk = kem_dk\<rparr>,
                 \<lparr>rp_profile = profile, rp_x_pub = Some (x_public P x), rp_pad = None, rp_kem_ek = kem_ek\<rparr>)
         | PqPure \<Rightarrow>
             let okm = mac_kdf P seed [] (ascii ''talkrypt-treekem-node-pq'') 96;
                 pad = (if pad_pure profile then Some (shape_like_x25519_public (take 32 okm)) else None);
                 d = take 32 (drop 32 okm);
                 z = take 32 (drop 64 okm);
                 (kem_dk, kem_ek) = kem_generate_deterministic P d z
             in (\<lparr>rs_profile = profile, rs_x = None, rs_kem_dk = kem_dk\<rparr>,
                 \<lparr>rp_profile = profile, rp_x_pub = None, rp_pad = pad, rp_kem_ek = kem_ek\<rparr>))
      in if pairwise_consistent P pct_coins secret public then Some (secret, public) else None)"

definition rp_encode :: "ratchet_public \<Rightarrow> bytes" where
  "rp_encode pk =
     (let w = writer_new;
          w = (case rp_x_pub pk of
                 Some xp \<Rightarrow> put_bytes w xp
               | None \<Rightarrow> (case rp_pad pk of Some p \<Rightarrow> put_bytes w p | None \<Rightarrow> w));
          w = put_bytes w (rp_kem_ek pk)
      in into_vec w)"

text \<open>There is no \<open>finish\<close>: bytes behind the key are ignored.\<close>

definition rp_decode :: "kem_profile \<Rightarrow> bytes \<Rightarrow> crypto_error + ratchet_public" where
  "rp_decode profile bs =
     (let r = reader_new bs
      in bind_result
           (case posture profile of
              Hybrid \<Rightarrow>
                bind_result (wire (get_bytes r)) (\<lambda>(b, r).
                bind_result (try_to_32 b) (\<lambda>x. Inr (Some x, None, r)))
            | PqPure \<Rightarrow>
                if pad_pure profile then
                  bind_result (wire (get_bytes r)) (\<lambda>(b, r).
                  bind_result (try_to_32 b) (\<lambda>p. Inr (None, Some p, r)))
                else Inr (None, None, r))
           (\<lambda>(x_pub, pad, r).
              bind_result (wire (get_vec r)) (\<lambda>(kem_ek, r).
                Inr \<lparr>rp_profile = profile, rp_x_pub = x_pub, rp_pad = pad, rp_kem_ek = kem_ek\<rparr>)))"

section \<open>Well-formed keys\<close>

text \<open>The shape the type and the constructors give a public key of a profile.\<close>

definition pub_ok :: "ratchet_public \<Rightarrow> bool" where
  "pub_ok pk \<longleftrightarrow>
     (case posture (rp_profile pk) of
        Hybrid \<Rightarrow> rp_pad pk = None \<and> (\<exists>x. rp_x_pub pk = Some x \<and> length x = 32)
      | PqPure \<Rightarrow> rp_x_pub pk = None \<and>
          (if pad_pure (rp_profile pk) then \<exists>p. rp_pad pk = Some p \<and> length p = 32
           else rp_pad pk = None)) \<and>
     length (rp_kem_ek pk) = EK_LEN"

text \<open>A matching pair: what one generation returned.\<close>

definition key_pair :: "prims \<Rightarrow> ratchet_secret \<Rightarrow> ratchet_public \<Rightarrow> bool" where
  "key_pair P sk pk \<longleftrightarrow>
     rs_profile sk = rp_profile pk \<and> kem_pair P (rs_kem_dk sk) (rp_kem_ek pk) \<and> pub_ok pk \<and>
     (posture (rs_profile sk) = Hybrid \<longrightarrow>
        (\<exists>x. rs_x sk = Some x \<and> rp_x_pub pk = Some (x_public P x)))"

lemma rk_generate_pair:
  assumes "kem_sized P" "x_agrees P" "length (gc_x c) = 32"
    and "rk_generate P c profile = Some (sk, pk)"
  shows "key_pair P sk pk" and "rp_profile pk = profile"
proof -
  obtain dk ek where gen: "kem_generate P (gc_kem c) = (dk, ek)" by fastforce
  then have "kem_pair P dk ek" by (auto simp: kem_pair_def)
  moreover from this have "length ek = EK_LEN" using assms(1) by (auto simp: kem_sized_def)
  moreover have "length (x_public P (gc_x c)) = 32" using assms(2) by (simp add: x_agrees_def)
  ultimately show "key_pair P sk pk" "rp_profile pk = profile"
    using assms(3,4) gen
    by (auto simp: rk_generate_def Let_def key_pair_def pub_ok_def shape_like_x25519_public_def
        split: kem_posture.splits if_splits)
qed

text \<open>The self-test never aborts on a correct KEM: a generation or derivation succeeds.\<close>

lemma pairwise_consistent_pair:
  assumes "kem_correct P" "kem_sized P" "kem_pair P (rs_kem_dk sk) (rp_kem_ek pk)"
    and "kem_encapsulate P (rp_kem_ek pk) coins \<noteq> None"
  shows "pairwise_consistent P coins sk pk"
  using assms
  by (auto simp: pairwise_consistent_def encapsulate_def decapsulate_def kem_correct_def kem_sized_def)

lemma step_agrees:
  assumes "kem_correct P" "kem_sized P" "x_agrees P"
    and "key_pair P sk pk" "key_pair P sk' pk'" "rp_profile pk = rp_profile pk'"
    and "step_to P coins sk pk' = Inr (ct, ikm)"
  shows "step_from P sk' pk ct = Inr ikm" and "length ct = CT_LEN"
proof -
  obtain ss where enc: "kem_encapsulate P (rp_kem_ek pk') coins = Some (ct, ss)"
    and ikm: "combine_ikm P sk pk' (to_32 ss) = Inr ikm"
    using assms(7) by (auto simp: step_to_def encapsulate_def result_simps split: if_splits)
  show ct: "length ct = CT_LEN" using assms(2) enc by (auto simp: kem_sized_def)
  have "kem_decapsulate P (rs_kem_dk sk') ct = Some ss"
    using assms(1,5) enc by (auto simp: kem_correct_def key_pair_def)
  then have "decapsulate P sk' ct = Inr (to_32 ss)" using ct by (simp add: decapsulate_def)
  moreover have "combine_ikm P sk' pk (to_32 ss) = combine_ikm P sk pk' (to_32 ss)"
    using assms(3-6) by (auto simp: combine_ikm_def dh_def key_pair_def x_agrees_def split: kem_posture.splits)
  ultimately show "step_from P sk' pk ct = Inr ikm" using ikm by (simp add: step_from_def)
qed

lemma ek_ct_frame_sized: "length d = EK_LEN \<Longrightarrow> frame_sized d" "length d = CT_LEN \<Longrightarrow> frame_sized d"
  "length d = 32 \<Longrightarrow> frame_sized d"
  by (simp_all add: frame_sized_def EK_LEN_def CT_LEN_def MAX_FRAME_def)

lemma rp_encode_bytes:
  assumes "pub_ok pk"
  shows "rp_encode pk =
    (case rp_x_pub pk of Some x \<Rightarrow> bytes_enc x
     | None \<Rightarrow> (case rp_pad pk of Some p \<Rightarrow> bytes_enc p | None \<Rightarrow> [])) @ bytes_enc (rp_kem_ek pk)"
  by (auto simp: rp_encode_def into_vec_def codec_simps split: option.splits)

lemma length_rp_encode:
  assumes "pub_ok pk"
  shows "length (rp_encode pk) =
    (if posture (rp_profile pk) = PqPure \<and> \<not> pad_pure (rp_profile pk) then 0 else 36) + 4 + EK_LEN"
  using assms unfolding rp_encode_bytes[OF assms]
  by (auto simp: pub_ok_def bytes_enc_def split: kem_posture.splits if_splits)

lemma rp_decode_encode:
  assumes "pub_ok pk"
  shows "rp_decode (rp_profile pk) (rp_encode pk) = Inr pk"
proof -
  have len: "length (rp_encode pk) < usize_limit"
    using length_rp_encode[OF assms] by (auto simp: EK_LEN_def usize_limit_def)
  have ek: "frame_sized (rp_kem_ek pk)" using assms by (auto simp: pub_ok_def ek_ct_frame_sized)
  show ?thesis
    using assms len ek unfolding rp_encode_bytes[OF assms]
    by (auto simp: rp_decode_def pub_ok_def codec_simps lp.get_at try_to_32_def ek_ct_frame_sized
        get_vec_at[where q = "[]", simplified] split: kem_posture.splits if_splits)
qed

section \<open>Properties\<close>

text \<open>
  Both ends of an asymmetric step agree. For two generated keys of one profile, hybrid
  or PQ-pure, the input keying material the sender combines while encapsulating to the
  peer's key is what the peer combines from the sender's public key and the ciphertext.
\<close>

lemma asymmetric_step_agrees:
  assumes "kem_correct P" "kem_sized P" "x_agrees P" "length (gc_x c) = 32" "length (gc_x c') = 32"
    and "rk_generate P c profile = Some (sk, pk)" "rk_generate P c' profile = Some (sk', pk')"
    and "step_to P coins sk pk' = Inr (ct, ikm)"
  shows "step_from P sk' pk ct = Inr ikm"
  using step_agrees(1)[OF assms(1-3) _ _ _ assms(8)]
    rk_generate_pair[OF assms(2,3,4,6)] rk_generate_pair[OF assms(2,3,5,7)] by simp

abbreviation demo_coins :: "byte \<Rightarrow> gen_coins" where
  "demo_coins b \<equiv> \<lparr>gc_kem = [b], gc_x = replicate 32 b, gc_pct = []\<rparr>"

lemma rk_generate_succeeds:
  assumes "kem_correct P" "kem_sized P" "\<forall>ek. kem_encapsulate P ek (gc_pct c) \<noteq> None"
  shows "\<exists>sk pk. rk_generate P c profile = Some (sk, pk)"
proof -
  obtain dk ek where gen: "kem_generate P (gc_kem c) = (dk, ek)" by fastforce
  then have "kem_pair P dk ek" by (auto simp: kem_pair_def)
  then have "pairwise_consistent P (gc_pct c) sk pk" if "rs_kem_dk sk = dk" "rp_kem_ek pk = ek" for sk pk
    using pairwise_consistent_pair[OF assms(1,2)] assms(3) that by blast
  then show ?thesis using gen by (simp add: rk_generate_def Let_def split: kem_posture.split)
qed

lemma asymmetric_step_agrees_witness:
  "\<exists>sk pk sk' pk' ct ikm.
     rk_generate demo_prims (demo_coins 1) profile_hybrid = Some (sk, pk) \<and>
     rk_generate demo_prims (demo_coins 2) profile_hybrid = Some (sk', pk') \<and>
     step_to demo_prims [9] sk pk' = Inr (ct, ikm) \<and> step_from demo_prims sk' pk ct = Inr ikm"
proof -
  note d = demo_prims_lawful
  have enc: "\<forall>ek c. kem_encapsulate demo_prims ek c \<noteq> None" by (simp add: demo_encap_def)
  obtain sk pk sk' pk' where g: "rk_generate demo_prims (demo_coins 1) profile_hybrid = Some (sk, pk)"
    "rk_generate demo_prims (demo_coins 2) profile_hybrid = Some (sk', pk')"
    using rk_generate_succeeds[OF d(3,4), of "demo_coins 1"] rk_generate_succeeds[OF d(3,4), of "demo_coins 2"] enc
    by metis
  have k: "key_pair demo_prims sk pk" "key_pair demo_prims sk' pk'" "rp_profile pk = profile_hybrid"
      "rp_profile pk' = profile_hybrid"
    using rk_generate_pair[OF d(4,5) _ g(1)] rk_generate_pair[OF d(4,5) _ g(2)] by simp_all
  then obtain ct ikm where st: "step_to demo_prims [9] sk pk' = Inr (ct, ikm)"
    using enc by (auto simp: step_to_def encapsulate_def key_pair_def pub_ok_def profile_hybrid_def combine_ikm_def
        dh_def demo_encap_def)
  show ?thesis using g st asymmetric_step_agrees[OF d(3,4,5) _ _ g st] by auto
qed

text \<open>
  The wire form of a generated public key decodes, under the session's profile, to the
  key; and a padded PQ-pure key is as long on the wire as a hybrid one, so frame sizes do
  not reveal the posture.
\<close>

lemma public_key_wire_form:
  assumes "kem_sized P" "x_agrees P" "length (gc_x c) = 32" "length (gc_x c') = 32"
    and "rk_generate P c profile = Some (sk, pk)"
    and "rk_generate P c' profile_hybrid = Some (sk', pk')"
  shows "rp_decode profile (rp_encode pk) = Inr pk \<and>
    (profile = profile_pq_pure \<longrightarrow> length (rp_encode pk) = length (rp_encode pk'))"
proof -
  note a = rk_generate_pair[OF assms(1,2,3,5)] and b = rk_generate_pair[OF assms(1,2,4,6)]
  have ok: "pub_ok pk" "pub_ok pk'" using a(1) b(1) by (simp_all add: key_pair_def)
  show ?thesis
    using rp_decode_encode[OF ok(1)] length_rp_encode[OF ok(1)] length_rp_encode[OF ok(2)] a(2) b(2)
    by (simp add: profile_pq_pure_def profile_hybrid_def)
qed

lemma public_key_wire_form_witness:
  "\<exists>sk pk. rk_generate demo_prims (demo_coins 1) profile_pq_pure = Some (sk, pk) \<and>
     rp_decode profile_pq_pure (rp_encode pk) = Inr pk"
proof -
  note d = demo_prims_lawful
  have enc: "\<forall>ek c. kem_encapsulate demo_prims ek c \<noteq> None" by (simp add: demo_encap_def)
  obtain sk pk sk' pk' where g: "rk_generate demo_prims (demo_coins 1) profile_pq_pure = Some (sk, pk)"
    "rk_generate demo_prims (demo_coins 2) profile_hybrid = Some (sk', pk')"
    using rk_generate_succeeds[OF d(3,4), of "demo_coins 1"] rk_generate_succeeds[OF d(3,4), of "demo_coins 2"] enc
    by metis
  show ?thesis using g public_key_wire_form[OF d(4,5) _ _ g] by auto
qed

end
