(* ===== verification/Ratchet.thy ===== *)
theory Ratchet
  imports RatchetKey
begin

text \<open>
  The post-quantum Double Ratchet, \<open>src/crates/crypto/src/ratchet.rs\<close>: the message header
  and its codec, the session with its sending and receiving halves and the cache of skipped
  message-key seeds, encryption with the sending-side asymmetric step, and decryption,
  which runs on a copy and commits on success. \<open>encrypt\<close> returns \<open>None\<close> for a panic (a
  failed self-test of a fresh key, an \<open>expect\<close>) and otherwise the result beside the new
  state, since an error after the asymmetric step keeps that step.
\<close>

section \<open>Header\<close>

record header =
  ratchet_pub :: ratchet_public
  hd_ct :: bytes
  hd_pn :: u32
  hd_n :: u32

definition header_encode :: "header \<Rightarrow> bytes" where
  "header_encode h =
     (let w = writer_new;
          w = put_bytes w (rp_encode (ratchet_pub h));
          w = put_bytes w (hd_ct h);
          w = put_u32 w (hd_pn h);
          w = put_u32 w (hd_n h)
      in into_vec w)"

definition header_decode :: "kem_profile \<Rightarrow> bytes \<Rightarrow> crypto_error + header" where
  "header_decode profile bs =
     bind_result (wire (get_bytes (reader_new bs))) (\<lambda>(pk, r).
     bind_result (rp_decode profile pk) (\<lambda>rpub.
     bind_result (wire (get_vec r)) (\<lambda>(ct, r).
     bind_result (wire (get_u32 r)) (\<lambda>(pn, r).
     bind_result (wire (get_u32 r)) (\<lambda>(n, r).
     bind_result (wire (finish r)) (\<lambda>_.
       Inr \<lparr>ratchet_pub = rpub, hd_ct = ct, hd_pn = pn, hd_n = n\<rparr>))))))"

section \<open>Session\<close>

record session =
  profile :: kem_profile
  ss_root :: bytes
  self_ratchet :: "ratchet_secret option"
  self_ratchet_pub :: "ratchet_public option"
  self_send_ct :: bytes
  send_ck :: "bytes option"
  send_n :: u32
  prev_send_n :: u32
  peer_ratchet :: "ratchet_public option"
  recv_ck :: "bytes option"
  recv_n :: u32
  need_send_ratchet :: bool
  skipped :: "((bytes \<times> u32) \<times> bytes) list"

definition initiator :: "bytes \<Rightarrow> ratchet_public \<Rightarrow> session" where
  "initiator root0 peer_prekey =
     \<lparr>profile = rp_profile peer_prekey, ss_root = root0, self_ratchet = None, self_ratchet_pub = None,
      self_send_ct = [], send_ck = None, send_n = 0, prev_send_n = 0, peer_ratchet = Some peer_prekey,
      recv_ck = None, recv_n = 0, need_send_ratchet = True, skipped = []\<rparr>"

definition responder :: "bytes \<Rightarrow> ratchet_secret \<Rightarrow> ratchet_public \<Rightarrow> session" where
  "responder root0 prekey_secret prekey_public =
     \<lparr>profile = rs_profile prekey_secret, ss_root = root0, self_ratchet = Some prekey_secret,
      self_ratchet_pub = Some prekey_public, self_send_ct = [], send_ck = None, send_n = 0,
      prev_send_n = 0, peer_ratchet = None, recv_ck = None, recv_n = 0, need_send_ratchet = False,
      skipped = []\<rparr>"

definition can_send :: "session \<Rightarrow> bool" where
  "can_send s \<longleftrightarrow> send_ck s \<noteq> None \<or> peer_ratchet s \<noteq> None"

text \<open>The coins of a sending step: those of the new key pair and of the encapsulation.\<close>

type_synonym step_coins = "gen_coins \<times> bytes"

definition ratchet_send :: "prims \<Rightarrow> step_coins \<Rightarrow> session \<Rightarrow> ((crypto_error + unit) \<times> session) option" where
  "ratchet_send P coins s =
     (case peer_ratchet s of
        None \<Rightarrow> Some (malformed ''no peer ratchet key'', s)
      | Some peer \<Rightarrow> do {
          (new_secret, new_public) \<leftarrow> rk_generate P (fst coins) (profile s);
          case step_to P (snd coins) new_secret peer of
            Inl e \<Rightarrow> Some (Inl e, s)
          | Inr (ct, ikm) \<Rightarrow>
              (let (root, ck) = kdf_rk P (ss_root s) ikm
               in Some (Inr (), s\<lparr>ss_root := root, prev_send_n := send_n s, send_n := 0,
                    send_ck := Some ck, self_ratchet := Some new_secret,
                    self_ratchet_pub := Some new_public, self_send_ct := ct,
                    need_send_ratchet := False\<rparr>))
        })"

text \<open>The part of \<open>encrypt\<close> after the sending chain is in place.\<close>

definition encrypt_chain :: "prims \<Rightarrow> session \<Rightarrow> bytes \<Rightarrow> ((crypto_error + bytes) \<times> session) option" where
  "encrypt_chain P s plaintext = do {
     ck \<leftarrow> send_ck s;
     let (next_ck, mk_seed) = kdf_ck P ck;
     let (key, nonce) = kdf_mk P mk_seed;
     pub \<leftarrow> self_ratchet_pub s;
     let aad = header_encode \<lparr>ratchet_pub = pub, hd_ct = self_send_ct s, hd_pn = prev_send_n s, hd_n = send_n s\<rparr>;
     case aead_seal P key nonce plaintext aad of
       Inl e \<Rightarrow> Some (Inl e, s)
     | Inr ciphertext \<Rightarrow>
         Some (Inr (into_vec (put_bytes (put_bytes writer_new aad) ciphertext)),
               s\<lparr>send_ck := Some next_ck, send_n := send_n s + 1\<rparr>)
   }"

definition encrypt :: "prims \<Rightarrow> step_coins \<Rightarrow> session \<Rightarrow> bytes \<Rightarrow> ((crypto_error + bytes) \<times> session) option" where
  "encrypt P coins s plaintext =
     (if need_send_ratchet s \<or> send_ck s = None then do {
        (res, s) \<leftarrow> ratchet_send P coins s;
        case res of Inl e \<Rightarrow> Some (Inl e, s) | Inr _ \<Rightarrow> encrypt_chain P s plaintext
      }
      else encrypt_chain P s plaintext)"

definition try_skipped :: "prims \<Rightarrow> session \<Rightarrow> header \<Rightarrow> bytes \<Rightarrow> bytes \<Rightarrow> crypto_error + (bytes option \<times> session)" where
  "try_skipped P s h ct aad =
     (let k = (rp_encode (ratchet_pub h), hd_n h)
      in case map_of (skipped s) k of
           Some mk_seed \<Rightarrow>
             (let (key, nonce) = kdf_mk P mk_seed
              in bind_result (aead_open P key nonce ct aad) (\<lambda>pt.
                   Inr (Some pt, s\<lparr>skipped := AList.delete k (skipped s)\<rparr>)))
         | None \<Rightarrow> Inr (None, s))"

text \<open>The loop \<open>while self.recv_n < until\<close>, with the chain key that is present throughout.\<close>

function skip_loop :: "prims \<Rightarrow> bytes \<Rightarrow> u32 \<Rightarrow> bytes \<Rightarrow> u32 \<Rightarrow> ((bytes \<times> u32) \<times> bytes) list \<Rightarrow>
    bytes \<times> u32 \<times> ((bytes \<times> u32) \<times> bytes) list" where
  "skip_loop P chain_id until ck rn sk =
     (if rn < until then
        let (next_ck, mk_seed) = kdf_ck P ck
        in skip_loop P chain_id until next_ck (rn + 1) (AList.update (chain_id, rn) mk_seed sk)
      else (ck, rn, sk))"
  by pat_completeness auto
termination
  by (relation "measure (\<lambda>(P, i, until, ck, rn, sk). unat until - unat rn)") (auto simp: word_count_up)

declare skip_loop.simps [simp del]

definition skip_recv :: "prims \<Rightarrow> session \<Rightarrow> u32 \<Rightarrow> crypto_error + session" where
  "skip_recv P s until =
     (case recv_ck s of
        None \<Rightarrow> Inr s
      | Some ck \<Rightarrow>
          if until \<le> recv_n s then Inr s
          else if length (skipped s) + unat (until - recv_n s) > MAX_SKIP then Inl (TooManySkipped MAX_SKIP)
          else
            let chain_id = (case peer_ratchet s of Some p \<Rightarrow> rp_encode p | None \<Rightarrow> []);
                (ck, rn, sk) = skip_loop P chain_id until ck (recv_n s) (skipped s)
            in Inr (s\<lparr>recv_ck := Some ck, recv_n := rn, skipped := sk\<rparr>))"

definition ratchet_recv :: "prims \<Rightarrow> session \<Rightarrow> header \<Rightarrow> crypto_error + session" where
  "ratchet_recv P s h =
     bind_result (ok_or (Malformed (ascii ''no self ratchet key'')) (self_ratchet s)) (\<lambda>self_r.
     bind_result (step_from P self_r (ratchet_pub h) (hd_ct h)) (\<lambda>ikm.
       let (root, ck) = kdf_rk P (ss_root s) ikm
       in Inr (s\<lparr>ss_root := root, peer_ratchet := Some (ratchet_pub h), recv_ck := Some ck,
                recv_n := 0, need_send_ratchet := True\<rparr>)))"

text \<open>Step 4 of \<open>decrypt_inner\<close>: the key at the current position opens the message.\<close>

definition open_current :: "prims \<Rightarrow> session \<Rightarrow> bytes \<Rightarrow> bytes \<Rightarrow> crypto_error + (bytes \<times> session)" where
  "open_current P s ciphertext aad =
     bind_result (ok_or DecryptionFailed (recv_ck s)) (\<lambda>ck.
       let (next_ck, mk_seed) = kdf_ck P ck;
           (key, nonce) = kdf_mk P mk_seed
       in bind_result (aead_open P key nonce ciphertext aad) (\<lambda>pt.
            Inr (pt, s\<lparr>recv_ck := Some next_ck, recv_n := recv_n s + 1\<rparr>)))"

definition decrypt_body :: "prims \<Rightarrow> session \<Rightarrow> header \<Rightarrow> bytes \<Rightarrow> bytes \<Rightarrow> crypto_error + (bytes \<times> session)" where
  "decrypt_body P s h ciphertext aad =
     bind_result (try_skipped P s h ciphertext aad) (\<lambda>(found, s).
       case found of
         Some pt \<Rightarrow> Inr (pt, s)
       | None \<Rightarrow>
           let is_new = (case peer_ratchet s of Some p \<Rightarrow> p \<noteq> ratchet_pub h | None \<Rightarrow> True)
           in bind_result
                (if is_new then bind_result (skip_recv P s (hd_pn h)) (\<lambda>s. ratchet_recv P s h) else Inr s)
                (\<lambda>s. bind_result (skip_recv P s (hd_n h)) (\<lambda>s. open_current P s ciphertext aad)))"

definition decrypt_inner :: "prims \<Rightarrow> session \<Rightarrow> bytes \<Rightarrow> crypto_error + (bytes \<times> session)" where
  "decrypt_inner P s message =
     bind_result (wire (get_vec (reader_new message))) (\<lambda>(aad, r).
     bind_result (wire (get_vec r)) (\<lambda>(ciphertext, r).
     bind_result (wire (finish r)) (\<lambda>_.
     bind_result (header_decode (profile s) aad) (\<lambda>h. decrypt_body P s h ciphertext aad))))"

definition decrypt :: "prims \<Rightarrow> session \<Rightarrow> bytes \<Rightarrow> (crypto_error + bytes) \<times> session" where
  "decrypt P s message =
     (case decrypt_inner P s message of
        Inl e \<Rightarrow> (Inl e, s)
      | Inr (pt, trial) \<Rightarrow> (Inr pt, trial))"

section \<open>Header codec\<close>

definition header_ok :: "header \<Rightarrow> bool" where
  "header_ok h \<longleftrightarrow> pub_ok (ratchet_pub h) \<and> frame_sized (hd_ct h)"

lemma header_encode_bytes:
  "header_encode h = bytes_enc (rp_encode (ratchet_pub h)) @ bytes_enc (hd_ct h) @ u32_be (hd_pn h) @ u32_be (hd_n h)"
  by (simp add: header_encode_def into_vec_def codec_simps)

lemma header_decode_encode:
  assumes "header_ok h"
  shows "header_decode (rp_profile (ratchet_pub h)) (header_encode h) = Inr h"
proof -
  let ?p = "bytes_enc (rp_encode (ratchet_pub h))" and ?c = "bytes_enc (hd_ct h)"
  have ok: "pub_ok (ratchet_pub h)" "frame_sized (hd_ct h)" using assms by (simp_all add: header_ok_def)
  have f: "frame_sized (rp_encode (ratchet_pub h))"
    using length_rp_encode[OF ok(1)] by (auto simp: frame_sized_def EK_LEN_def MAX_FRAME_def)
  have len: "length ?p + length ?c + 8 < usize_limit"
    using f ok(2) by (simp add: bytes_enc_def frame_sized_def MAX_FRAME_def usize_limit_def)
  have "get_bytes (reader_at [] (header_encode h)) =
      Inr (rp_encode (ratchet_pub h), reader_at ?p (?c @ u32_be (hd_pn h) @ u32_be (hd_n h)))"
    unfolding header_encode_bytes by (subst lp.get_at) (use f len in simp_all)
  moreover have "get_vec (reader_at ?p (?c @ u32_be (hd_pn h) @ u32_be (hd_n h))) =
      Inr (hd_ct h, reader_at (?p @ ?c) (u32_be (hd_pn h) @ u32_be (hd_n h)))"
    by (subst get_vec_at) (use ok(2) len in simp_all)
  moreover have "get_u32 (reader_at (?p @ ?c) (u32_be (hd_pn h) @ u32_be (hd_n h))) =
      Inr (hd_pn h, reader_at ((?p @ ?c) @ u32_be (hd_pn h)) (u32_be (hd_n h)))"
    by (subst u32.get_at) (use len in simp_all)
  moreover have "get_u32 (reader_at ((?p @ ?c) @ u32_be (hd_pn h)) (u32_be (hd_n h))) =
      Inr (hd_n h, reader_at (((?p @ ?c) @ u32_be (hd_pn h)) @ u32_be (hd_n h)) [])"
    using u32.get_at[of "(?p @ ?c) @ u32_be (hd_pn h)" "hd_n h" "[]"] len by simp
  ultimately show ?thesis
    using rp_decode_encode[OF ok(1)] by (simp add: header_decode_def codec_simps)
qed

section \<open>Skipping\<close>

lemma skip_loop_done [simp]: "skip_loop P i n ck n sk = (ck, n, sk)"
  by (subst skip_loop.simps) simp

lemma skip_loop_chain:
  assumes "rn \<le> until"
  shows "\<exists>sk'. skip_loop P i until (chain_at P c (unat rn)) rn sk = (chain_at P c (unat until), until, sk') \<and>
    map_of sk' = (\<lambda>(j, k). if j = i \<and> rn \<le> k \<and> k < until then Some (seed_at P c (unat k)) else map_of sk (j, k))"
  using assms
proof (induction "unat until - unat rn" arbitrary: rn sk)
  case 0
  then have "rn = until" by (simp add: word_le_nat_alt word_unat_eq_iff)
  then show ?case by (auto simp: fun_eq_iff not_le[symmetric])
next
  case (Suc d)
  then have lt: "rn < until" by (simp add: word_less_nat_alt)
  note u = unat_Suc_word[OF lt]
  have le: "rn + 1 \<le> until" using lt u by (simp add: word_le_nat_alt word_less_nat_alt)
  let ?sk = "AList.update (i, rn) (seed_at P c (unat rn)) sk"
  have "\<exists>sk'. skip_loop P i until (chain_at P c (unat (rn + 1))) (rn + 1) ?sk = (chain_at P c (unat until), until, sk') \<and>
    map_of sk' = (\<lambda>(j, k). if j = i \<and> rn + 1 \<le> k \<and> k < until then Some (seed_at P c (unat k)) else map_of ?sk (j, k))"
    using Suc.hyps(2) u le by (intro Suc.hyps(1)) auto
  moreover have "rn + 1 \<le> k \<longleftrightarrow> rn < k" for k
    using u by (simp add: word_le_nat_alt word_less_nat_alt Suc_le_eq)
  ultimately show ?case using lt u
    by (auto simp: skip_loop.simps[of P i until _ rn] kdf_ck_chain fun_eq_iff update_conv' simp del: chain_at.simps)
qed

lemma skip_loop_bound:
  assumes "skip_loop P i until ck rn sk = (ck', rn', sk')"
  shows "length sk' \<le> length sk + (unat until - unat rn)"
  using assms
proof (induction P i until ck rn sk rule: skip_loop.induct)
  case (1 P i until ck rn sk)
  show ?case
  proof (cases "rn < until")
    case True
    obtain nxt seed where kd: "kdf_ck P ck = (nxt, seed)" by fastforce
    have "skip_loop P i until nxt (rn + 1) (AList.update (i, rn) seed sk) = (ck', rn', sk')"
      using 1(2) True kd by (subst (asm) skip_loop.simps) simp
    then have "length sk' \<le> length (AList.update (i, rn) seed sk) + (unat until - unat (rn + 1))"
      using 1(1)[OF True] kd by auto
    then show ?thesis
      using length_update[of "(i, rn)" seed sk] True unat_Suc_word[OF True]
      by (simp add: word_less_nat_alt)
  next
    case False
    with 1(2) show ?thesis by (subst (asm) skip_loop.simps) auto
  qed
qed

lemma skip_recv_bound:
  assumes "skip_recv P s until = Inr s'" "length (skipped s) \<le> MAX_SKIP"
  shows "length (skipped s') \<le> MAX_SKIP"
proof -
  have sub: "unat (until - recv_n s) = unat until - unat (recv_n s)" if "\<not> until \<le> recv_n s"
    using that by (simp add: unat_sub word_le_nat_alt)
  show ?thesis using assms sub
    by (auto simp: skip_recv_def Let_def split: option.splits if_splits prod.splits dest!: skip_loop_bound)
qed

section \<open>The bound on the cache of skipped seeds\<close>

lemma try_skipped_bound:
  "try_skipped P s h ct aad = Inr (found, s') \<Longrightarrow> length (skipped s) \<le> MAX_SKIP \<Longrightarrow>
    length (skipped s') \<le> MAX_SKIP"
  using length_delete[of "(rp_encode (ratchet_pub h), hd_n h)" "skipped s"]
  by (auto simp: try_skipped_def Let_def split_beta result_simps split: option.splits)

lemma ratchet_recv_skipped: "ratchet_recv P s h = Inr s' \<Longrightarrow> skipped s' = skipped s"
  by (auto simp: ratchet_recv_def Let_def split_beta result_simps)

lemma open_current_skipped: "open_current P s ct aad = Inr (pt, s') \<Longrightarrow> skipped s' = skipped s"
  by (auto simp: open_current_def Let_def split_beta result_simps)

lemma decrypt_body_bound:
  assumes "decrypt_body P s h ct aad = Inr (pt, s')" "length (skipped s) \<le> MAX_SKIP"
  shows "length (skipped s') \<le> MAX_SKIP"
proof -
  obtain found t where t: "try_skipped P s h ct aad = Inr (found, t)"
    using assms(1) by (auto simp: decrypt_body_def result_simps)
  have b: "length (skipped t) \<le> MAX_SKIP" using try_skipped_bound[OF t assms(2)] .
  show ?thesis
  proof (cases found)
    case None
    let ?new = "case peer_ratchet t of Some p \<Rightarrow> p \<noteq> ratchet_pub h | None \<Rightarrow> True"
    obtain u v where u: "(if ?new then bind_result (skip_recv P t (hd_pn h)) (\<lambda>s. ratchet_recv P s h) else Inr t) = Inr u"
      and v: "skip_recv P u (hd_n h) = Inr v" "open_current P v ct aad = Inr (pt, s')"
      using assms(1) t None by (auto simp: decrypt_body_def Let_def result_simps)
    have "length (skipped u) \<le> MAX_SKIP"
      using u b skip_recv_bound by (auto simp: result_simps dest!: ratchet_recv_skipped split: if_splits)
    then show ?thesis using skip_recv_bound[OF v(1)] open_current_skipped[OF v(2)] by simp
  qed (use assms(1) t b in \<open>simp add: decrypt_body_def\<close>)
qed

lemma decrypt_bound:
  assumes "length (skipped s) \<le> MAX_SKIP"
  shows "length (skipped (snd (decrypt P s m))) \<le> MAX_SKIP"
  using assms decrypt_body_bound
  by (auto simp: decrypt_def decrypt_inner_def result_simps split: sum.splits)

lemma ratchet_send_skipped: "ratchet_send P c s = Some (r, s') \<Longrightarrow> skipped s' = skipped s"
  by (auto simp: ratchet_send_def Let_def bind_eq_Some_conv split_beta case_sum_eq_Some
      split: option.split_asm)

lemma encrypt_chain_skipped: "encrypt_chain P s pt = Some (r, s') \<Longrightarrow> skipped s' = skipped s"
  by (auto simp: encrypt_chain_def Let_def bind_eq_Some_conv split_beta case_sum_eq_Some)

lemma encrypt_skipped: "encrypt P c s pt = Some (r, s') \<Longrightarrow> skipped s' = skipped s"
  by (auto simp: encrypt_def bind_eq_Some_conv case_sum_eq_Some dest!: ratchet_send_skipped encrypt_chain_skipped
      split: if_split_asm)

text \<open>The states a session passes through, whatever is sent and whatever bytes arrive.\<close>

inductive session_run :: "prims \<Rightarrow> session \<Rightarrow> bool" for P where
  initiates: "session_run P (initiator root0 peer)"
| responds: "session_run P (responder root0 sec pub)"
| encrypts: "session_run P s \<Longrightarrow> encrypt P c s pt = Some (res, s') \<Longrightarrow> session_run P s'"
| decrypts: "session_run P s \<Longrightarrow> session_run P (snd (decrypt P s m))"

text \<open>
  C17. However a session is driven, by sending and by any bytes an attacker delivers, it never
  caches more than \<open>MAX_SKIP\<close> message-key seeds.
\<close>

theorem skipped_cache_bounded:
  assumes "session_run P s"
  shows "length (skipped s) \<le> MAX_SKIP"
  using assms
  by induction (simp_all add: initiator_def responder_def encrypt_skipped decrypt_bound)

text \<open>The key pairs of the computable instance in the compact profile.\<close>

abbreviation demo_secret :: "byte \<Rightarrow> ratchet_secret" where
  "demo_secret b \<equiv> \<lparr>rs_profile = profile_pq_pure_compact, rs_x = None, rs_kem_dk = [b + 1]\<rparr>"

abbreviation demo_public :: "byte \<Rightarrow> ratchet_public" where
  "demo_public b \<equiv> \<lparr>rp_profile = profile_pq_pure_compact, rp_x_pub = None, rp_pad = None,
     rp_kem_ek = replicate EK_LEN (b + 1)\<rparr>"

theorem skipped_cache_bounded_witness:
  "session_run demo_prims (snd (decrypt demo_prims (responder [1] (demo_secret 1) (demo_public 1)) [2, 3])) \<and>
   length (skipped (snd (decrypt demo_prims (responder [1] (demo_secret 1) (demo_public 1)) [2, 3]))) \<le> MAX_SKIP"
  using skipped_cache_bounded[OF decrypts[OF responds]] decrypts[OF responds] by blast

section \<open>Refusing floods\<close>

lemma decrypt_inner_frame:
  assumes "header_ok h" "rp_profile (ratchet_pub h) = profile s"
    and "length (bytes_enc (header_encode h) @ bytes_enc ct) \<le> MAX_FRAME"
  shows "decrypt_inner P s (bytes_enc (header_encode h) @ bytes_enc ct) = decrypt_body P s h ct (header_encode h)"
proof -
  let ?a = "header_encode h"
  have sz: "frame_sized ?a" "frame_sized ct" "length (bytes_enc ?a) + length (bytes_enc ct) < usize_limit"
    using assms(3) by (auto simp: frame_sized_def bytes_enc_def MAX_FRAME_def usize_limit_def)
  show ?thesis
    using header_decode_encode[OF assms(1)] assms(2)
      get_vec_at[of ?a "[]" "bytes_enc ct"] get_vec_at[of ct "bytes_enc ?a" "[]"] sz
    by (simp add: decrypt_inner_def codec_simps)
qed

text \<open>
  A frame whose header claims a position so far ahead on the current receiving chain that
  the cache would exceed \<open>MAX_SKIP\<close> is refused with \<open>TooManySkipped\<close> before any key is
  derived, whatever its ciphertext, and the session is left as it was.
\<close>

lemma flood_refused:
  assumes "header_ok h" "rp_profile (ratchet_pub h) = profile s"
    and "length (bytes_enc (header_encode h) @ bytes_enc ct) \<le> MAX_FRAME"
    and "peer_ratchet s = Some (ratchet_pub h)" "recv_ck s = Some ck"
    and "map_of (skipped s) (rp_encode (ratchet_pub h), hd_n h) = None"
    and "recv_n s \<le> hd_n h" "length (skipped s) + (unat (hd_n h) - unat (recv_n s)) > MAX_SKIP"
    and "length (skipped s) \<le> MAX_SKIP"
  shows "decrypt P s (bytes_enc (header_encode h) @ bytes_enc ct) = (Inl (TooManySkipped MAX_SKIP), s)"
proof -
  have "\<not> hd_n h \<le> recv_n s" using assms(7-9) by (auto simp: word_le_nat_alt)
  moreover have "unat (hd_n h - recv_n s) = unat (hd_n h) - unat (recv_n s)"
    using assms(7) by (simp add: unat_sub word_le_nat_alt)
  ultimately have "skip_recv P s (hd_n h) = Inl (TooManySkipped MAX_SKIP)"
    using assms(5,8) by (simp add: skip_recv_def)
  then show ?thesis
    using decrypt_inner_frame[OF assms(1-3), of P] assms(4,6)
    by (simp add: decrypt_def decrypt_body_def try_skipped_def)
qed

lemma flood_refused_witness:
  "\<exists>s h. peer_ratchet s = Some (ratchet_pub h) \<and> hd_n h = 5000 \<and>
     decrypt demo_prims s (bytes_enc (header_encode h) @ bytes_enc [1, 2]) = (Inl (TooManySkipped MAX_SKIP), s)"
proof -
  let ?s = "(responder [1] (demo_secret 1) (demo_public 1))\<lparr>peer_ratchet := Some (demo_public 2), recv_ck := Some [7]\<rparr>"
  let ?h = "\<lparr>ratchet_pub = demo_public 2, hd_ct = [], hd_pn = 0, hd_n = 5000\<rparr>"
  have "pub_ok (demo_public 2)" by (simp add: pub_ok_def profile_pq_pure_compact_def)
  then have "decrypt demo_prims ?s (bytes_enc (header_encode ?h) @ bytes_enc [1, 2]) = (Inl (TooManySkipped MAX_SKIP), ?s)"
    by (intro flood_refused)
      (simp_all add: header_ok_def frame_sized_def responder_def header_encode_bytes bytes_enc_def rp_encode_def
        codec_simps into_vec_def EK_LEN_def MAX_FRAME_def MAX_SKIP_def profile_pq_pure_compact_def)
  moreover have "peer_ratchet ?s = Some (ratchet_pub ?h)" "hd_n ?h = 5000" by simp_all
  ultimately show ?thesis by blast
qed

end
