(* ===== verification/RatchetRun.thy ===== *)
theory RatchetRun
  imports Ratchet
begin

text \<open>
  Conversations over the Double Ratchet of \<open>Ratchet\<close>. A \<open>world\<close> is an initiator, a
  responder and the messages in flight in each direction, each filed under the chain
  identifier and number of its header; \<open>step\<close> lets either party encrypt a message or
  decrypt any message in flight, in any order. The invariant \<open>world_ok\<close> says how the two
  sessions relate at every moment of such a run; from it follows that every message in
  flight decrypts to the plaintext that was sent.
\<close>

section \<open>Genuine messages\<close>

text \<open>\<open>w\<close> is the wire message that \<open>encrypt\<close> makes of \<open>pt\<close> with this header and seed.\<close>

definition genuine :: "prims \<Rightarrow> header \<Rightarrow> bytes \<Rightarrow> bytes \<Rightarrow> bytes \<Rightarrow> bool" where
  "genuine P h seed pt w \<longleftrightarrow> header_ok h \<and> length w \<le> MAX_FRAME \<and>
     (\<exists>ct. (let (key, nonce) = kdf_mk P seed in aead_seal P key nonce pt (header_encode h) = Inr ct) \<and>
           w = bytes_enc (header_encode h) @ bytes_enc ct)"

abbreviation key_of :: "header \<Rightarrow> bytes \<times> u32" where
  "key_of h \<equiv> (rp_encode (ratchet_pub h), hd_n h)"

lemma decrypt_genuine:
  assumes "gcm_correct P" "genuine P h seed pt w"
  obtains ct key nonce where
      "\<And>s. rp_profile (ratchet_pub h) = profile s \<Longrightarrow> decrypt_inner P s w = decrypt_body P s h ct (header_encode h)"
    and "kdf_mk P seed = (key, nonce)" "aead_open P key nonce ct (header_encode h) = Inr pt"
proof -
  let ?a = "header_encode h"
  obtain key nonce ct where kd: "kdf_mk P seed = (key, nonce)" and w: "w = bytes_enc ?a @ bytes_enc ct"
    and seal: "aead_seal P key nonce pt ?a = Inr ct"
    using assms(2) by (auto simp: genuine_def)
  have "decrypt_inner P s w = decrypt_body P s h ct ?a" if "rp_profile (ratchet_pub h) = profile s" for s
    unfolding w by (rule decrypt_inner_frame) (use assms(2) that w in \<open>simp_all add: genuine_def\<close>)
  then show thesis using that kd aead_open_seal[OF assms(1) seal] by blast
qed

section \<open>Seeds still expected\<close>

text \<open>The seeds of the messages \<open>a .. b - 1\<close> of the chain \<open>i\<close> started at \<open>c\<close>.\<close>

definition rng :: "prims \<Rightarrow> bytes \<Rightarrow> bytes \<Rightarrow> u32 \<Rightarrow> u32 \<Rightarrow> (bytes \<times> u32) \<Rightarrow> bytes option" where
  "rng P i c a b = (\<lambda>(j, k). if j = i \<and> a \<le> k \<and> k < b then Some (seed_at P c (unat k)) else None)"

lemma card_word_interval: "card {k :: u32. a \<le> k \<and> k < b} = unat b - unat a"
proof -
  have fits: "unat (of_nat n :: u32) = n" if "n < unat b" for n
  proof (rule unat_u32_of_nat)
    have "unat b < 2 ^ 32" using unsigned_less[of b, where 'a = nat] by simp
    with that show "n < 2 ^ 32" by linarith
  qed
  have "bij_betw unat {k :: u32. a \<le> k \<and> k < b} {unat a..<unat b}"
    by (rule bij_betw_byWitness[where f' = of_nat])
      (auto simp: fits word_le_nat_alt word_less_nat_alt)
  then show ?thesis using bij_betw_same_card by fastforce
qed

lemma dom_rng: "dom (rng P i c a b) = Pair i ` {k. a \<le> k \<and> k < b}"
  by (auto simp: rng_def split: if_splits)

lemma card_rng: "card (dom (rng P i c a b)) = unat b - unat a"
  unfolding dom_rng by (simp add: card_image inj_on_def card_word_interval)

lemma finite_rng [simp]: "finite (dom (rng P i c a b))"
  unfolding dom_rng by simp

lemma length_distinct_map: "distinct (map fst xs) \<Longrightarrow> length xs = card (dom (map_of xs))"
  by (metis distinct_card dom_map_of_conv_image_fst length_map set_map)

text \<open>Advancing the receiving chain caches exactly the seeds that are passed over.\<close>

lemma distinct_skip_loop:
  assumes "skip_loop P i until ck rn sk = (ck', rn', sk')" "distinct (map fst sk)"
  shows "distinct (map fst sk')"
  using assms
proof (induction P i until ck rn sk rule: skip_loop.induct)
  case (1 P i until ck rn sk)
  obtain nxt seed where kd: "kdf_ck P ck = (nxt, seed)" by fastforce
  show ?case
  proof (cases "rn < until")
    case True
    with 1(2) kd have "skip_loop P i until nxt (rn + 1) (AList.update (i, rn) seed sk) = (ck', rn', sk')"
      by (subst (asm) skip_loop.simps) simp
    then show ?thesis using 1(1)[OF True] 1(3) kd by (auto simp: distinct_update)
  next
    case False
    with 1(2,3) show ?thesis by (subst (asm) skip_loop.simps) auto
  qed
qed

lemma skip_recv_chain:
  assumes "peer_ratchet s = Some p" "recv_ck s = Some (chain_at P c (unat (recv_n s)))"
    and "recv_n s \<le> until" "distinct (map fst (skipped s))"
    and "length (skipped s) + (unat until - unat (recv_n s)) \<le> MAX_SKIP"
  shows "\<exists>sk. skip_recv P s until =
      Inr (s\<lparr>recv_ck := Some (chain_at P c (unat until)), recv_n := until, skipped := sk\<rparr>) \<and>
    distinct (map fst sk) \<and> map_of sk = map_of (skipped s) ++ rng P (rp_encode p) c (recv_n s) until"
proof (cases "until \<le> recv_n s")
  case True
  then have u: "until = recv_n s" using assms(3) by simp
  have "s\<lparr>recv_ck := Some (chain_at P c (unat (recv_n s))), recv_n := recv_n s, skipped := skipped s\<rparr> = s"
    using assms(2) by (intro session.equality) simp_all
  moreover have "rng P (rp_encode p) c (recv_n s) (recv_n s) = Map.empty"
    by (auto simp: rng_def fun_eq_iff)
  ultimately show ?thesis using assms(2,4) unfolding u
    by (intro exI[of _ "skipped s"]) (simp add: skip_recv_def)
next
  case False
  obtain sk where sk: "skip_loop P (rp_encode p) until (chain_at P c (unat (recv_n s))) (recv_n s) (skipped s)
      = (chain_at P c (unat until), until, sk)"
    "map_of sk = (\<lambda>(j, k). if j = rp_encode p \<and> recv_n s \<le> k \<and> k < until then Some (seed_at P c (unat k))
                   else map_of (skipped s) (j, k))"
    using skip_loop_chain[OF assms(3), of P "rp_encode p" c "skipped s"] by blast
  have "unat (until - recv_n s) = unat until - unat (recv_n s)"
    using assms(3) by (simp add: unat_sub word_le_nat_alt)
  then have "skip_recv P s until =
      Inr (s\<lparr>recv_ck := Some (chain_at P c (unat until)), recv_n := until, skipped := sk\<rparr>)"
    using False assms(1,2,5) sk(1) by (simp add: skip_recv_def)
  moreover have "map_of sk = map_of (skipped s) ++ rng P (rp_encode p) c (recv_n s) until"
    unfolding sk(2) by (simp add: rng_def map_add_def fun_eq_iff)
  ultimately show ?thesis using distinct_skip_loop[OF sk(1) assms(4)] by blast
qed

section \<open>One direction of a conversation\<close>

type_synonym flight = "(bytes \<times> u32) \<Rightarrow> (header \<times> bytes \<times> bytes) option"

text \<open>
  The messages in flight to \<open>R\<close>: \<open>E\<close> gives the seed of each, and every one is a genuine
  message under its seed, filed under the key of its header.
\<close>

definition ledger :: "prims \<Rightarrow> kem_profile \<Rightarrow> ((bytes \<times> u32) \<Rightarrow> bytes option) \<Rightarrow> flight \<Rightarrow> bool" where
  "ledger P pr E F \<longleftrightarrow> finite (dom F) \<and> dom E = dom F \<and>
     (\<forall>key h w pt. F key = Some (h, w, pt) \<longrightarrow>
        key = key_of h \<and> genuine P h (the (E key)) pt w \<and> rp_profile (ratchet_pub h) = pr \<and> hd_n h < - 1)"

text \<open>The expected seeds are those \<open>R\<close> has cached and those still \<open>pend\<close>ing on its chains.\<close>

definition expects :: "prims \<Rightarrow> session \<Rightarrow> ((bytes \<times> u32) \<Rightarrow> bytes option) \<Rightarrow> flight \<Rightarrow> bool" where
  "expects P R pend F \<longleftrightarrow> distinct (map fst (skipped R)) \<and> dom (map_of (skipped R)) \<inter> dom pend = {} \<and>
     ledger P (profile R) (map_of (skipped R) ++ pend) F"

definition send_at :: "prims \<Rightarrow> session \<Rightarrow> ratchet_public \<Rightarrow> bytes \<Rightarrow> bool" where
  "send_at P S p c \<longleftrightarrow> self_ratchet_pub S = Some p \<and> send_ck S = Some (chain_at P c (unat (send_n S))) \<and>
     pub_ok p \<and> rp_profile p = profile S \<and> frame_sized (self_send_ct S)"

definition recv_at :: "prims \<Rightarrow> session \<Rightarrow> ratchet_public \<Rightarrow> bytes \<Rightarrow> bool" where
  "recv_at P R p c \<longleftrightarrow> peer_ratchet R = Some p \<and> recv_ck R = Some (chain_at P c (unat (recv_n R))) \<and>
     pub_ok p \<and> rp_profile p = profile R"

lemma rp_encode_inj:
  assumes "pub_ok p" "pub_ok q" "rp_profile p = rp_profile q" "rp_encode p = rp_encode q"
  shows "p = q"
  using rp_decode_encode[OF assms(1)] rp_decode_encode[OF assms(2)] unfolding assms(3,4) by simp

lemma ledger_msg:
  assumes "ledger P pr E F" "F key = Some (h, w, pt)"
  shows "key = key_of h" "genuine P h (the (E key)) pt w" "rp_profile (ratchet_pub h) = pr" "hd_n h < - 1"
    and "pub_ok (ratchet_pub h)"
proof -
  have m: "key = key_of h \<and> genuine P h (the (E key)) pt w \<and> rp_profile (ratchet_pub h) = pr \<and> hd_n h < - 1"
    using assms unfolding ledger_def by blast
  then show "key = key_of h" "genuine P h (the (E key)) pt w" "rp_profile (ratchet_pub h) = pr" "hd_n h < - 1"
    by blast+
  then show "pub_ok (ratchet_pub h)" by (simp add: genuine_def header_ok_def)
qed

lemma ledger_remove:
  assumes "ledger P pr E F" "E' = E(key := None)"
  shows "ledger P pr E' (F(key := None))"
proof -
  have "finite (dom (F(key := None)))" "dom E' = dom (F(key := None))"
    using assms unfolding ledger_def by simp_all
  moreover have "k = key_of h \<and> genuine P h (the (E' k)) pt w \<and> rp_profile (ratchet_pub h) = pr \<and> hd_n h < - 1"
    if "(F(key := None)) k = Some (h, w, pt)" for k h w pt
    using that assms ledger_msg[OF assms(1), of k h w pt] by (cases "k = key") simp_all
  ultimately show ?thesis unfolding ledger_def by blast
qed

text \<open>Cached seeds and pending seeds together never exceed what is in flight.\<close>

lemma card_disjoint_le:
  assumes "finite C" "A \<inter> B = {}" "A \<subseteq> C" "B \<subseteq> C"
  shows "card A + card B \<le> card C"
  using assms by (metis card_Un_disjoint card_mono finite_subset Un_subset_iff)

lemma expects_card:
  assumes "expects P R pend F" "X \<subseteq> dom pend"
  shows "length (skipped R) + card X \<le> card (dom F)"
proof -
  have dis: "dom (map_of (skipped R)) \<inter> dom pend = {}" "distinct (map fst (skipped R))"
    and led: "ledger P (profile R) (map_of (skipped R) ++ pend) F"
    using assms(1) unfolding expects_def by blast+
  have "finite (dom F)" "dom (map_of (skipped R) ++ pend) = dom F"
    using led[unfolded ledger_def, THEN conjunct1] led[unfolded ledger_def, THEN conjunct2, THEN conjunct1] by -
  then have fin: "finite (dom F)" "dom pend \<union> dom (map_of (skipped R)) = dom F" by simp_all
  have "card (dom (map_of (skipped R))) + card X \<le> card (dom F)"
    using fin dis(1) assms(2) by (intro card_disjoint_le) blast+
  then show ?thesis unfolding length_distinct_map[OF dis(2)] .
qed

text \<open>
  A message whose seed is cached, or which is pending on the current receiving chain,
  decrypts; the receiver moves along its chain at most to \<open>b\<close> and expects the rest.
\<close>

lemma decrypt_cached:
  assumes "gcm_correct P" "expects P R pend F" "F key = Some (h, w, pt)" "key \<notin> dom pend"
  shows "decrypt P R w = (Inr pt, R\<lparr>skipped := AList.delete key (skipped R)\<rparr>)"
    and "expects P (R\<lparr>skipped := AList.delete key (skipped R)\<rparr>) pend (F(key := None))"
proof -
  have led: "ledger P (profile R) (map_of (skipped R) ++ pend) F" using assms(2) by (simp add: expects_def)
  note m = ledger_msg[OF led assms(3)]
  have "key \<in> dom F" using assms(3) by auto
  then obtain seed where seed: "map_of (skipped R) key = Some seed"
    using led assms(4) by (auto simp: ledger_def)
  then have g: "genuine P h seed pt w" using m(2) assms(4) by (simp add: map_add_def domIff)
  obtain ct k n where d: "decrypt_inner P R w = decrypt_body P R h ct (header_encode h)"
    "kdf_mk P seed = (k, n)" "aead_open P k n ct (header_encode h) = Inr pt"
    using decrypt_genuine[OF assms(1) g] m(3) by metis
  then show "decrypt P R w = (Inr pt, R\<lparr>skipped := AList.delete key (skipped R)\<rparr>)"
    using seed m(1) by (simp add: decrypt_def decrypt_body_def try_skipped_def)
  have "map_of (AList.delete key (skipped R)) ++ pend = (map_of (skipped R) ++ pend)(key := None)"
    using assms(4) by (simp add: delete_conv' map_add_remove domIff)
  then show "expects P (R\<lparr>skipped := AList.delete key (skipped R)\<rparr>) pend (F(key := None))"
    using assms(2) ledger_remove[OF led] unfolding expects_def
    by (simp add: distinct_delete delete_conv') blast
qed

lemma rng_out [simp]: "j \<noteq> i \<Longrightarrow> rng P i c a b (j, k) = None"
  by (simp add: rng_def)

lemma rng_empty [simp]: "rng P i c a a = Map.empty"
  by (auto simp: rng_def fun_eq_iff)

text \<open>Passing over \<open>a .. n - 1\<close> and using \<open>n\<close> leaves the expected seeds but one.\<close>

lemma rng_split:
  assumes "a \<le> n" "n < b"
  shows "rng P i c a n ++ rng P i c (n + 1) b = (rng P i c a b)((i, n) := None)"
proof -
  have iff: "(n + 1 \<le> k \<and> k < b) \<or> (a \<le> k \<and> k < n) \<longleftrightarrow> k \<noteq> n \<and> a \<le> k \<and> k < b" for k
    using assms unfolding word_le_nat_alt word_less_nat_alt word_unat_eq_iff unat_Suc_word[OF assms(2)]
    by linarith
  have "(rng P i c a n ++ rng P i c (n + 1) b) (j, k) =
      (if j = i \<and> ((n + 1 \<le> k \<and> k < b) \<or> (a \<le> k \<and> k < n)) then Some (seed_at P c (unat k)) else None)" for j k
    unfolding rng_def map_add_def by simp
  then have "(rng P i c a n ++ rng P i c (n + 1) b) (j, k) = ((rng P i c a b)((i, n) := None)) (j, k)" for j k
    unfolding iff rng_def by simp
  then show ?thesis by (intro ext) (metis surj_pair)
qed

lemma dom_rng_mono: "b \<le> b' \<Longrightarrow> dom (rng P i c a b) \<subseteq> dom (rng P i c a b')"
  unfolding dom_rng by auto

lemma open_current_chain:
  assumes "recv_ck s = Some (chain_at P c (unat n))" "recv_n s = n" "kdf_mk P (seed_at P c (unat n)) = (k, nc)"
    and "aead_open P k nc ct aad = Inr pt" "n < - 1"
  shows "open_current P s ct aad = Inr (pt, s\<lparr>recv_ck := Some (chain_at P c (unat (n + 1))), recv_n := n + 1\<rparr>)"
  using assms by (simp add: open_current_def kdf_ck_chain unat_Suc_word[OF assms(5)] del: chain_at.simps)

lemma rng_disjoint:
  "n \<le> n' \<Longrightarrow> dom (rng P i c a n) \<inter> dom (rng P i c n' b) = {}"
  unfolding dom_rng by auto

text \<open>What remains expected when the chain moves past \<open>n\<close> and \<open>n\<close> itself is used.\<close>

lemma expects_advance:
  assumes "expects P R (rng P i c a b ++ other) F" "\<And>k. other (i, k) = None" "a \<le> n" "n < b"
    and "distinct (map fst (skipped R'))" "map_of (skipped R') = map_of (skipped R) ++ rng P i c a n"
    and "profile R' = profile R"
  shows "expects P R' (rng P i c (n + 1) b ++ other) (F((i, n) := None))"
proof -
  have dis: "dom (map_of (skipped R)) \<inter> (dom (rng P i c a b) \<union> dom other) = {}"
    and led: "ledger P (profile R) (map_of (skipped R) ++ (rng P i c a b ++ other)) F"
    using assms(1) unfolding expects_def by (simp_all add: Un_commute)
  have le: "n \<le> b" "a \<le> n + 1" "n \<le> n + 1"
    using assms(3,4) unat_Suc_word[OF assms(4)] by (simp_all add: word_le_nat_alt word_less_nat_alt)
  have sub: "dom (rng P i c (n + 1) b) \<subseteq> dom (rng P i c a b)" using le(2) unfolding dom_rng by auto
  have oth: "dom (rng P i c a n) \<inter> dom other = {}" using assms(2) unfolding dom_rng by auto
  have none: "map_of (skipped R) (i, n) = None"
    using dis assms(3,4) unfolding dom_rng by (auto simp: domIff[symmetric])
  have "dom (map_of (skipped R')) \<inter> dom (rng P i c (n + 1) b ++ other) = {}"
    using dis sub oth rng_disjoint[OF le(3), of P i c a b] unfolding assms(6) by (simp add: dom_map_add) blast
  moreover have "map_of (skipped R') ++ (rng P i c (n + 1) b ++ other) =
      (map_of (skipped R) ++ (rng P i c a b ++ other))((i, n) := None)"
    unfolding assms(6) map_add_assoc[symmetric]
    unfolding map_add_assoc rng_split[OF assms(3,4)]
      map_add_assoc[of "rng P i c a n" "rng P i c (n + 1) b" other, symmetric]
    using assms(2) none by (simp add: map_add_remove map_add_remove_right)
  ultimately show ?thesis
    using ledger_remove[OF led] assms(5,7) unfolding expects_def by simp
qed

text \<open>The facts about a message in flight that is pending at \<open>n\<close> of the chain of \<open>p\<close>.\<close>

lemma pending_message:
  assumes "expects P R (rng P (rp_encode p) c a b ++ other) F" "\<And>k. other (rp_encode p, k) = None"
    and "F key = Some (h, w, pt)" "rng P (rp_encode p) c a b key \<noteq> None" "pub_ok p" "rp_profile p = profile R"
  shows "key = (rp_encode p, hd_n h)" "ratchet_pub h = p" "a \<le> hd_n h" "hd_n h < b" "hd_n h < - 1"
    and "genuine P h (seed_at P c (unat (hd_n h))) pt w" "map_of (skipped R) key = None"
    and "length (skipped R) + (unat (hd_n h) - unat a) \<le> card (dom F)"
proof -
  have dis: "dom (map_of (skipped R)) \<inter> (dom (rng P (rp_encode p) c a b) \<union> dom other) = {}"
    and led: "ledger P (profile R) (map_of (skipped R) ++ (rng P (rp_encode p) c a b ++ other)) F"
    using assms(1) unfolding expects_def by (simp_all add: Un_commute)
  note m = ledger_msg[OF led assms(3)]
  from assms(4) m(1) have eq: "rp_encode (ratchet_pub h) = rp_encode p" and bd: "a \<le> hd_n h" "hd_n h < b"
    by (auto simp: rng_def split: if_splits)
  then show key: "key = (rp_encode p, hd_n h)" and "a \<le> hd_n h" "hd_n h < b" using m(1) by simp_all
  show "ratchet_pub h = p" using rp_encode_inj[OF m(5) assms(5) _ eq] m(3) assms(6) by simp
  show "hd_n h < - 1" by (rule m(4))
  have r: "rng P (rp_encode p) c a b key = Some (seed_at P c (unat (hd_n h)))" "other key = None"
    using key bd assms(2) by (simp_all add: rng_def)
  then show "genuine P h (seed_at P c (unat (hd_n h))) pt w" using m(2) by (simp add: map_add_def)
  have "key \<in> dom (rng P (rp_encode p) c a b)" using r(1) by (rule domI)
  then show "map_of (skipped R) key = None" using dis by (meson UnI1 disjoint_iff domIff)
  have "dom (rng P (rp_encode p) c a (hd_n h)) \<subseteq> dom (rng P (rp_encode p) c a b ++ other)"
    using dom_rng_mono[OF less_imp_le[OF bd(2)], of P "rp_encode p" c a] unfolding dom_map_add by blast
  then show "length (skipped R) + (unat (hd_n h) - unat a) \<le> card (dom F)"
    using expects_card[OF assms(1)] card_rng by metis
qed

lemma decrypt_current:
  assumes "gcm_correct P" "recv_at P R p c" "expects P R (rng P (rp_encode p) c (recv_n R) b ++ other) F"
    and "\<And>k. other (rp_encode p, k) = None" "F key = Some (h, w, pt)" "card (dom F) \<le> MAX_SKIP"
    and "rng P (rp_encode p) c (recv_n R) b key \<noteq> None"
  shows "\<exists>sk n. let R' = R\<lparr>recv_ck := Some (chain_at P c (unat n)), recv_n := n, skipped := sk\<rparr>
    in decrypt P R w = (Inr pt, R') \<and> recv_at P R' p c \<and> n \<le> b \<and>
       fst ` dom (map_of sk) \<subseteq> insert (rp_encode p) (fst ` dom (map_of (skipped R))) \<and>
       expects P R' (rng P (rp_encode p) c n b ++ other) (F(key := None))"
proof -
  have ra: "peer_ratchet R = Some p" "recv_ck R = Some (chain_at P c (unat (recv_n R)))" "pub_ok p" "rp_profile p = profile R"
    using assms(2) by (simp_all add: recv_at_def)
  note m = pending_message[OF assms(3,4,5,7) ra(3,4)]
  let ?n = "hd_n h"
  obtain ct k nc where d: "decrypt_inner P R w = decrypt_body P R h ct (header_encode h)"
    "kdf_mk P (seed_at P c (unat ?n)) = (k, nc)" "aead_open P k nc ct (header_encode h) = Inr pt"
    using decrypt_genuine[OF assms(1) m(6)] m(2) ra(4) by metis
  have dist: "distinct (map fst (skipped R))" using assms(3) unfolding expects_def by blast
  obtain sk where sk: "skip_recv P R ?n = Inr (R\<lparr>recv_ck := Some (chain_at P c (unat ?n)), recv_n := ?n, skipped := sk\<rparr>)"
      "distinct (map fst sk)" "map_of sk = map_of (skipped R) ++ rng P (rp_encode p) c (recv_n R) ?n"
    using skip_recv_chain[OF ra(1,2) m(3) dist] m(8) assms(6) by (meson le_trans)
  let ?R = "R\<lparr>recv_ck := Some (chain_at P c (unat (?n + 1))), recv_n := ?n + 1, skipped := sk\<rparr>"
  have "decrypt P R w = (Inr pt, ?R)"
    using d(1) sk(1) ra(1) m(1,2,7) open_current_chain[OF _ _ d(2,3) m(5)]
    by (simp add: decrypt_def decrypt_body_def try_skipped_def)
  moreover have "expects P ?R (rng P (rp_encode p) c (?n + 1) b ++ other) (F(key := None))"
    unfolding m(1) by (rule expects_advance[OF assms(3,4) m(3,4)]) (use sk in simp_all)
  moreover have "?n + 1 \<le> b"
    using m(4) unat_Suc_word[OF m(4)] by (simp add: word_le_nat_alt word_less_nat_alt)
  moreover have "fst ` dom (map_of sk) \<subseteq> insert (rp_encode p) (fst ` dom (map_of (skipped R)))"
    unfolding sk(3) dom_map_add dom_rng by auto
  moreover have "recv_at P ?R p c" using ra by (simp add: recv_at_def)
  ultimately show ?thesis unfolding Let_def by blast
qed

text \<open>
  The tail of the chain \<open>R\<close> was receiving on when the sender left it after \<open>pn\<close> messages:
  nothing if \<open>R\<close> never received, else what it still expects there.
\<close>

definition tail_of :: "prims \<Rightarrow> session \<Rightarrow> u32 \<Rightarrow> ((bytes \<times> u32) \<Rightarrow> bytes option) \<Rightarrow> bool" where
  "tail_of P R pn old \<longleftrightarrow>
     (recv_ck R = None \<and> skipped R = [] \<and> old = Map.empty) \<or>
     (\<exists>p0 c0. recv_at P R p0 c0 \<and> recv_n R \<le> pn \<and> old = rng P (rp_encode p0) c0 (recv_n R) pn)"

lemma tail_skip:
  assumes "tail_of P R pn old" "expects P R (new ++ old) F" "card (dom F) \<le> MAX_SKIP"
  shows "\<exists>ck rn sk. skip_recv P R pn = Inr (R\<lparr>recv_ck := ck, recv_n := rn, skipped := sk\<rparr>) \<and>
    distinct (map fst sk) \<and> map_of sk = map_of (skipped R) ++ old"
proof -
  have dist: "distinct (map fst (skipped R))" using assms(2) unfolding expects_def by blast
  from assms(1)[unfolded tail_of_def] show ?thesis
  proof (elim disjE conjE exE)
    assume "recv_ck R = None" "skipped R = []" "old = Map.empty"
    then have "skip_recv P R pn = Inr (R\<lparr>recv_ck := recv_ck R, recv_n := recv_n R, skipped := skipped R\<rparr>)"
      by (simp add: skip_recv_def)
    then show ?thesis using dist \<open>old = Map.empty\<close> by (metis map_add_empty)
  next
    fix p0 c0
    assume r: "recv_at P R p0 c0" "recv_n R \<le> pn" "old = rng P (rp_encode p0) c0 (recv_n R) pn"
    have "length (skipped R) + (unat pn - unat (recv_n R)) \<le> MAX_SKIP"
      using expects_card[OF assms(2), of "dom old"] assms(3) unfolding r(3) card_rng by (simp add: dom_map_add)
    then show ?thesis
      using skip_recv_chain[of R p0 P c0 pn] r dist unfolding recv_at_def by blast
  qed
qed

lemma expects_cache:
  assumes "expects P R (new ++ old) F" "dom new \<inter> dom old = {}"
    and "distinct (map fst (skipped R'))" "map_of (skipped R') = map_of (skipped R) ++ old" "profile R' = profile R"
  shows "expects P R' new F"
proof -
  have "map_of (skipped R') ++ new = map_of (skipped R) ++ (new ++ old)"
    unfolding assms(4) map_add_comm[OF assms(2)] by (rule map_add_assoc[symmetric])
  moreover have "dom (map_of (skipped R')) \<inter> dom new = {}"
    using assms(1,2) unfolding assms(4) expects_def dom_map_add by blast
  ultimately show ?thesis using assms(1,3,5) unfolding expects_def by metis
qed

text \<open>
  The first message of a new chain of the peer: the tail of the old chain is cached, the
  asymmetric step gives the chain the sender is on, and decryption goes on as if \<open>R\<close> had
  been on the new chain all along.
\<close>

lemma decrypt_new:
  assumes "gcm_correct P" "tail_of P R pn old" "expects P R (rng P (rp_encode p) c 0 b ++ old) F"
    and "\<And>k. old (rp_encode p, k) = None" "peer_ratchet R \<noteq> Some p" "pub_ok p" "rp_profile p = profile R"
    and "self_ratchet R = Some sec" "step_from P sec p (hd_ct h) = Inr ikm" "kdf_rk P (ss_root R) ikm = (root, c)"
    and "F key = Some (h, w, pt)" "hd_pn h = pn" "card (dom F) \<le> MAX_SKIP"
    and "rng P (rp_encode p) c 0 b key \<noteq> None"
  shows "\<exists>sk n. let R' = R\<lparr>ss_root := root, peer_ratchet := Some p, need_send_ratchet := True,
        recv_ck := Some (chain_at P c (unat n)), recv_n := n, skipped := sk\<rparr>
    in decrypt P R w = (Inr pt, R') \<and> recv_at P R' p c \<and> n \<le> b \<and>
       expects P R' (rng P (rp_encode p) c n b) (F(key := None))"
proof -
  note m = pending_message[OF assms(3,4,11,14,6,7)]
  obtain ck rn sk1 where s1: "skip_recv P R pn = Inr (R\<lparr>recv_ck := ck, recv_n := rn, skipped := sk1\<rparr>)"
    "distinct (map fst sk1)" "map_of sk1 = map_of (skipped R) ++ old"
    using tail_skip[OF assms(2,3,13)] by blast
  let ?R2 = "R\<lparr>ss_root := root, peer_ratchet := Some p, need_send_ratchet := True,
        recv_ck := Some c, recv_n := 0, skipped := sk1\<rparr>"
  have ex: "expects P ?R2 (rng P (rp_encode p) c (recv_n ?R2) b) F"
  proof -
    have "dom (rng P (rp_encode p) c 0 b) \<inter> dom old = {}" using assms(4) unfolding dom_rng by auto
    from expects_cache[OF assms(3) this, of ?R2] show ?thesis using s1(2,3) by simp
  qed
  have ra: "recv_at P ?R2 p c" using assms(6,7) by (simp add: recv_at_def)
  have step: "ratchet_recv P (R\<lparr>recv_ck := ck, recv_n := rn, skipped := sk1\<rparr>) h = Inr ?R2"
    using assms(8-10) m(2) by (simp add: ratchet_recv_def)
  obtain sk n where cur: "decrypt P ?R2 w = (Inr pt, ?R2\<lparr>recv_ck := Some (chain_at P c (unat n)), recv_n := n, skipped := sk\<rparr>)"
    "recv_at P (?R2\<lparr>recv_ck := Some (chain_at P c (unat n)), recv_n := n, skipped := sk\<rparr>) p c" "n \<le> b"
    "expects P (?R2\<lparr>recv_ck := Some (chain_at P c (unat n)), recv_n := n, skipped := sk\<rparr>) (rng P (rp_encode p) c n b) (F(key := None))"
  proof -
    have k: "rng P (rp_encode p) c (recv_n ?R2) b key \<noteq> None" using assms(14) by simp
    from decrypt_current[where other = Map.empty, unfolded map_add_empty Let_def, OF assms(1) ra ex refl assms(11,13) k]
    show thesis using that by blast
  qed
  have "decrypt P R w = decrypt P ?R2 w"
  proof -
    obtain ct where d: "\<And>s. rp_profile (ratchet_pub h) = profile s \<Longrightarrow>
        decrypt_inner P s w = decrypt_body P s h ct (header_encode h)"
      using decrypt_genuine[OF assms(1) m(6)] by blast
    have "map_of sk1 key = None"
      unfolding s1(3) using m(7) assms(4)[of "hd_n h"] by (simp add: m(1) map_add_def)
    then have "decrypt_body P R h ct (header_encode h) = decrypt_body P ?R2 h ct (header_encode h)"
      using assms(5,12) m(1,2,7) s1(1) step
      by (auto simp: decrypt_body_def try_skipped_def split: option.split)
    then show ?thesis using d m(2) assms(7) cur(1) by (simp add: decrypt_def split: sum.splits prod.splits)
  qed
  then show ?thesis using cur by (intro exI[of _ sk] exI[of _ n]) (simp add: Let_def)
qed

section \<open>The three states of a direction\<close>

text \<open>No message was ever sent.\<close>

definition flow_idle :: "session \<Rightarrow> session \<Rightarrow> flight \<Rightarrow> bool" where
  "flow_idle S R F \<longleftrightarrow> send_ck S = None \<and> send_n S = 0 \<and> recv_ck R = None \<and> skipped R = [] \<and> F = Map.empty"

definition numbered :: "session \<Rightarrow> ratchet_public \<Rightarrow> flight \<Rightarrow> bool" where
  "numbered S p F \<longleftrightarrow> (\<forall>k. F (rp_encode p, k) \<noteq> None \<longrightarrow> k < send_n S)"

text \<open>The receiver is on the chain the sender is on.\<close>

definition flow_same :: "prims \<Rightarrow> session \<Rightarrow> session \<Rightarrow> flight \<Rightarrow> bool" where
  "flow_same P S R F \<longleftrightarrow> (\<exists>p c. send_at P S p c \<and> recv_at P R p c \<and> recv_n R \<le> send_n S \<and> numbered S p F \<and>
     expects P R (rng P (rp_encode p) c (recv_n R) (send_n S)) F)"

text \<open>The sender has taken an asymmetric step that the receiver has not seen yet.\<close>

definition flow_behind :: "prims \<Rightarrow> session \<Rightarrow> session \<Rightarrow> flight \<Rightarrow> bool" where
  "flow_behind P S R F \<longleftrightarrow> (\<exists>p c sec ikm old. send_at P S p c \<and> numbered S p F \<and>
     self_ratchet R = Some sec \<and> step_from P sec p (self_send_ct S) = Inr ikm \<and>
     kdf_rk P (ss_root R) ikm = (ss_root S, c) \<and> peer_ratchet R \<noteq> Some p \<and>
     (\<forall>k. old (rp_encode p, k) = None) \<and> (\<forall>k. map_of (skipped R) (rp_encode p, k) = None) \<and>
     tail_of P R (prev_send_n S) old \<and> expects P R (rng P (rp_encode p) c 0 (send_n S) ++ old) F \<and>
     (\<forall>k h w pt. F (rp_encode p, k) = Some (h, w, pt) \<longrightarrow> hd_ct h = self_send_ct S \<and> hd_pn h = prev_send_n S))"

abbreviation moved :: "session \<Rightarrow> bytes option \<Rightarrow> u32 \<Rightarrow> ((bytes \<times> u32) \<times> bytes) list \<Rightarrow> session" where
  "moved R ck n sk \<equiv> R\<lparr>recv_ck := ck, recv_n := n, skipped := sk\<rparr>"

lemma moved_self: "moved R (recv_ck R) (recv_n R) sk = R\<lparr>skipped := sk\<rparr>"
  by (rule session.equality) simp_all

lemma numbered_remove: "numbered S p F \<Longrightarrow> numbered S p (F(key := None))"
  unfolding numbered_def by (metis fun_upd_apply)

lemma recv_same:
  assumes "gcm_correct P" "flow_same P S R F" "F key = Some (h, w, pt)" "card (dom F) \<le> MAX_SKIP"
  shows "\<exists>ck n sk. decrypt P R w = (Inr pt, moved R ck n sk) \<and> flow_same P S (moved R ck n sk) (F(key := None))"
proof -
  obtain p c where f: "send_at P S p c" "recv_at P R p c" "recv_n R \<le> send_n S" "numbered S p F"
    "expects P R (rng P (rp_encode p) c (recv_n R) (send_n S)) F"
    using assms(2) unfolding flow_same_def by blast
  note num = numbered_remove[OF f(4)]
  show ?thesis
  proof (cases "rng P (rp_encode p) c (recv_n R) (send_n S) key = None")
    case True
    then have "key \<notin> dom (rng P (rp_encode p) c (recv_n R) (send_n S))" by (simp add: domIff)
    note d = decrypt_cached[OF assms(1) f(5) assms(3) this]
    have "flow_same P S (R\<lparr>skipped := AList.delete key (skipped R)\<rparr>) (F(key := None))"
      unfolding flow_same_def using f(1-3) num d(2)
      by (intro exI[of _ p] exI[of _ c]) (simp add: recv_at_def)
    with d(1) show ?thesis
      by (intro exI[of _ "recv_ck R"] exI[of _ "recv_n R"] exI[of _ "AList.delete key (skipped R)"])
        (simp only: moved_self)
  next
    case False
    from decrypt_current[where other = Map.empty, unfolded map_add_empty Let_def, OF assms(1) f(2,5) refl assms(3,4) False]
    obtain sk n where d: "decrypt P R w = (Inr pt, moved R (Some (chain_at P c (unat n))) n sk)"
      "recv_at P (moved R (Some (chain_at P c (unat n))) n sk) p c" "n \<le> send_n S"
      "expects P (moved R (Some (chain_at P c (unat n))) n sk) (rng P (rp_encode p) c n (send_n S)) (F(key := None))"
      by blast
    have "flow_same P S (moved R (Some (chain_at P c (unat n))) n sk) (F(key := None))"
      unfolding flow_same_def using f(1) num d(2-4)
      by (intro exI[of _ p] exI[of _ c]) simp
    with d(1) show ?thesis by blast
  qed
qed

end
