(* ===== verification/Conversation.thy ===== *)
theory Conversation
  imports RatchetRun
begin

text \<open>
  Runs of two Double Ratchet sessions. \<open>phase\<close> is how the two sessions relate at any
  moment (who took the last asymmetric step and whether the peer has seen it); every send
  and every receive keeps it. The property: whatever the interleaving, the reordering and
  the losses, a message in flight decrypts to the plaintext that was sent.
\<close>

section \<open>Receiving behind an asymmetric step\<close>

lemma flow_behindI:
  assumes "send_at P S p c" "numbered S p F" "self_ratchet R = Some sec"
    "step_from P sec p (self_send_ct S) = Inr ikm" "kdf_rk P (ss_root R) ikm = (ss_root S, c)"
    "peer_ratchet R \<noteq> Some p" "\<forall>k. old (rp_encode p, k) = None"
    "\<forall>k. map_of (skipped R) (rp_encode p, k) = None" "tail_of P R (prev_send_n S) old"
    "expects P R (rng P (rp_encode p) c 0 (send_n S) ++ old) F"
    "\<forall>k h w pt. F (rp_encode p, k) = Some (h, w, pt) \<longrightarrow> hd_ct h = self_send_ct S \<and> hd_pn h = prev_send_n S"
  shows "flow_behind P S R F"
  unfolding flow_behind_def using assms by blast

lemma ids_kept:
  assumes "fst ` dom (map_of sk) \<subseteq> insert i (fst ` dom (map_of sk0))" "i \<noteq> j" "\<forall>k. map_of sk0 (j, k) = None"
  shows "\<forall>k. map_of sk (j, k) = None"
proof (rule allI, rule ccontr)
  fix k assume "map_of sk (j, k) \<noteq> None"
  then have "j \<in> fst ` dom (map_of sk)" by (intro image_eqI[of _ _ "(j, k)"]) auto
  then have "j \<in> fst ` dom (map_of sk0)" using assms(1,2) by blast
  then show False using assms(3) by auto
qed

lemma recv_behind:
  assumes "gcm_correct P" "flow_behind P S R F" "F key = Some (h, w, pt)" "card (dom F) \<le> MAX_SKIP"
    and "profile S = profile R"
  shows "(\<exists>ck n sk. decrypt P R w = (Inr pt, moved R ck n sk) \<and> flow_behind P S (moved R ck n sk) (F(key := None))) \<or>
    (\<exists>p ck n sk. let R' = R\<lparr>ss_root := ss_root S, peer_ratchet := Some p, need_send_ratchet := True,
          recv_ck := ck, recv_n := n, skipped := sk\<rparr>
       in decrypt P R w = (Inr pt, R') \<and> self_ratchet_pub S = Some p \<and> fst key = rp_encode p \<and>
          flow_same P S R' (F(key := None)))"
proof -
  obtain p c sec ikm old where f: "send_at P S p c" "numbered S p F" "self_ratchet R = Some sec"
    "step_from P sec p (self_send_ct S) = Inr ikm" "kdf_rk P (ss_root R) ikm = (ss_root S, c)"
    "peer_ratchet R \<noteq> Some p" "\<forall>k. old (rp_encode p, k) = None"
    "\<forall>k. map_of (skipped R) (rp_encode p, k) = None" "tail_of P R (prev_send_n S) old"
    "expects P R (rng P (rp_encode p) c 0 (send_n S) ++ old) F"
    "\<forall>k h w pt. F (rp_encode p, k) = Some (h, w, pt) \<longrightarrow> hd_ct h = self_send_ct S \<and> hd_pn h = prev_send_n S"
    using assms(2) unfolding flow_behind_def by blast
  have pub: "self_ratchet_pub S = Some p" "pub_ok p" "rp_profile p = profile R"
    using f(1) assms(5) by (simp_all add: send_at_def)
  note num = numbered_remove[OF f(2)]
  have kept: "\<forall>k h w pt. (F(key := None)) (rp_encode p, k) = Some (h, w, pt) \<longrightarrow>
      hd_ct h = self_send_ct S \<and> hd_pn h = prev_send_n S"
    using f(11) by (metis fun_upd_apply option.discI)
  let ?new = "rng P (rp_encode p) c 0 (send_n S)"
  consider (new) "?new key \<noteq> None" | (old) "?new key = None" "old key \<noteq> None"
    | (cached) "key \<notin> dom (?new ++ old)"
    by (cases "?new key"; cases "old key") auto
  then show ?thesis
  proof cases
    case new
    then have key: "key = (rp_encode p, snd key)" by (cases key) (auto simp: rng_def split: if_splits)
    then have hd: "hd_ct h = self_send_ct S" "hd_pn h = prev_send_n S"
      using f(11) assms(3) by metis+
    from decrypt_new[unfolded Let_def, OF assms(1) f(9,10) _ f(6) pub(2,3) f(3) _ f(5) assms(3) hd(2) assms(4) new] f(4,7) hd(1)
    obtain sk n R' where R': "R' = R\<lparr>ss_root := ss_root S, peer_ratchet := Some p, need_send_ratchet := True,
          recv_ck := Some (chain_at P c (unat n)), recv_n := n, skipped := sk\<rparr>"
      and d: "decrypt P R w = (Inr pt, R')" "recv_at P R' p c" "n \<le> send_n S"
        "expects P R' (rng P (rp_encode p) c n (send_n S)) (F(key := None))"
      by auto
    have "recv_n R' = n" using R' by simp
    then have "flow_same P S R' (F(key := None))"
      unfolding flow_same_def using f(1) num d(2-4) by blast
    then show ?thesis unfolding Let_def using d(1) pub(1) key R' by (metis fst_conv)
  next
    case cached
    note d = decrypt_cached[OF assms(1) f(10) assms(3) cached]
    have "flow_behind P S (R\<lparr>skipped := AList.delete key (skipped R)\<rparr>) (F(key := None))"
      by (rule flow_behindI[OF f(1) num _ f(4) _ _ f(7) _ _ d(2) kept])
        (use f in \<open>auto simp: tail_of_def recv_at_def delete_conv' fun_upd_def\<close>)
    then have "\<exists>ck n sk. decrypt P R w = (Inr pt, moved R ck n sk) \<and> flow_behind P S (moved R ck n sk) (F(key := None))"
      using d(1) by (intro exI[of _ "recv_ck R"] exI[of _ "recv_n R"] exI[of _ "AList.delete key (skipped R)"])
        (simp only: moved_self)
    then show ?thesis by blast
  next
    case old
    then obtain p0 c0 where t: "recv_at P R p0 c0" "recv_n R \<le> prev_send_n S"
      "old = rng P (rp_encode p0) c0 (recv_n R) (prev_send_n S)"
      using f(9) unfolding tail_of_def by auto
    have ne: "rp_encode p0 \<noteq> rp_encode p"
      using old(2) f(7) unfolding t(3) by (cases key) (auto simp: rng_def split: if_splits)
    have comm: "?new ++ rng P (rp_encode p0) c0 a b = rng P (rp_encode p0) c0 a b ++ ?new" for a b
      using ne by (intro map_add_comm) (auto simp: dom_rng)
    have ex: "expects P R (rng P (rp_encode p0) c0 (recv_n R) (prev_send_n S) ++ ?new) F"
      using f(10) unfolding t(3) comm .
    from decrypt_current[unfolded Let_def, OF assms(1) t(1) ex _ assms(3,4)] ne old(2)
    obtain sk n where d: "decrypt P R w = (Inr pt, moved R (Some (chain_at P c0 (unat n))) n sk)"
      "recv_at P (moved R (Some (chain_at P c0 (unat n))) n sk) p0 c0" "n \<le> prev_send_n S"
      "fst ` dom (map_of sk) \<subseteq> insert (rp_encode p0) (fst ` dom (map_of (skipped R)))"
      "expects P (moved R (Some (chain_at P c0 (unat n))) n sk)
         (rng P (rp_encode p0) c0 n (prev_send_n S) ++ ?new) (F(key := None))"
      unfolding t(3) by auto
    let ?R = "moved R (Some (chain_at P c0 (unat n))) n sk"
    have "flow_behind P S ?R (F(key := None))"
    proof (rule flow_behindI[OF f(1) num _ f(4) _ _ _ _ _ _ kept])
      show "tail_of P ?R (prev_send_n S) (rng P (rp_encode p0) c0 n (prev_send_n S))"
        unfolding tail_of_def using d(2,3) by auto
      show "expects P ?R (?new ++ rng P (rp_encode p0) c0 n (prev_send_n S)) (F(key := None))"
        unfolding comm by (rule d(5))
    qed (use f ne ids_kept[OF d(4) ne f(8)] in simp_all)
    then show ?thesis using d(1) by blast
  qed
qed

section \<open>Sending\<close>

abbreviation header_now :: "session \<Rightarrow> ratchet_public \<Rightarrow> header" where
  "header_now S p \<equiv> \<lparr>ratchet_pub = p, hd_ct = self_send_ct S, hd_pn = prev_send_n S, hd_n = send_n S\<rparr>"

abbreviation sent :: "session \<Rightarrow> bytes \<Rightarrow> session" where
  "sent S ck \<equiv> S\<lparr>send_ck := Some ck, send_n := send_n S + 1\<rparr>"

lemma word_no_wrap: "(n :: u32) + 1 \<noteq> 0 \<Longrightarrow> n < - 1"
  by (metis add.commute add_eq_0_iff word_order.not_eq_extremum)

lemma send_chain:
  assumes "send_at P S p c" "encrypt_chain P S pt = Some (Inr w, S')" "send_n S' \<noteq> 0" "length w \<le> MAX_FRAME"
  shows "S' = sent S (chain_at P c (unat (send_n S + 1)))" "genuine P (header_now S p) (seed_at P c (unat (send_n S))) pt w"
    and "send_at P S' p c" "send_n S < - 1"
proof -
  have at: "self_ratchet_pub S = Some p" "send_ck S = Some (chain_at P c (unat (send_n S)))" "pub_ok p" "frame_sized (self_send_ct S)"
    using assms(1) by (simp_all add: send_at_def)
  obtain key nonce ct where k: "kdf_mk P (seed_at P c (unat (send_n S))) = (key, nonce)"
    and seal: "aead_seal P key nonce pt (header_encode (header_now S p)) = Inr ct"
    and w: "w = bytes_enc (header_encode (header_now S p)) @ bytes_enc ct"
    and S': "S' = sent S (chain_at P c (Suc (unat (send_n S))))"
    using assms(2) at(1,2)
    by (auto simp: encrypt_chain_def Let_def kdf_ck_chain into_vec_def codec_simps simp del: chain_at.simps
        split: prod.splits sum.splits)
  have "send_n S + 1 \<noteq> 0" using assms(3) S' by simp
  then show lt: "send_n S < - 1" by (rule word_no_wrap)
  show S2: "S' = sent S (chain_at P c (unat (send_n S + 1)))" using S' unat_Suc_word[OF lt] by simp
  show "send_at P S' p c" using assms(1) unfolding S2 by (simp add: send_at_def)
  show "genuine P (header_now S p) (seed_at P c (unat (send_n S))) pt w"
    using k seal w at(3,4) assms(4) by (simp add: genuine_def header_ok_def)
qed

lemma rng_extend:
  assumes "a \<le> b" "b < - 1"
  shows "rng P i c a (b + 1) = (rng P i c a b)((i, b) \<mapsto> seed_at P c (unat b))"
proof -
  have "k < b + 1 \<longleftrightarrow> k < b \<or> k = b" for k
    using word_less_Suc[OF assms(2), of k] by auto
  then have "rng P i c a (b + 1) (j, k) = ((rng P i c a b)((i, b) \<mapsto> seed_at P c (unat b))) (j, k)" for j k
    using assms(1) by (auto simp: rng_def)
  then show ?thesis by (intro ext) (metis surj_pair)
qed

lemma ledger_insert:
  assumes "ledger P pr E F" "genuine P h seed pt w" "rp_profile (ratchet_pub h) = pr" "hd_n h < - 1"
  shows "ledger P pr (E(key_of h \<mapsto> seed)) (F(key_of h \<mapsto> (h, w, pt)))"
proof -
  have "finite (dom (F(key_of h \<mapsto> (h, w, pt))))" "dom (E(key_of h \<mapsto> seed)) = dom (F(key_of h \<mapsto> (h, w, pt)))"
    using assms(1) unfolding ledger_def by simp_all
  moreover have "k = key_of h' \<and> genuine P h' (the ((E(key_of h \<mapsto> seed)) k)) pt' w' \<and> rp_profile (ratchet_pub h') = pr \<and> hd_n h' < - 1"
    if "(F(key_of h \<mapsto> (h, w, pt))) k = Some (h', w', pt')" for k h' w' pt'
    using that assms ledger_msg[OF assms(1), of k h' w' pt'] by (cases "k = key_of h") auto
  ultimately show ?thesis unfolding ledger_def by blast
qed

lemma expects_extend:
  assumes "expects P R (rng P (rp_encode p) c a b ++ other) F" "a \<le> b" "b < - 1"
    and "genuine P h (seed_at P c (unat b)) pt w" "ratchet_pub h = p" "hd_n h = b" "rp_profile p = profile R"
    and "other (rp_encode p, b) = None" "F (rp_encode p, b) = None"
  shows "expects P R (rng P (rp_encode p) c a (b + 1) ++ other) (F((rp_encode p, b) \<mapsto> (h, w, pt)))"
proof -
  let ?k = "(rp_encode p, b)"
  have e: "distinct (map fst (skipped R))" "dom (map_of (skipped R)) \<inter> dom (rng P (rp_encode p) c a b ++ other) = {}"
    and led: "ledger P (profile R) (map_of (skipped R) ++ (rng P (rp_encode p) c a b ++ other)) F"
    using assms(1)[unfolded expects_def, THEN conjunct1] assms(1)[unfolded expects_def, THEN conjunct2, THEN conjunct1]
      assms(1)[unfolded expects_def, THEN conjunct2, THEN conjunct2] by -
  have pend: "rng P (rp_encode p) c a (b + 1) ++ other = (rng P (rp_encode p) c a b ++ other)(?k \<mapsto> seed_at P c (unat b))"
    unfolding rng_extend[OF assms(2,3)] using assms(8) by (intro map_add_upd_left) (simp add: domIff)
  have "dom (map_of (skipped R)) \<subseteq> dom (map_of (skipped R) ++ (rng P (rp_encode p) c a b ++ other))"
    unfolding dom_map_add by blast
  also have "\<dots> = dom F" by (rule led[unfolded ledger_def, THEN conjunct2, THEN conjunct1])
  finally have sub: "dom (map_of (skipped R)) \<subseteq> dom F" .
  have "?k \<notin> dom F" unfolding domIff using assms(9) by blast
  with sub have nk: "?k \<notin> dom (map_of (skipped R))" by (rule contra_subsetD)
  have "dom (rng P (rp_encode p) c a (b + 1) ++ other) = insert ?k (dom (rng P (rp_encode p) c a b ++ other))"
    unfolding pend dom_fun_upd by simp
  then have "dom (map_of (skipped R)) \<inter> dom (rng P (rp_encode p) c a (b + 1) ++ other) = {}"
    by (simp only: Int_insert_right_if0[OF nk] e(2))
  moreover have "ledger P (profile R) (map_of (skipped R) ++ (rng P (rp_encode p) c a (b + 1) ++ other)) (F(?k \<mapsto> (h, w, pt)))"
    unfolding pend map_add_upd using ledger_insert[OF led assms(4)] assms(3) unfolding assms(5-7) by blast
  ultimately show ?thesis using e(1) unfolding expects_def by blast
qed

lemma send_same:
  assumes "flow_same P S R F" "profile S = profile R" "encrypt_chain P S pt = Some (Inr w, S')"
    and "send_n S' \<noteq> 0" "length w \<le> MAX_FRAME"
  shows "\<exists>p ck. S' = sent S ck \<and> self_ratchet_pub S = Some p \<and> F (key_of (header_now S p)) = None \<and>
    flow_same P S' R (F(key_of (header_now S p) \<mapsto> (header_now S p, w, pt)))"
proof -
  obtain p c where f: "send_at P S p c" "recv_at P R p c" "recv_n R \<le> send_n S" "numbered S p F"
    "expects P R (rng P (rp_encode p) c (recv_n R) (send_n S)) F"
    using assms(1) unfolding flow_same_def by blast
  note c = send_chain[OF f(1) assms(3-5)]
  have pub: "self_ratchet_pub S = Some p" "rp_profile p = profile R" using f(1) assms(2) by (simp_all add: send_at_def)
  have none: "F (rp_encode p, send_n S) = None" using f(4) unfolding numbered_def by blast
  have n: "send_n S' = send_n S + 1" using c(1) by simp
  have ex: "expects P R (rng P (rp_encode p) c (recv_n R) (send_n S')) (F((rp_encode p, send_n S) \<mapsto> (header_now S p, w, pt)))"
    using expects_extend[where other = Map.empty, unfolded map_add_empty, OF f(5,3) c(4,2) _ _ pub(2) refl none]
    unfolding n by simp
  have "numbered S' p (F((rp_encode p, send_n S) \<mapsto> (header_now S p, w, pt)))"
    using f(4) word_less_Suc[OF c(4)] unfolding numbered_def n by (auto simp: less_imp_le)
  moreover have "recv_n R \<le> send_n S'" using f(3) word_less_Suc[OF c(4), of "recv_n R"] unfolding n by simp
  ultimately have "flow_same P S' R (F((rp_encode p, send_n S) \<mapsto> (header_now S p, w, pt)))"
    unfolding flow_same_def using c(3) f(2) ex by blast
  then show ?thesis using c(1) pub(1) none by (intro exI[of _ p]) auto
qed

lemma send_behind:
  assumes "flow_behind P S R F" "profile S = profile R" "encrypt_chain P S pt = Some (Inr w, S')"
    and "send_n S' \<noteq> 0" "length w \<le> MAX_FRAME"
  shows "\<exists>p ck. S' = sent S ck \<and> self_ratchet_pub S = Some p \<and> F (key_of (header_now S p)) = None \<and>
    flow_behind P S' R (F(key_of (header_now S p) \<mapsto> (header_now S p, w, pt)))"
proof -
  obtain p c sec ikm old where f: "send_at P S p c" "numbered S p F" "self_ratchet R = Some sec"
    "step_from P sec p (self_send_ct S) = Inr ikm" "kdf_rk P (ss_root R) ikm = (ss_root S, c)"
    "peer_ratchet R \<noteq> Some p" "\<forall>k. old (rp_encode p, k) = None"
    "\<forall>k. map_of (skipped R) (rp_encode p, k) = None" "tail_of P R (prev_send_n S) old"
    "expects P R (rng P (rp_encode p) c 0 (send_n S) ++ old) F"
    "\<forall>k h w pt. F (rp_encode p, k) = Some (h, w, pt) \<longrightarrow> hd_ct h = self_send_ct S \<and> hd_pn h = prev_send_n S"
    using assms(1) unfolding flow_behind_def by blast
  note c = send_chain[OF f(1) assms(3-5)]
  have pub: "self_ratchet_pub S = Some p" "rp_profile p = profile R" using f(1) assms(2) by (simp_all add: send_at_def)
  have none: "F (rp_encode p, send_n S) = None" using f(2) unfolding numbered_def by blast
  have S': "send_n S' = send_n S + 1" "self_send_ct S' = self_send_ct S" "ss_root S' = ss_root S" "prev_send_n S' = prev_send_n S"
    using c(1) by simp_all
  have old: "old (rp_encode p, send_n S) = None" using f(7) by blast
  have ex: "expects P R (rng P (rp_encode p) c 0 (send_n S') ++ old) (F((rp_encode p, send_n S) \<mapsto> (header_now S p, w, pt)))"
    using expects_extend[OF f(10) _ c(4,2) _ _ pub(2) old none] unfolding S' by simp
  have num: "numbered S' p (F((rp_encode p, send_n S) \<mapsto> (header_now S p, w, pt)))"
    using f(2) word_less_Suc[OF c(4)] unfolding numbered_def S' by (auto simp: less_imp_le)
  have "flow_behind P S' R (F((rp_encode p, send_n S) \<mapsto> (header_now S p, w, pt)))"
    by (rule flow_behindI[OF c(3) num f(3) _ _ f(6,7,8) _ ex]) (use f(4,5,9,11) in \<open>simp_all add: S'\<close>)
  then show ?thesis using c(1) pub(1) none by (intro exI[of _ p]) auto
qed

section \<open>Phases\<close>

text \<open>The key pair a party took its last asymmetric step with.\<close>

definition holds_key :: "prims \<Rightarrow> session \<Rightarrow> ratchet_public \<Rightarrow> bool" where
  "holds_key P X p \<longleftrightarrow> (\<exists>sec. self_ratchet X = Some sec \<and> key_pair P sec p) \<and>
     self_ratchet_pub X = Some p \<and> rp_profile p = profile X"

text \<open>\<open>X\<close> took the last asymmetric step and \<open>Y\<close> has seen it: \<open>Y\<close> steps next.\<close>

definition seen :: "prims \<Rightarrow> session \<Rightarrow> session \<Rightarrow> flight \<Rightarrow> flight \<Rightarrow> bool" where
  "seen P X Y FXY FYX \<longleftrightarrow> need_send_ratchet Y \<and> \<not> need_send_ratchet X \<and> ss_root X = ss_root Y \<and>
     (\<exists>p. holds_key P X p \<and> peer_ratchet Y = Some p) \<and>
     (flow_same P X Y FXY \<or> flow_idle X Y FXY \<and> peer_ratchet X = None) \<and>
     (flow_same P Y X FYX \<or> flow_idle Y X FYX)"

text \<open>\<open>X\<close> took the last asymmetric step and \<open>Y\<close> has not seen it.\<close>

definition unseen :: "prims \<Rightarrow> session \<Rightarrow> session \<Rightarrow> flight \<Rightarrow> flight \<Rightarrow> bool" where
  "unseen P X Y FXY FYX \<longleftrightarrow> \<not> need_send_ratchet X \<and> \<not> need_send_ratchet Y \<and>
     (\<exists>p. holds_key P X p) \<and> flow_behind P X Y FXY \<and>
     (flow_same P Y X FYX \<or> flow_idle Y X FYX \<and> peer_ratchet Y = None)"

definition phase :: "prims \<Rightarrow> session \<Rightarrow> session \<Rightarrow> flight \<Rightarrow> flight \<Rightarrow> bool" where
  "phase P X Y FXY FYX \<longleftrightarrow> seen P X Y FXY FYX \<or> unseen P X Y FXY FYX \<or> seen P Y X FYX FXY \<or> unseen P Y X FYX FXY"

lemma phase_swap: "phase P X Y FXY FYX \<longleftrightarrow> phase P Y X FYX FXY"
  unfolding phase_def by blast

text \<open>What a direction says does not depend on the other half of either session.\<close>

lemma flow_frame [simp]:
  "flow_same P (moved S ck n sk) R F = flow_same P S R F"
  "flow_idle (moved S ck n sk) R F = flow_idle S R F"
  "flow_behind P (moved S ck n sk) R F = flow_behind P S R F"
  "flow_same P S (sent R ck') F = flow_same P S R F"
  "flow_idle S (sent R ck') F = flow_idle S R F"
  "flow_behind P S (sent R ck') F = flow_behind P S R F"
  "flow_same P (S\<lparr>ss_root := r, peer_ratchet := q, need_send_ratchet := b\<rparr>) R F = flow_same P S R F"
  "flow_idle (S\<lparr>ss_root := r, peer_ratchet := q, need_send_ratchet := b\<rparr>) R F = flow_idle S R F"
  "holds_key P (moved S ck n sk) p = holds_key P S p"
  "holds_key P (sent S ck') p = holds_key P S p"
  by (simp_all add: flow_same_def flow_idle_def flow_behind_def send_at_def recv_at_def expects_def
      numbered_def tail_of_def holds_key_def)

lemma phase_recv:
  assumes "gcm_correct P" "phase P X Y FXY FYX" "profile X = profile Y"
    and "FXY key = Some (h, w, pt)" "card (dom FXY) \<le> MAX_SKIP"
  shows "\<exists>Y'. decrypt P Y w = (Inr pt, Y') \<and> phase P X Y' (FXY(key := None)) FYX \<and> profile Y' = profile Y \<and>
    (peer_ratchet Y' = peer_ratchet Y \<or> (\<exists>q. peer_ratchet Y' = Some q \<and> rp_encode q = fst key))"
proof -
  have notidle: "\<not> flow_idle X Y FXY" using assms(4) unfolding flow_idle_def by auto
  have same: ?thesis if fl: "flow_same P X Y FXY"
    and ph: "\<And>ck n sk. flow_same P X (moved Y ck n sk) (FXY(key := None)) \<Longrightarrow> phase P X (moved Y ck n sk) (FXY(key := None)) FYX"
  proof -
    obtain ck n sk where "decrypt P Y w = (Inr pt, moved Y ck n sk)" "flow_same P X (moved Y ck n sk) (FXY(key := None))"
      using recv_same[OF assms(1) fl assms(4,5)] by blast
    then show ?thesis using ph by (intro exI[of _ "moved Y ck n sk"]) simp
  qed
  from assms(2)[unfolded phase_def] consider "seen P X Y FXY FYX" | "unseen P X Y FXY FYX"
    | "seen P Y X FYX FXY" | "unseen P Y X FYX FXY" by blast
  then show ?thesis
  proof cases
    case 1
    show ?thesis by (rule same) (use 1 notidle in \<open>auto simp: seen_def phase_def\<close>)
  next
    case 3
    show ?thesis by (rule same) (use 3 notidle in \<open>auto simp: seen_def phase_def\<close>)
  next
    case 4
    show ?thesis by (rule same) (use 4 notidle in \<open>auto simp: unseen_def phase_def\<close>)
  next
    case 2
    then have fb: "flow_behind P X Y FXY" by (simp add: unseen_def)
    from recv_behind[OF assms(1) fb assms(4,5,3), unfolded Let_def] show ?thesis
    proof (elim disjE exE conjE)
      fix ck n sk
      assume "decrypt P Y w = (Inr pt, moved Y ck n sk)" "flow_behind P X (moved Y ck n sk) (FXY(key := None))"
      then show ?thesis using 2 by (intro exI[of _ "moved Y ck n sk"]) (auto simp: unseen_def phase_def)
    next
      fix p ck n sk
      let ?Y = "Y\<lparr>ss_root := ss_root X, peer_ratchet := Some p, need_send_ratchet := True,
          recv_ck := ck, recv_n := n, skipped := sk\<rparr>"
      assume a: "decrypt P Y w = (Inr pt, ?Y)" "self_ratchet_pub X = Some p" "fst key = rp_encode p"
        "flow_same P X ?Y (FXY(key := None))"
      have "holds_key P X p" using 2 a(2) by (auto simp: unseen_def holds_key_def)
      then have "seen P X ?Y (FXY(key := None)) FYX"
        using 2 a(4) unfolding seen_def unseen_def by auto
      then show ?thesis using a(1,3) by (intro exI[of _ ?Y]) (simp add: phase_def)
    qed
  qed
qed

text \<open>The identifiers in use in the direction to \<open>R\<close>; a new key must differ from them.\<close>

definition covers :: "bytes set \<Rightarrow> session \<Rightarrow> flight \<Rightarrow> bool" where
  "covers U R F \<longleftrightarrow> fst ` dom F \<subseteq> U \<and> (\<forall>q. peer_ratchet R = Some q \<longrightarrow> rp_encode q \<in> U)"

definition lawful :: "prims \<Rightarrow> bool" where
  "lawful P \<longleftrightarrow> kmac_sized P \<and> gcm_correct P \<and> kem_correct P \<and> kem_sized P \<and> x_agrees P"

lemma ratchet_send_Ok:
  assumes "ratchet_send P coins X = Some (Inr u, X1)"
  obtains q sec p ct ikm root c where "peer_ratchet X = Some q" "rk_generate P (fst coins) (profile X) = Some (sec, p)"
    and "step_to P (snd coins) sec q = Inr (ct, ikm)" "kdf_rk P (ss_root X) ikm = (root, c)"
    and "X1 = X\<lparr>ss_root := root, prev_send_n := send_n X, send_n := 0, send_ck := Some c, self_ratchet := Some sec,
             self_ratchet_pub := Some p, self_send_ct := ct, need_send_ratchet := False\<rparr>"
proof -
  obtain q where q: "peer_ratchet X = Some q" using assms by (auto simp: ratchet_send_def split: option.splits)
  obtain sec p where g: "rk_generate P (fst coins) (profile X) = Some (sec, p)"
    using assms q by (auto simp: ratchet_send_def bind_eq_Some_conv)
  obtain ct ikm where st: "step_to P (snd coins) sec q = Inr (ct, ikm)"
    using assms q g by (cases "step_to P (snd coins) sec q") (auto simp: ratchet_send_def)
  obtain root c where k: "kdf_rk P (ss_root X) ikm = (root, c)" by fastforce
  show thesis using assms q g st k by (intro that[OF q g st k]) (simp add: ratchet_send_def)
qed

lemma skipped_ids:
  assumes "expects P R pend F" "map_of (skipped R) (j, k) \<noteq> None"
  shows "j \<in> fst ` dom F"
proof -
  have "dom (map_of (skipped R) ++ pend) = dom F"
    by (rule assms(1)[unfolded expects_def ledger_def, THEN conjunct2, THEN conjunct2, THEN conjunct2, THEN conjunct1])
  then have "(j, k) \<in> dom F" using assms(2) by auto
  then show ?thesis by (intro image_eqI[of _ _ "(j, k)"]) auto
qed

lemma step_behind:
  assumes "lawful P" "seen P Y X FYX FXY" "profile X = profile Y" "length (gc_x (fst coins)) = 32"
    and "ratchet_send P coins X = Some (Inr u, X1)" "self_ratchet_pub X1 = Some p" "rp_encode p \<notin> U" "covers U Y FXY"
  shows "flow_behind P X1 Y FXY" "holds_key P X1 p"
proof -
  obtain q sec p' ct ikm root c where g': "peer_ratchet X = Some q" "rk_generate P (fst coins) (profile X) = Some (sec, p')"
    "step_to P (snd coins) sec q = Inr (ct, ikm)" "kdf_rk P (ss_root X) ikm = (root, c)"
    and X1': "X1 = X\<lparr>ss_root := root, prev_send_n := send_n X, send_n := 0, send_ck := Some c, self_ratchet := Some sec,
             self_ratchet_pub := Some p', self_send_ct := ct, need_send_ratchet := False\<rparr>"
    by (rule ratchet_send_Ok[OF assms(5)])
  have "p' = p" using X1' assms(6) by simp
  note g = g'[unfolded this] and X1 = X1'[unfolded this]
  have law: "kem_correct P" "kem_sized P" "x_agrees P" using assms(1) by (simp_all add: lawful_def)
  obtain secy where y: "self_ratchet Y = Some secy" "key_pair P secy q" "rp_profile q = profile Y"
    using assms(2) g(1) by (auto simp: seen_def holds_key_def)
  note kp = rk_generate_pair[OF law(2,3) assms(4) g(2)]
  have prof: "rp_profile p = rp_profile q" using kp(2) y(3) assms(3) by simp
  note st = step_agrees[OF law kp(1) y(2) prof g(3)]
  have root: "ss_root Y = ss_root X" using assms(2) by (simp add: seen_def)
  show "holds_key P X1 p" unfolding holds_key_def X1 using kp by simp
  have sa: "send_at P X1 p c"
    unfolding send_at_def X1 using kp st(2) by (simp add: key_pair_def ek_ct_frame_sized)
  note cov = assms(8)[unfolded covers_def, THEN conjunct1] assms(8)[unfolded covers_def, THEN conjunct2]
  have fresh: "FXY (rp_encode p, k) = None" for k
  proof (rule ccontr)
    assume "FXY (rp_encode p, k) \<noteq> None"
    then have "rp_encode p \<in> fst ` dom FXY" by (intro image_eqI[of _ _ "(rp_encode p, k)"]) auto
    with cov(1) assms(7) show False by blast
  qed
  have peer: "peer_ratchet Y \<noteq> Some p" using assms(7) cov(2) by metis
  have behind: "flow_behind P X1 Y FXY"
    if tl: "tail_of P Y (send_n X) old" and no: "\<forall>k. old (rp_encode p, k) = None" and ex: "expects P Y old FXY" for old
  proof (rule flow_behindI[OF sa _ y(1) _ _ peer no])
    show "\<forall>k. map_of (skipped Y) (rp_encode p, k) = None"
    proof (intro allI, rule ccontr)
      fix k assume "map_of (skipped Y) (rp_encode p, k) \<noteq> None"
      from skipped_ids[OF ex this] cov(1) assms(7) show False by blast
    qed
    show "expects P Y (rng P (rp_encode p) c 0 (send_n X1) ++ old) FXY" using ex by (simp add: X1)
    show "numbered X1 p FXY" using fresh by (simp add: numbered_def)
    show "step_from P secy p (self_send_ct X1) = Inr ikm" using st(1) by (simp add: X1)
    show "kdf_rk P (ss_root Y) ikm = (ss_root X1, c)" unfolding root g(4) by (simp add: X1)
    show "tail_of P Y (prev_send_n X1) old" using tl by (simp add: X1)
  qed (simp add: fresh)
  have "flow_same P X Y FXY \<or> flow_idle X Y FXY" using assms(2) unfolding seen_def by blast
  then show "flow_behind P X1 Y FXY"
  proof (elim disjE)
    assume "flow_same P X Y FXY"
    then obtain p0 c0 where f: "recv_at P Y p0 c0" "recv_n Y \<le> send_n X"
      "expects P Y (rng P (rp_encode p0) c0 (recv_n Y) (send_n X)) FXY"
      unfolding flow_same_def by blast
    have "rp_encode p0 \<in> U" using f(1) assms(8) unfolding covers_def recv_at_def by blast
    then have "\<forall>k. rng P (rp_encode p0) c0 (recv_n Y) (send_n X) (rp_encode p, k) = None"
      using assms(7) by (auto simp: rng_def)
    then show ?thesis using behind f unfolding tail_of_def by blast
  next
    assume "flow_idle X Y FXY"
    then have i: "recv_ck Y = None" "skipped Y = []" "FXY = Map.empty" by (simp_all add: flow_idle_def)
    then have "expects P Y Map.empty FXY" by (simp add: expects_def ledger_def)
    then show ?thesis using behind[of Map.empty] i unfolding tail_of_def by simp
  qed
qed

text \<open>A send on the chain that is in place, and one that first takes the asymmetric step.\<close>

lemma phase_send_chain:
  assumes "phase P X Y FXY FYX" "profile X = profile Y" "\<not> need_send_ratchet X" "send_ck X \<noteq> None"
    and "encrypt_chain P X pt = Some (Inr w, X')" "send_n X' \<noteq> 0" "length w \<le> MAX_FRAME"
  shows "\<exists>p ck. X' = sent X ck \<and> self_ratchet_pub X = Some p \<and>
    phase P X' Y (FXY(key_of (header_now X p) \<mapsto> (header_now X p, w, pt))) FYX"
proof -
  have ni: "\<not> flow_idle X Y FXY" using assms(4) by (simp add: flow_idle_def)
  have same: ?thesis if fl: "flow_same P X Y FXY"
    and ph: "\<And>ck F'. flow_same P (sent X ck) Y F' \<Longrightarrow> phase P (sent X ck) Y F' FYX"
    using send_same[OF fl assms(2,5-7)] ph by blast
  from assms(1)[unfolded phase_def] consider "seen P X Y FXY FYX" | "unseen P X Y FXY FYX"
    | "seen P Y X FYX FXY" | "unseen P Y X FYX FXY" by blast
  then show ?thesis
  proof cases
    case 1
    show ?thesis by (rule same) (use 1 ni in \<open>auto simp: seen_def phase_def\<close>)
  next
    case 2
    then have fb: "flow_behind P X Y FXY" by (simp add: unseen_def)
    from send_behind[OF fb assms(2,5-7)] 2 show ?thesis by (auto simp: unseen_def phase_def)
  next
    case 3
    then show ?thesis using assms(3) by (simp add: seen_def)
  next
    case 4
    show ?thesis by (rule same) (use 4 ni in \<open>auto simp: unseen_def phase_def\<close>)
  qed
qed

lemma phase_step:
  assumes "lawful P" "phase P X Y FXY FYX" "profile X = profile Y" "length (gc_x (fst coins)) = 32"
    and "need_send_ratchet X \<or> send_ck X = None" "ratchet_send P coins X = Some (Inr u, X1)"
    and "self_ratchet_pub X1 = Some p" "rp_encode p \<notin> U" "covers U Y FXY"
  shows "phase P X1 Y FXY FYX" "profile X1 = profile X" "\<not> need_send_ratchet X1" "send_ck X1 \<noteq> None" "peer_ratchet X1 = peer_ratchet X"
proof -
  obtain q sec ct root c where q: "peer_ratchet X = Some q" and X1: "X1 = X\<lparr>ss_root := root, prev_send_n := send_n X,
      send_n := 0, send_ck := Some c, self_ratchet := Some sec, self_ratchet_pub := Some p, self_send_ct := ct,
      need_send_ratchet := False\<rparr>"
  proof (rule ratchet_send_Ok[OF assms(6)])
    fix q sec p' ct ikm root c
    assume "peer_ratchet X = Some q"
      and X: "X1 = X\<lparr>ss_root := root, prev_send_n := send_n X, send_n := 0, send_ck := Some c, self_ratchet := Some sec,
             self_ratchet_pub := Some p', self_send_ct := ct, need_send_ratchet := False\<rparr>"
    moreover have "p' = p" using assms(7) X by simp
    ultimately show thesis using that by blast
  qed
  have "seen P Y X FYX FXY"
    using assms(2,5) q unfolding phase_def
    by (auto simp: seen_def unseen_def flow_same_def flow_behind_def send_at_def)
  then have "flow_behind P X1 Y FXY" "holds_key P X1 p" and oth: "flow_same P Y X FYX \<or> flow_idle Y X FYX \<and> peer_ratchet Y = None"
    "\<not> need_send_ratchet Y"
    using step_behind[OF assms(1) _ assms(3,4,6-9)] unfolding seen_def by blast+
  moreover have "flow_same P Y X1 FYX = flow_same P Y X FYX" "flow_idle Y X1 FYX = flow_idle Y X FYX"
    unfolding X1 by (simp_all add: flow_same_def flow_idle_def recv_at_def expects_def)
  ultimately show "phase P X1 Y FXY FYX" unfolding phase_def unseen_def by (auto simp: X1)
qed (use assms(6) in \<open>auto elim!: ratchet_send_Ok\<close>)

section \<open>Runs\<close>

record world =
  alice :: session
  bob :: session
  to_bob :: flight
  to_alice :: flight
  used_ids :: "bytes set"

text \<open>
  A party encrypts a message, which joins the flight under its header. The conditions:
  the frame fits the wire, the 32-bit message number does not wrap, fewer than \<open>MAX_SKIP\<close>
  messages are outstanding, and a newly generated public key is fresh.
\<close>

definition sends :: "prims \<Rightarrow> step_coins \<Rightarrow> bytes \<Rightarrow> session \<Rightarrow> flight \<Rightarrow> bytes set \<Rightarrow>
    session \<Rightarrow> flight \<Rightarrow> bytes set \<Rightarrow> bool" where
  "sends P coins pt X F U X' F' U' \<longleftrightarrow> (\<exists>w p. encrypt P coins X pt = Some (Inr w, X') \<and>
     self_ratchet_pub X' = Some p \<and> length w \<le> MAX_FRAME \<and> send_n X' \<noteq> 0 \<and> card (dom F) < MAX_SKIP \<and>
     length (gc_x (fst coins)) = 32 \<and> (need_send_ratchet X \<or> send_ck X = None \<longrightarrow> rp_encode p \<notin> U) \<and>
     (let h = \<lparr>ratchet_pub = p, hd_ct = self_send_ct X', hd_pn = prev_send_n X', hd_n = send_n X' - 1\<rparr>
      in F' = F(key_of h \<mapsto> (h, w, pt))) \<and> U' = insert (rp_encode p) U)"

text \<open>A party decrypts any one of the messages in flight to it.\<close>

definition receives :: "prims \<Rightarrow> session \<Rightarrow> flight \<Rightarrow> session \<Rightarrow> flight \<Rightarrow> bool" where
  "receives P Y F Y' F' \<longleftrightarrow> (\<exists>key h w pt. F key = Some (h, w, pt) \<and> snd (decrypt P Y w) = Y' \<and> F' = F(key := None))"

inductive conv_step :: "prims \<Rightarrow> world \<Rightarrow> world \<Rightarrow> bool" for P where
  alice_sends: "sends P coins pt (alice W) (to_bob W) (used_ids W) X' F' U' \<Longrightarrow>
     conv_step P W (W\<lparr>alice := X', to_bob := F', used_ids := U'\<rparr>)"
| bob_sends: "sends P coins pt (bob W) (to_alice W) (used_ids W) X' F' U' \<Longrightarrow>
     conv_step P W (W\<lparr>bob := X', to_alice := F', used_ids := U'\<rparr>)"
| bob_receives: "receives P (bob W) (to_bob W) Y' F' \<Longrightarrow> conv_step P W (W\<lparr>bob := Y', to_bob := F'\<rparr>)"
| alice_receives: "receives P (alice W) (to_alice W) Y' F' \<Longrightarrow> conv_step P W (W\<lparr>alice := Y', to_alice := F'\<rparr>)"

definition conv_start :: "bytes \<Rightarrow> ratchet_secret \<Rightarrow> ratchet_public \<Rightarrow> world" where
  "conv_start root0 sec pub = \<lparr>alice = initiator root0 pub, bob = responder root0 sec pub,
     to_bob = Map.empty, to_alice = Map.empty, used_ids = {rp_encode pub}\<rparr>"

definition world_ok :: "prims \<Rightarrow> world \<Rightarrow> bool" where
  "world_ok P W \<longleftrightarrow> phase P (alice W) (bob W) (to_bob W) (to_alice W) \<and> profile (alice W) = profile (bob W) \<and>
     card (dom (to_bob W)) \<le> MAX_SKIP \<and> card (dom (to_alice W)) \<le> MAX_SKIP \<and>
     covers (used_ids W) (bob W) (to_bob W) \<and> covers (used_ids W) (alice W) (to_alice W)"

lemma covers_mono: "covers U R F \<Longrightarrow> U \<subseteq> U' \<Longrightarrow> peer_ratchet R' = peer_ratchet R \<Longrightarrow> covers U' R' F"
  unfolding covers_def by auto

lemma card_upd_Some: "finite (dom F) \<Longrightarrow> card (dom (F(k \<mapsto> v))) \<le> Suc (card (dom F))"
  by (simp add: card_insert_le_m1 card_insert_if)

lemma flight_finite:
  assumes "phase P X Y FXY FYX"
  shows "finite (dom FXY)"
proof -
  have "expects P R pend F \<Longrightarrow> finite (dom F)" for R pend F
    by (rule conjunct1) (unfold expects_def ledger_def, blast)
  then show ?thesis
    using assms unfolding phase_def seen_def unseen_def flow_same_def flow_behind_def flow_idle_def by auto
qed

lemma encrypt_chain_pub:
  assumes "encrypt_chain P X pt = Some (res, X')"
  shows "self_ratchet_pub X' = self_ratchet_pub X"
proof -
  obtain ck p where x: "send_ck X = Some ck" "self_ratchet_pub X = Some p"
    using assms by (auto simp: encrypt_chain_def Let_def split_beta bind_eq_Some_conv)
  obtain key nonce where k: "kdf_mk P (snd (kdf_ck P ck)) = (key, nonce)" by fastforce
  show ?thesis
    using assms x k by (cases "aead_seal P key nonce pt (header_encode (header_now X p))")
      (auto simp: encrypt_chain_def Let_def split_beta)
qed

lemma sends_ok:
  assumes "lawful P" "sends P coins pt X FXY U X' F' U'" "phase P X Y FXY FYX" "profile X = profile Y" "covers U Y FXY"
  shows "phase P X' Y F' FYX" "profile X' = profile X" "covers U' Y F'" "card (dom F') \<le> MAX_SKIP"
    and "peer_ratchet X' = peer_ratchet X" "U \<subseteq> U'"
proof -
  obtain w p where e: "encrypt P coins X pt = Some (Inr w, X')" "self_ratchet_pub X' = Some p" "length w \<le> MAX_FRAME"
    "send_n X' \<noteq> 0" "card (dom FXY) < MAX_SKIP" "length (gc_x (fst coins)) = 32"
    "need_send_ratchet X \<or> send_ck X = None \<longrightarrow> rp_encode p \<notin> U"
    and F': "F' = FXY(key_of (header_now (X'\<lparr>send_n := send_n X' - 1\<rparr>) p) \<mapsto> (header_now (X'\<lparr>send_n := send_n X' - 1\<rparr>) p, w, pt))"
    and U': "U' = insert (rp_encode p) U"
    using assms(2) by (auto simp: sends_def Let_def)
  have chain: "phase P X' Y F' FYX \<and> profile X' = profile X1 \<and> peer_ratchet X' = peer_ratchet X1"
    if ph: "phase P X1 Y FXY FYX" "profile X1 = profile Y" "\<not> need_send_ratchet X1" "send_ck X1 \<noteq> None"
      and enc: "encrypt_chain P X1 pt = Some (Inr w, X')" for X1
  proof -
    obtain q ck where c: "X' = sent X1 ck" "self_ratchet_pub X1 = Some q"
      "phase P X' Y (FXY(key_of (header_now X1 q) \<mapsto> (header_now X1 q, w, pt))) FYX"
      using phase_send_chain[OF ph enc e(4,3)] by blast
    have "q = p" "header_now (X'\<lparr>send_n := send_n X' - 1\<rparr>) p = header_now X1 p" using c(1,2) e(2) by simp_all
    then show ?thesis using c unfolding F' by simp
  qed
  have res: "phase P X' Y F' FYX \<and> profile X' = profile X \<and> peer_ratchet X' = peer_ratchet X"
  proof (cases "need_send_ratchet X \<or> send_ck X = None")
    case False
    then have "encrypt_chain P X pt = Some (Inr w, X')" using e(1) by (auto simp: encrypt_def)
    then show ?thesis using chain[OF assms(3,4)] False by blast
  next
    case True
    obtain res X1 where r: "ratchet_send P coins X = Some (res, X1)"
      "(case res of Inl e \<Rightarrow> Some (Inl e, X1) | Inr _ \<Rightarrow> encrypt_chain P X1 pt) = Some (Inr w, X')"
      using e(1) True by (auto simp: encrypt_def bind_eq_Some_conv)
    then obtain u where x: "ratchet_send P coins X = Some (Inr u, X1)" "encrypt_chain P X1 pt = Some (Inr w, X')"
      by (cases res) auto
    have pub: "self_ratchet_pub X1 = Some p"
      using encrypt_chain_pub[OF x(2)] e(2) by simp
    have fresh: "rp_encode p \<notin> U" using e(7) True by blast
    note st = phase_step[OF assms(1,3,4) e(6) True x(1) pub fresh assms(5)]
    show ?thesis using chain[OF st(1) _ st(3,4) x(2)] st(2,5) assms(4) by simp
  qed
  then show "phase P X' Y F' FYX" "profile X' = profile X" "peer_ratchet X' = peer_ratchet X" by blast+
  show "covers U' Y F'" using assms(5) unfolding covers_def F' U' by auto
  show "card (dom F') \<le> MAX_SKIP"
    using card_upd_Some[OF flight_finite[OF assms(3)]] e(5) unfolding F' by (meson Suc_leI le_trans)
  show "U \<subseteq> U'" unfolding U' by blast
qed

lemma receives_ok:
  assumes "lawful P" "receives P Y FXY Y' F'" "phase P X Y FXY FYX" "profile X = profile Y" "covers U Y FXY"
    and "card (dom FXY) \<le> MAX_SKIP"
  shows "phase P X Y' F' FYX" "profile Y' = profile Y" "covers U Y' F'" "card (dom F') \<le> MAX_SKIP"
proof -
  have gcm: "gcm_correct P" using assms(1) by (simp add: lawful_def)
  obtain key h w pt where r: "FXY key = Some (h, w, pt)" "snd (decrypt P Y w) = Y'" "F' = FXY(key := None)"
    using assms(2) by (auto simp: receives_def)
  from phase_recv[OF gcm assms(3,4) r(1) assms(6)] r(2,3)
  have p: "phase P X Y' F' FYX" "profile Y' = profile Y"
    "peer_ratchet Y' = peer_ratchet Y \<or> (\<exists>q. peer_ratchet Y' = Some q \<and> rp_encode q = fst key)" by auto
  then show "phase P X Y' F' FYX" "profile Y' = profile Y" by blast+
  have "fst key \<in> U" using r(1) assms(5) unfolding covers_def by (auto intro: rev_image_eqI)
  moreover have "fst ` dom F' \<subseteq> U" using assms(5) unfolding covers_def r(3) by auto
  ultimately show "covers U Y' F'" using p(3) assms(5) unfolding covers_def by auto
  have "card (dom F') \<le> card (dom FXY)"
    unfolding r(3) by (rule card_mono[OF flight_finite[OF assms(3)]]) auto
  then show "card (dom F') \<le> MAX_SKIP" using assms(6) by simp
qed

lemma world_ok_step:
  assumes "lawful P" "conv_step P W W'" "world_ok P W"
  shows "world_ok P W'"
proof -
  have w: "phase P (alice W) (bob W) (to_bob W) (to_alice W)" "profile (alice W) = profile (bob W)"
    "covers (used_ids W) (bob W) (to_bob W)" "covers (used_ids W) (alice W) (to_alice W)"
    "card (dom (to_bob W)) \<le> MAX_SKIP" "card (dom (to_alice W)) \<le> MAX_SKIP"
    using assms(3) by (simp_all add: world_ok_def)
  have w': "phase P (bob W) (alice W) (to_alice W) (to_bob W)" using w(1) phase_swap by blast
  show ?thesis
    using assms(2)
  proof cases
    case (alice_sends coins pt X' F' U')
    note k = sends_ok[OF assms(1) alice_sends(2) w(1,2,3)]
    show ?thesis unfolding world_ok_def alice_sends(1)
      using k w covers_mono[OF w(4) k(6,5)] by simp
  next
    case (bob_sends coins pt X' F' U')
    note k = sends_ok[OF assms(1) bob_sends(2) w' w(2)[symmetric] w(4)]
    show ?thesis unfolding world_ok_def bob_sends(1)
      using k w covers_mono[OF w(3) k(6,5)] k(1)[unfolded phase_swap[of P X']] by simp
  next
    case (bob_receives Y' F')
    note k = receives_ok[OF assms(1) bob_receives(2) w(1,2,3,5)]
    show ?thesis unfolding world_ok_def bob_receives(1) using k w by simp
  next
    case (alice_receives Y' F')
    note k = receives_ok[OF assms(1) alice_receives(2) w' w(2)[symmetric] w(4,6)]
    show ?thesis unfolding world_ok_def alice_receives(1)
      using k w k(1)[unfolded phase_swap[of P "bob W"]] by simp
  qed
qed

lemma world_ok_start:
  assumes "key_pair P sec pub"
  shows "world_ok P (conv_start root0 sec pub)"
proof -
  have "rs_profile sec = rp_profile pub" using assms by (simp add: key_pair_def)
  then have "seen P (responder root0 sec pub) (initiator root0 pub) Map.empty Map.empty"
    using assms by (auto simp: seen_def flow_idle_def holds_key_def initiator_def responder_def)
  then show ?thesis
    using assms by (simp add: world_ok_def phase_def conv_start_def covers_def initiator_def responder_def key_pair_def)
qed

section \<open>Properties\<close>

text \<open>
  C1. Conversations over the Double Ratchet deliver. Start an initiator and a responder
  from one root secret and a generated prekey, and let the parties encrypt and decrypt in
  any order, messages overtaking each other within a chain and across asymmetric steps,
  or never arriving. At every moment each message in flight decrypts at its receiver to
  the plaintext that was encrypted, as long as no more than \<open>MAX_SKIP\<close> messages are
  outstanding in a direction and generated keys are fresh.
\<close>

theorem conversation_delivers:
  assumes "lawful P" "rk_generate P c pr = Some (sec, pub)" "length (gc_x c) = 32"
    and "(conv_step P)\<^sup>*\<^sup>* (conv_start root0 sec pub) W"
  shows "(\<forall>key h w pt. to_bob W key = Some (h, w, pt) \<longrightarrow> fst (decrypt P (bob W) w) = Inr pt) \<and>
    (\<forall>key h w pt. to_alice W key = Some (h, w, pt) \<longrightarrow> fst (decrypt P (alice W) w) = Inr pt)"
proof -
  have "key_pair P sec pub"
    using rk_generate_pair(1)[OF _ _ assms(3,2)] assms(1) by (simp add: lawful_def)
  then have "world_ok P (conv_start root0 sec pub)" by (rule world_ok_start)
  from assms(4) this have ok: "world_ok P W"
    by (induction rule: rtranclp_induct) (use world_ok_step[OF assms(1)] in blast)+
  have gcm: "gcm_correct P" using assms(1) by (simp add: lawful_def)
  have w: "phase P (alice W) (bob W) (to_bob W) (to_alice W)" "profile (alice W) = profile (bob W)"
    "card (dom (to_bob W)) \<le> MAX_SKIP" "card (dom (to_alice W)) \<le> MAX_SKIP"
    using ok by (simp_all add: world_ok_def)
  then have w': "phase P (bob W) (alice W) (to_alice W) (to_bob W)" using phase_swap by blast
  show ?thesis
    using phase_recv[OF gcm w(1,2) _ w(3)] phase_recv[OF gcm w' w(2)[symmetric] _ w(4)] by fastforce
qed

lemma demo_lawful: "lawful demo_prims"
  using demo_prims_lawful by (simp add: lawful_def)

lemma demo_generate:
  "rk_generate demo_prims (demo_coins b) profile_pq_pure_compact = Some (demo_secret b, demo_public b)"
  by (simp add: rk_generate_def profile_pq_pure_compact_def pairwise_consistent_def encapsulate_def decapsulate_def
      demo_kem_gen_def demo_encap_def demo_decap_def fold_byte_eval hd_replicate sizes_pos Let_def)

theorem conversation_delivers_witness:
  "\<exists>W key h w. (conv_step demo_prims)\<^sup>*\<^sup>* (conv_start [1] (demo_secret 4) (demo_public 4)) W \<and>
     to_bob W key = Some (h, w, [7, 8]) \<and> fst (decrypt demo_prims (bob W) w) = Inr [7, 8]"
proof -
  let ?W = "conv_start [1] (demo_secret 4) (demo_public 4)"
  let ?c = "(demo_coins 2, [9])"
  have "\<exists>w X'. encrypt demo_prims ?c (alice ?W) [7, 8] = Some (Inr w, X') \<and> length w \<le> MAX_FRAME \<and>
      send_n X' = 1 \<and> self_ratchet_pub X' = Some (demo_public 2)"
  proof -
    have st: "step_to demo_prims [9] (demo_secret 2) (demo_public 4) = Inr (replicate CT_LEN 15, replicate 32 10)"
      by (simp add: step_to_def encapsulate_def combine_ikm_def profile_pq_pure_compact_def demo_encap_def
          fold_byte_eval hd_replicate sizes_pos to_32_def)
    obtain ck nxt seed key nonce root where k: "kdf_rk demo_prims [1] (replicate 32 10) = (root, ck)"
      "kdf_ck demo_prims ck = (nxt, seed)" "kdf_mk demo_prims seed = (key, nonce)" by fastforce
    have "length key = KEY_LEN" using kdf_lengths(5)[OF demo_prims_lawful(1), of seed] k(3) by simp
    then show ?thesis
      using st k
      by (simp add: encrypt_def conv_start_def initiator_def ratchet_send_def demo_generate encrypt_chain_def Let_def
          aead_seal_def demo_seal_def into_vec_def codec_simps bytes_enc_def header_encode_def rp_encode_def
          EK_LEN_def CT_LEN_def MAX_FRAME_def)
  qed
  then obtain w X' where e: "encrypt demo_prims ?c (alice ?W) [7, 8] = Some (Inr w, X')" "length w \<le> MAX_FRAME"
    "send_n X' = 1" "self_ratchet_pub X' = Some (demo_public 2)" by blast
  have ne: "rp_encode (demo_public 2) \<noteq> rp_encode (demo_public 4)"
    using rp_encode_inj[of "demo_public 2" "demo_public 4"] sizes_pos(1)
    by (auto simp: pub_ok_def profile_pq_pure_compact_def)
  let ?h = "\<lparr>ratchet_pub = demo_public 2, hd_ct = self_send_ct X', hd_pn = prev_send_n X', hd_n = send_n X' - 1\<rparr>"
  let ?F = "[key_of ?h \<mapsto> (?h, w, [7, 8])]" and ?U = "{rp_encode (demo_public 2), rp_encode (demo_public 4)}"
  have s: "sends demo_prims ?c [7, 8] (alice ?W) (to_bob ?W) (used_ids ?W) X' ?F ?U"
    unfolding sends_def Let_def using e ne by (auto simp: conv_start_def MAX_SKIP_def)
  let ?V = "?W\<lparr>alice := X', to_bob := ?F, used_ids := ?U\<rparr>"
  have run: "(conv_step demo_prims)\<^sup>*\<^sup>* ?W ?V" using alice_sends[OF s] by blast
  have m: "to_bob ?V (key_of ?h) = Some (?h, w, [7, 8])" by simp
  have "fst (decrypt demo_prims (bob ?V) w) = Inr [7, 8]"
    by (rule conversation_delivers[OF demo_lawful demo_generate _ run, THEN conjunct1, rule_format, OF _ m]) simp
  then show ?thesis using run m by blast
qed

end
