(* ===== verification/Frag.thy ===== *)
theory Frag
  imports Prelude
begin

text \<open>
  Fragmentation for low-bandwidth mesh links, \<open>src/crates/transport/src/mesh/frag.rs\<close>: the
  flat fragment header, the splitter, and the bounded reassembler. The \<open>HashMap\<close> of partial
  messages is an association list with distinct keys; \<open>accept\<close> returns its result beside the
  new state.
\<close>

section \<open>Fragments\<close>

definition MAGIC0 :: byte where "MAGIC0 = 0xA7"
definition MAGIC1 :: byte where "MAGIC1 = 0x6D"
definition FRAG_VERSION :: byte where "FRAG_VERSION = 1"
definition HEADER_LEN :: nat where "HEADER_LEN = 10"
definition KIND_ADVERT :: byte where "KIND_ADVERT = 0"
definition KIND_FRAME :: byte where "KIND_FRAME = 1"
definition MIN_MTU :: nat where "MIN_MTU = HEADER_LEN + 1"
definition MAX_FRAGMENTS :: nat where "MAX_FRAGMENTS = 256"

lemmas frag_consts = MAGIC0_def MAGIC1_def FRAG_VERSION_def HEADER_LEN_def KIND_ADVERT_def KIND_FRAME_def
  MIN_MTU_def MAX_FRAGMENTS_def

record fragment =
  fr_kind :: byte
  fr_msg_id :: u16
  fr_index :: u16
  fr_count :: u16
  fr_chunk :: bytes

definition parse_fragment :: "bytes \<Rightarrow> fragment option" where
  "parse_fragment packet =
     (if length packet < HEADER_LEN then None
      else if packet ! 0 \<noteq> MAGIC0 \<or> packet ! 1 \<noteq> MAGIC1 \<or> packet ! 2 \<noteq> FRAG_VERSION then None
      else
        let kind = packet ! 3;
            msg_id = u16_from_be [packet ! 4, packet ! 5];
            frag_index = u16_from_be [packet ! 6, packet ! 7];
            frag_count = u16_from_be [packet ! 8, packet ! 9]
        in if frag_count = 0 \<or> frag_index \<ge> frag_count \<or> unat frag_count > MAX_FRAGMENTS then None
           else Some \<lparr>fr_kind = kind, fr_msg_id = msg_id, fr_index = frag_index, fr_count = frag_count,
                      fr_chunk = drop HEADER_LEN packet\<rparr>)"

text \<open>The slice method \<open>chunks\<close>; the chunk size is positive at its only call.\<close>

function chunks :: "nat \<Rightarrow> bytes \<Rightarrow> bytes list" where
  "chunks n xs = (if xs = [] \<or> n = 0 then [] else take n xs # chunks n (drop n xs))"
  by pat_completeness auto
termination by (relation "measure (\<lambda>(n, xs). length xs)") auto

declare chunks.simps [simp del]

definition fragment_packet :: "byte \<Rightarrow> u16 \<Rightarrow> u16 \<Rightarrow> nat \<times> bytes \<Rightarrow> bytes" where
  "fragment_packet kind msg_id frag_count = (\<lambda>(i, chunk).
     [MAGIC0, MAGIC1, FRAG_VERSION, kind] @ u16_be msg_id @ u16_be (of_nat i) @ u16_be frag_count @ chunk)"

definition fragment_payload :: "byte \<Rightarrow> u16 \<Rightarrow> bytes \<Rightarrow> nat \<Rightarrow> bytes list option" where
  "fragment_payload kind msg_id payload mtu =
     (if mtu < MIN_MTU \<or> payload = [] then None
      else
        let chunk_size = mtu - HEADER_LEN;
            count = div_ceil (length payload) chunk_size
        in if count = 0 \<or> count > MAX_FRAGMENTS then None
           else Some (map (fragment_packet kind msg_id (of_nat count)) (enumerate 0 (chunks chunk_size payload))))"

section \<open>Reassembler\<close>

type_synonym frag_key = "str \<times> u16 \<times> byte"

record partial =
  pt_count :: u16
  pt_chunks :: "bytes option list"
  pt_have :: nat
  pt_bytes :: nat

record reassembler =
  partials :: "(frag_key \<times> partial) list"
  order :: "frag_key list"
  only_kind :: "byte option"
  max_messages :: nat
  max_bytes :: nat
  buffered :: nat

definition with_limits :: "nat \<Rightarrow> nat \<Rightarrow> reassembler" where
  "with_limits mm mb = \<lparr>partials = [], order = [], only_kind = None, max_messages = max mm 1,
     max_bytes = max mb 1, buffered = 0\<rparr>"

definition reassembler_default :: reassembler where
  "reassembler_default = with_limits 32 (1024 * 1024)"

definition for_kind :: "byte \<Rightarrow> reassembler" where
  "for_kind kind = reassembler_default\<lparr>only_kind := Some kind\<rparr>"

definition must_evict :: "reassembler \<Rightarrow> nat \<Rightarrow> bool" where
  "must_evict r incoming \<longleftrightarrow>
     (length (partials r) \<ge> max_messages r \<or> buffered r + incoming > max_bytes r) \<and> order r \<noteq> []"

definition evict_oldest :: "reassembler \<Rightarrow> reassembler" where
  "evict_oldest r =
     (let oldest = hd (order r); r = r\<lparr>order := tl (order r)\<rparr>
      in case map_of (partials r) oldest of
           Some p \<Rightarrow> r\<lparr>partials := AList.delete oldest (partials r), buffered := buffered r - pt_bytes p\<rparr>
         | None \<Rightarrow> r)"

lemma order_evict_oldest [simp]: "order (evict_oldest r) = tl (order r)"
  by (simp add: evict_oldest_def Let_def split: option.split)

function evict_if_needed :: "reassembler \<Rightarrow> nat \<Rightarrow> reassembler" where
  "evict_if_needed r incoming =
     (if must_evict r incoming then evict_if_needed (evict_oldest r) incoming else r)"
  by pat_completeness auto
termination by (relation "measure (\<lambda>(r, n). length (order r))") (auto simp: must_evict_def)

declare evict_if_needed.simps [simp del]

text \<open>\<open>accept\<close> in its three parts: the slot, the chunk, and the completed message.\<close>

definition fragment_slot :: "reassembler \<Rightarrow> frag_key \<Rightarrow> fragment \<Rightarrow> reassembler" where
  "fragment_slot r key frag =
     (if map_of (partials r) key = None then
        let r = evict_if_needed r (length (fr_chunk frag))
        in r\<lparr>partials := AList.update key \<lparr>pt_count = fr_count frag,
               pt_chunks = replicate (unat (fr_count frag)) None, pt_have = 0, pt_bytes = 0\<rparr> (partials r),
             order := order r @ [key]\<rparr>
      else r)"

definition put_chunk :: "partial \<Rightarrow> fragment \<Rightarrow> partial" where
  "put_chunk p frag =
     (if pt_chunks p ! unat (fr_index frag) = None then
        p\<lparr>pt_chunks := (pt_chunks p)[unat (fr_index frag) := Some (fr_chunk frag)],
          pt_have := pt_have p + 1, pt_bytes := pt_bytes p + length (fr_chunk frag)\<rparr>
      else p)"

definition unwrap_or_default :: "bytes option \<Rightarrow> bytes" where
  "unwrap_or_default x = (case x of Some c \<Rightarrow> c | None \<Rightarrow> [])"

text \<open>The updated partial \<open>p\<close> goes back into the table; a complete one is taken out and joined.\<close>

definition store_chunk :: "reassembler \<Rightarrow> frag_key \<Rightarrow> partial \<Rightarrow> partial \<Rightarrow> bytes option \<times> reassembler" where
  "store_chunk r key p0 p =
     (let r = r\<lparr>partials := AList.update key p (partials r),
                buffered := buffered r + (pt_bytes p - pt_bytes p0)\<rparr>
      in if pt_have p = unat (pt_count p) then
           (Some (concat (map unwrap_or_default (pt_chunks p))),
            r\<lparr>partials := AList.delete key (partials r), order := filter (\<lambda>k. k \<noteq> key) (order r),
              buffered := buffered r - pt_bytes p\<rparr>)
         else (None, r))"

definition accept :: "reassembler \<Rightarrow> str \<Rightarrow> bytes \<Rightarrow> bytes option \<times> reassembler" where
  "accept r source packet =
     (case parse_fragment packet of
        None \<Rightarrow> (None, r)
      | Some frag \<Rightarrow>
          if (case only_kind r of Some want \<Rightarrow> fr_kind frag \<noteq> want | None \<Rightarrow> False) then (None, r)
          else
            let key = (source, fr_msg_id frag, fr_kind frag);
                r = fragment_slot r key frag
            in case map_of (partials r) key of
                 None \<Rightarrow> (None, r)
               | Some p \<Rightarrow>
                   if pt_count p \<noteq> fr_count frag \<or> unat (fr_index frag) \<ge> length (pt_chunks p) then (None, r)
                   else store_chunk r key p (put_chunk p frag))"

definition in_flight :: "reassembler \<Rightarrow> nat" where
  "in_flight r = length (partials r)"

section \<open>Splitting\<close>

lemma concat_chunks: "0 < n \<Longrightarrow> concat (chunks n xs) = xs"
  by (induction n xs rule: chunks.induct) (subst chunks.simps, auto)

lemma chunks_sized: "c \<in> set (chunks n xs) \<Longrightarrow> length c \<le> n"
  by (induction n xs rule: chunks.induct) (subst (asm) (2) chunks.simps, auto split: if_splits)

lemma div_ceil_step: "0 < n \<Longrightarrow> 0 < m \<Longrightarrow> div_ceil m n = Suc (div_ceil (m - n) n)"
proof (cases "m < n")
  case False
  assume "0 < n"
  with False show ?thesis by (simp add: div_ceil_def le_div_geq le_mod_geq)
qed (simp add: div_ceil_def)

lemma length_chunks: "0 < n \<Longrightarrow> length (chunks n xs) = div_ceil (length xs) n"
proof (induction n xs rule: chunks.induct)
  case (1 n xs)
  show ?case
  proof (cases "xs = []")
    case True
    then show ?thesis by (subst chunks.simps) (simp add: div_ceil_def)
  next
    case False
    then show ?thesis using 1 div_ceil_step[of n "length xs"] by (subst chunks.simps) simp
  qed
qed

lemma parse_fragment_packet:
  assumes "i < unat count" "unat count \<le> MAX_FRAGMENTS"
  shows "parse_fragment (fragment_packet k m count (i, c)) =
    Some \<lparr>fr_kind = k, fr_msg_id = m, fr_index = of_nat i, fr_count = count, fr_chunk = c\<rparr>"
proof -
  have two: "\<exists>a b. u16_be w = [a, b]" for w
    using length_uN_be(1)[of w] by (cases "u16_be w" rule: list.exhaust) (auto simp: length_Suc_conv numeral_2_eq_2)
  obtain a b d e f g where w: "u16_be m = [a, b]" "u16_be (of_nat i) = [d, e]" "u16_be count = [f, g]"
    using two by meson
  have dec: "u16_from_be [a, b] = m" "u16_from_be [d, e] = of_nat i" "u16_from_be [f, g] = count"
    using u16_from_be_be w by metis+
  have ui: "unat (of_nat i :: u16) = i" using assms by (simp add: MAX_FRAGMENTS_def)
  have "count \<noteq> 0" "\<not> count \<le> of_nat i" using assms ui by (auto simp: word_le_nat_alt)
  then show ?thesis using dec assms(2)
    by (simp add: parse_fragment_def fragment_packet_def w frag_consts Let_def)
qed

lemma parse_fragment_wf:
  "parse_fragment q = Some f \<Longrightarrow> fr_index f < fr_count f \<and> 0 < unat (fr_count f) \<and> unat (fr_count f) \<le> MAX_FRAGMENTS"
  by (auto simp: parse_fragment_def Let_def not_le word_less_nat_alt unat_eq_0 split: if_splits)

text \<open>The packets \<open>frags\<close> of one message, as the chunks \<open>cs\<close> with header fields \<open>m\<close> and \<open>k\<close>.\<close>

definition carries :: "bytes list \<Rightarrow> byte \<Rightarrow> u16 \<Rightarrow> bytes list \<Rightarrow> bool" where
  "carries frags k m cs \<longleftrightarrow> length cs = length frags \<and> length cs \<le> MAX_FRAGMENTS \<and>
     (\<forall>i < length frags. parse_fragment (frags ! i) = Some \<lparr>fr_kind = k, fr_msg_id = m, fr_index = of_nat i,
        fr_count = of_nat (length frags), fr_chunk = cs ! i\<rparr>)"

lemma fragment_payload_split:
  assumes "fragment_payload k m payload mtu = Some pkts"
  shows "0 < length pkts \<and> (\<forall>q \<in> set pkts. length q \<le> mtu) \<and> (\<exists>cs. carries pkts k m cs \<and> concat cs = payload)"
proof -
  let ?n = "mtu - HEADER_LEN" and ?cs = "chunks (mtu - HEADER_LEN) payload"
  have mtu: "MIN_MTU \<le> mtu" "payload \<noteq> []"
    using assms by (auto simp: fragment_payload_def split: if_splits)
  then have pos: "0 < ?n" by (simp add: frag_consts)
  note len = length_chunks[OF pos, of payload]
  have p: "pkts = map (fragment_packet k m (of_nat (length ?cs))) (enumerate 0 ?cs)"
    and cnt: "0 < length ?cs" "length ?cs \<le> MAX_FRAGMENTS"
    using assms by (auto simp: fragment_payload_def Let_def len split: if_splits)
  have u: "unat (of_nat (length ?cs) :: u16) = length ?cs" using cnt by (simp add: MAX_FRAGMENTS_def)
  have "length q \<le> mtu" if "q \<in> set pkts" for q
  proof -
    obtain i where "i < length ?cs" "q = fragment_packet k m (of_nat (length ?cs)) (i, ?cs ! i)"
      using \<open>q \<in> set pkts\<close> by (auto simp: p in_set_conv_nth nth_enumerate_eq)
    then show ?thesis
      using chunks_sized[of "?cs ! i" ?n payload] mtu(1) by (simp add: fragment_packet_def frag_consts)
  qed
  moreover have "parse_fragment (pkts ! i) = Some \<lparr>fr_kind = k, fr_msg_id = m, fr_index = of_nat i,
      fr_count = of_nat (length pkts), fr_chunk = ?cs ! i\<rparr>" if "i < length pkts" for i
    using that cnt u by (simp add: p nth_enumerate_eq parse_fragment_packet)
  ultimately show ?thesis using p cnt concat_chunks[OF pos, of payload] by (auto intro!: exI[of _ ?cs] simp: carries_def)
qed


text \<open>
  Splitting: every payload that needs at most \<open>MAX_FRAGMENTS\<close> packets is split into
  packets of at most \<open>mtu\<close> bytes; the \<open>i\<close>-th parses to the \<open>i\<close>-th chunk with its index and
  the common count, and the chunks in order are the payload.
\<close>

lemma fragment_payload_parses:
  assumes "fragment_payload k m payload mtu = Some pkts"
  shows "0 < length pkts \<and> length pkts \<le> MAX_FRAGMENTS \<and> (\<forall>q \<in> set pkts. length q \<le> mtu) \<and>
    (\<exists>cs. length cs = length pkts \<and> concat cs = payload \<and>
      (\<forall>i < length pkts. parse_fragment (pkts ! i) = Some \<lparr>fr_kind = k, fr_msg_id = m, fr_index = of_nat i,
         fr_count = of_nat (length pkts), fr_chunk = cs ! i\<rparr>))"
  using fragment_payload_split[OF assms] by (auto simp: carries_def)

lemma fragment_payload_parses_witness:
  "\<exists>pkts. fragment_payload KIND_FRAME 7 [1, 2, 3, 4, 5] 12 = Some pkts \<and> 0 < length pkts \<and>
     (\<forall>q \<in> set pkts. length q \<le> 12)"
proof -
  have "\<exists>pkts. fragment_payload KIND_FRAME 7 [1, 2, 3, 4, 5] 12 = Some pkts"
    by (simp add: fragment_payload_def frag_consts div_ceil_def)
  then show ?thesis using fragment_payload_parses by meson
qed

section \<open>The reassembler invariant\<close>

definition buffered_in :: "bytes option list \<Rightarrow> nat" where
  "buffered_in cs = sum_list (map (length \<circ> unwrap_or_default) cs)"

definition present :: "bytes option list \<Rightarrow> nat" where
  "present cs = length (filter (\<lambda>c. c \<noteq> None) cs)"

definition partial_ok :: "partial \<Rightarrow> bool" where
  "partial_ok p \<longleftrightarrow> length (pt_chunks p) = unat (pt_count p) \<and> unat (pt_count p) \<le> MAX_FRAGMENTS \<and>
     pt_have p = present (pt_chunks p) \<and> pt_bytes p = buffered_in (pt_chunks p)"

definition reasm_ok :: "reassembler \<Rightarrow> bool" where
  "reasm_ok r \<longleftrightarrow> distinct (map fst (partials r)) \<and> distinct (order r) \<and> set (order r) = fst ` set (partials r) \<and>
     length (partials r) \<le> max_messages r \<and> 0 < max_messages r \<and>
     buffered r = sum_list (map (pt_bytes \<circ> snd) (partials r)) \<and>
     (\<forall>p \<in> snd ` set (partials r). partial_ok p \<and> pt_have p < unat (pt_count p))"

lemma present_update:
  "i < length cs \<Longrightarrow> cs ! i = None \<Longrightarrow> present (cs[i := Some c]) = Suc (present cs)"
  by (induction cs arbitrary: i) (auto simp: present_def nth_Cons split: nat.splits)

lemma buffered_in_update:
  "i < length cs \<Longrightarrow> cs ! i = None \<Longrightarrow> buffered_in (cs[i := Some c]) = buffered_in cs + length c"
  by (induction cs arbitrary: i) (auto simp: buffered_in_def unwrap_or_default_def nth_Cons split: nat.splits)

lemma present_replicate [simp]: "present (replicate n None) = 0"
  by (simp add: present_def)

lemma buffered_in_replicate [simp]: "buffered_in (replicate n None) = 0"
  by (simp add: buffered_in_def unwrap_or_default_def sum_list_replicate)

lemma present_le: "present cs \<le> length cs"
  by (simp add: present_def)

lemma put_chunk_ok:
  assumes "partial_ok p" "unat (fr_index f) < length (pt_chunks p)"
  shows "partial_ok (put_chunk p f)" "pt_count (put_chunk p f) = pt_count p"
    "pt_bytes p \<le> pt_bytes (put_chunk p f)"
  using assms by (auto simp: put_chunk_def partial_ok_def present_update buffered_in_update)

lemma evict_oldest_ok:
  assumes "reasm_ok r" "order r \<noteq> []"
  shows "reasm_ok (evict_oldest r)"
proof -
  obtain k ks where o: "order r = k # ks" using assms(2) by (cases "order r") auto
  have r: "distinct (map fst (partials r))" "distinct (k # ks)" "set (k # ks) = fst ` set (partials r)"
    using assms(1) o by (auto simp: reasm_ok_def)
  have "map_of (partials r) k \<noteq> None" unfolding map_of_eq_None_iff r(3)[symmetric] by simp
  then obtain p where p: "map_of (partials r) k = Some p" by blast
  let ?ps = "AList.delete k (partials r)"
  have e: "evict_oldest r = r\<lparr>order := ks, partials := ?ps, buffered := buffered r - pt_bytes p\<rparr>"
    using o p by (simp add: evict_oldest_def)
  have "set ks = fst ` set ?ps" using r(2,3) unfolding keys_delete by auto
  moreover have "length ?ps \<le> max_messages r" "0 < max_messages r"
    using assms(1) length_delete[of k "partials r"] by (simp_all add: reasm_ok_def)
  moreover have "\<forall>q \<in> snd ` set ?ps. partial_ok q \<and> pt_have q < unat (pt_count q)"
    using assms(1) values_delete[of k "partials r"] unfolding reasm_ok_def by blast
  moreover have "buffered r - pt_bytes p = sum_list (map (pt_bytes \<circ> snd) ?ps)"
    using assms(1) sum_delete[OF r(1) p, of pt_bytes] by (simp add: reasm_ok_def)
  moreover have "distinct (map fst ?ps)" "distinct ks" using distinct_delete[OF r(1)] r(2) by simp_all
  ultimately show ?thesis unfolding reasm_ok_def e by simp
qed

lemma evict_oldest_limits [simp]:
  "max_messages (evict_oldest r) = max_messages r" "max_bytes (evict_oldest r) = max_bytes r"
  "only_kind (evict_oldest r) = only_kind r"
  by (simp_all add: evict_oldest_def Let_def split: option.split)

lemma evict_oldest_keys: "fst ` set (partials (evict_oldest r)) \<subseteq> fst ` set (partials r)"
  by (simp add: evict_oldest_def Let_def keys_delete split: option.split)

lemma evict_ok:
  assumes "reasm_ok r"
  shows "reasm_ok (evict_if_needed r n) \<and> length (partials (evict_if_needed r n)) < max_messages r \<and>
    max_messages (evict_if_needed r n) = max_messages r \<and>
    fst ` set (partials (evict_if_needed r n)) \<subseteq> fst ` set (partials r)"
  using assms
proof (induction r n rule: evict_if_needed.induct)
  case (1 r n)
  show ?case
  proof (cases "must_evict r n")
    case True
    then have ne: "order r \<noteq> []" by (simp add: must_evict_def)
    have e: "evict_if_needed r n = evict_if_needed (evict_oldest r) n"
      using True by (subst evict_if_needed.simps) simp
    note ih = 1(1)[OF True evict_oldest_ok[OF 1(2) ne]]
    have "fst ` set (partials (evict_if_needed r n)) \<subseteq> fst ` set (partials r)"
      unfolding e by (rule order_trans[OF _ evict_oldest_keys]) (simp add: ih)
    then show ?thesis using ih unfolding e by simp
  next
    case False
    have "length (partials r) < max_messages r"
    proof (cases "order r = []")
      case True
      with 1(2) show ?thesis by (simp add: reasm_ok_def)
    qed (use False in \<open>simp add: must_evict_def\<close>)
    moreover have "evict_if_needed r n = r" using False by (subst evict_if_needed.simps) simp
    ultimately show ?thesis using 1(2) by simp
  qed
qed

lemma fragment_slot_ok:
  assumes "reasm_ok r" "0 < unat (fr_count f)" "unat (fr_count f) \<le> MAX_FRAGMENTS"
  shows "reasm_ok (fragment_slot r key f) \<and> map_of (partials (fragment_slot r key f)) key \<noteq> None"
proof (cases "map_of (partials r) key")
  case None
  define t where "t = evict_if_needed r (length (fr_chunk f))"
  let ?p = "\<lparr>pt_count = fr_count f, pt_chunks = replicate (unat (fr_count f)) None, pt_have = 0, pt_bytes = 0\<rparr>"
  have t: "reasm_ok t" "length (partials t) < max_messages t" "fst ` set (partials t) \<subseteq> fst ` set (partials r)"
    using evict_ok[OF assms(1), of "length (fr_chunk f)"] by (simp_all add: t_def)
  have "key \<notin> fst ` set (partials r)" using None by (simp add: map_of_eq_None_iff)
  then have fresh: "key \<notin> fst ` set (partials t)" "map_of (partials t) key = None"
    using t(3) by (auto simp: map_of_eq_None_iff)
  have s: "fragment_slot r key f = t\<lparr>partials := partials t @ [(key, ?p)], order := order t @ [key]\<rparr>"
    using None by (simp add: fragment_slot_def Let_def t_def[symmetric] update_absent[OF fresh(2)])
  have "partial_ok ?p" using assms(3) by (simp add: partial_ok_def)
  then show ?thesis
    using t(1,2) fresh assms(2) unfolding s reasm_ok_def by (simp add: map_of_append)
qed (use assms in \<open>simp add: fragment_slot_def\<close>)

lemma store_chunk_ok:
  assumes "reasm_ok r" "map_of (partials r) key = Some p"
    and "pt_count p = fr_count f" "unat (fr_index f) < length (pt_chunks p)"
  shows "reasm_ok (snd (store_chunk r key p (put_chunk p f)))"
proof -
  let ?q = "put_chunk p f" and ?ps = "AList.update key (put_chunk p f) (partials r)"
  have p: "partial_ok p" using assms(1) map_of_value[OF assms(2)] unfolding reasm_ok_def by blast
  note q = put_chunk_ok[OF p assms(4)]
  have d: "distinct (map fst (partials r))" using assms(1) by (simp add: reasm_ok_def)
  have s: "sum_list (map (pt_bytes \<circ> snd) ?ps) = buffered r + (pt_bytes ?q - pt_bytes p)"
    using sum_update[OF assms(2), of pt_bytes ?q] assms(1) q(3) by (simp add: reasm_ok_def)
  have u: "length ?ps = length (partials r)" "distinct (map fst ?ps)" "map_of ?ps key = Some ?q"
    using length_update_present[OF assms(2)] distinct_update[OF d] by (simp_all add: update_conv')
  have k: "key \<in> fst ` set (partials r)" using assms(2) by (metis map_of_eq_None_iff option.distinct(1))
  show ?thesis
  proof (cases "pt_have ?q = unat (pt_count ?q)")
    case True
    let ?ds = "AList.delete key (partials r)"
    have r': "snd (store_chunk r key p ?q) = r\<lparr>partials := ?ds, order := filter (\<lambda>k. k \<noteq> key) (order r),
        buffered := buffered r + (pt_bytes ?q - pt_bytes p) - pt_bytes ?q\<rparr>"
      using True by (simp add: store_chunk_def delete_update_same)
    have "set (filter (\<lambda>k. k \<noteq> key) (order r)) = fst ` set ?ds"
      using assms(1) unfolding keys_delete reasm_ok_def by auto
    moreover have "buffered r + (pt_bytes ?q - pt_bytes p) - pt_bytes ?q = sum_list (map (pt_bytes \<circ> snd) ?ds)"
      using sum_delete[OF d assms(2), of pt_bytes] assms(1) q(3) by (simp add: reasm_ok_def)
    moreover have "length ?ds \<le> max_messages r"
      using assms(1) length_delete[of key "partials r"] by (simp add: reasm_ok_def)
    moreover have "\<forall>x \<in> snd ` set ?ds. partial_ok x \<and> pt_have x < unat (pt_count x)"
      using assms(1) values_delete[of key "partials r"] unfolding reasm_ok_def by blast
    ultimately show ?thesis
      using assms(1) distinct_delete[OF d] unfolding r' by (simp add: reasm_ok_def)
  next
    case False
    have r': "snd (store_chunk r key p ?q) = r\<lparr>partials := ?ps, buffered := buffered r + (pt_bytes ?q - pt_bytes p)\<rparr>"
      using False by (simp add: store_chunk_def)
    have "pt_have ?q < unat (pt_count ?q)"
      using q(1) False present_le[of "pt_chunks ?q"] by (simp add: partial_ok_def)
    moreover have "\<forall>x \<in> snd ` set (partials r). partial_ok x \<and> pt_have x < unat (pt_count x)"
      using assms(1) unfolding reasm_ok_def by blast
    ultimately have "\<forall>x \<in> insert ?q (snd ` set (partials r)). partial_ok x \<and> pt_have x < unat (pt_count x)"
      using q(1) by (metis insertE)
    then have "\<forall>x \<in> snd ` set ?ps. partial_ok x \<and> pt_have x < unat (pt_count x)"
      using values_update[of key ?q "partials r"] by (meson in_mono)
    moreover have "set (order r) = fst ` set ?ps"
      using assms(1) insert_absorb[OF k] by (simp only: reasm_ok_def keys_update)
    ultimately show ?thesis using assms(1) s u unfolding r' by (simp add: reasm_ok_def)
  qed
qed

lemma accept_ok:
  assumes "reasm_ok r"
  shows "reasm_ok (snd (accept r src pkt))"
proof (cases "parse_fragment pkt")
  case (Some f)
  let ?key = "(src, fr_msg_id f, fr_kind f)"
  show ?thesis
  proof (cases "case only_kind r of Some want \<Rightarrow> fr_kind f \<noteq> want | None \<Rightarrow> False")
    case False
    define t where "t = fragment_slot r ?key f"
    have t: "reasm_ok t" "map_of (partials t) ?key \<noteq> None"
      using fragment_slot_ok[OF assms, of f ?key] parse_fragment_wf[OF Some] by (simp_all add: t_def)
    then obtain p where p: "map_of (partials t) ?key = Some p" by blast
    have acc: "accept r src pkt =
        (if pt_count p \<noteq> fr_count f \<or> unat (fr_index f) \<ge> length (pt_chunks p) then (None, t)
         else store_chunk t ?key p (put_chunk p f))"
      using Some False p by (simp add: accept_def Let_def t_def[symmetric] store_chunk_def)
    show ?thesis using t(1) store_chunk_ok[OF t(1) p] unfolding acc by simp
  qed (use assms Some in \<open>simp add: accept_def\<close>)
qed (use assms in \<open>simp add: accept_def\<close>)

lemma evict_limits:
  "max_messages (evict_if_needed r n) = max_messages r \<and> max_bytes (evict_if_needed r n) = max_bytes r \<and>
   only_kind (evict_if_needed r n) = only_kind r"
proof (induction r n rule: evict_if_needed.induct)
  case (1 r n)
  then show ?case by (cases "must_evict r n") (subst (1 2 3) evict_if_needed.simps, simp)+
qed

lemma fragment_slot_limits [simp]:
  "max_messages (fragment_slot r k f) = max_messages r" "max_bytes (fragment_slot r k f) = max_bytes r"
  "only_kind (fragment_slot r k f) = only_kind r"
  by (simp_all add: fragment_slot_def Let_def evict_limits)

lemma accept_limits [simp]:
  "max_messages (snd (accept r s q)) = max_messages r" "max_bytes (snd (accept r s q)) = max_bytes r"
  "only_kind (snd (accept r s q)) = only_kind r"
  by (simp_all add: accept_def store_chunk_def Let_def split: option.split)

inductive reasm_run :: "reassembler \<Rightarrow> bool" where
  fresh: "reasm_run (with_limits mm mb)"
| fresh_kind: "reasm_run (for_kind k)"
| accepts: "reasm_run r \<Longrightarrow> reasm_run (snd (accept r src pkt))"

lemma reasm_run_ok: "reasm_run r \<Longrightarrow> reasm_ok r"
  by (induction rule: reasm_run.induct)
    (simp_all add: accept_ok, simp_all add: reasm_ok_def with_limits_def for_kind_def reassembler_default_def)

text \<open>
  C21. Whatever packets arrive from whatever sources, the reassembler holds at most
  \<open>max_messages\<close> partial messages, one per key, tracks each of them exactly once in the
  eviction order, counts in \<open>buffered\<close> exactly the bytes it holds, and keeps only
  incomplete messages of at most \<open>MAX_FRAGMENTS\<close> slots.
\<close>

theorem reassembler_invariant:
  assumes "reasm_run r"
  shows "in_flight r \<le> max_messages r \<and> distinct (order r) \<and> set (order r) = fst ` set (partials r) \<and>
    buffered r = sum_list (map (buffered_in \<circ> pt_chunks \<circ> snd) (partials r)) \<and>
    (\<forall>p \<in> snd ` set (partials r). present (pt_chunks p) < length (pt_chunks p) \<and> length (pt_chunks p) \<le> MAX_FRAGMENTS)"
proof -
  note r = reasm_run_ok[OF assms, unfolded reasm_ok_def]
  have "map (pt_bytes \<circ> snd) (partials r) = map (buffered_in \<circ> pt_chunks \<circ> snd) (partials r)"
    using r by (auto simp: partial_ok_def)
  then have "buffered r = sum_list (map (buffered_in \<circ> pt_chunks \<circ> snd) (partials r))" using r by metis
  then show ?thesis using r by (simp add: in_flight_def partial_ok_def) metis
qed

theorem reassembler_invariant_witness:
  "reasm_run (snd (accept (for_kind KIND_FRAME) [1] [0xA7, 0x6D, 1, 1, 0, 7, 0, 0, 0, 2, 42])) \<and>
   in_flight (snd (accept (for_kind KIND_FRAME) [1] [0xA7, 0x6D, 1, 1, 0, 7, 0, 0, 0, 2, 42])) \<le> 32"
  using reassembler_invariant[OF accepts[OF fresh_kind, of KIND_FRAME "[1]" "[0xA7, 0x6D, 1, 1, 0, 7, 0, 0, 0, 2, 42]"]]
    accepts[OF fresh_kind]
  by (simp add: for_kind_def reassembler_default_def with_limits_def)

section \<open>Delivery\<close>

fun feed :: "reassembler \<Rightarrow> (str \<times> bytes) list \<Rightarrow> reassembler" where
  "feed r [] = r"
| "feed r ((s, q) # es) = feed (snd (accept r s q)) es"

lemma feed_append: "feed r (es @ [(s, q)]) = snd (accept (feed r es) s q)"
  by (induction r es rule: feed.induct) auto

definition ev_key :: "str \<times> bytes \<Rightarrow> frag_key option" where
  "ev_key e = map_option (\<lambda>f. (fst e, fr_msg_id f, fr_kind f)) (parse_fragment (snd e))"

definition flows :: "(str \<times> bytes) list \<Rightarrow> frag_key set" where
  "flows es = {key. \<exists>e \<in> set es. ev_key e = Some key}"

definition traffic :: "(str \<times> bytes) list \<Rightarrow> nat" where
  "traffic es = sum_list (map (length \<circ> snd) es)"

text \<open>The partial message that holds the chunks \<open>I\<close> of \<open>cs\<close>.\<close>

definition part :: "bytes list \<Rightarrow> nat set \<Rightarrow> partial" where
  "part cs I = \<lparr>pt_count = of_nat (length cs),
     pt_chunks = map (\<lambda>i. if i \<in> I then Some (cs ! i) else None) [0..<length cs],
     pt_have = card I, pt_bytes = (\<Sum>i\<in>I. length (cs ! i))\<rparr>"

definition slot :: "reassembler \<Rightarrow> frag_key \<Rightarrow> bytes list \<Rightarrow> nat set \<Rightarrow> bool" where
  "slot r key cs I \<longleftrightarrow> map_of (partials r) key = (if I = {} then None else Some (part cs I))"

lemma put_chunk_part:
  assumes "finite I" "unat (fr_index f) < length cs" "fr_chunk f = cs ! unat (fr_index f)"
  shows "put_chunk (part cs I) f = part cs (insert (unat (fr_index f)) I)"
proof (cases "unat (fr_index f) \<in> I")
  case True
  then show ?thesis using assms by (simp add: put_chunk_def part_def insert_absorb)
next
  case False
  let ?i = "unat (fr_index f)"
  have "(map (\<lambda>i. if i \<in> I then Some (cs ! i) else None) [0..<length cs])[?i := Some (cs ! ?i)] =
      map (\<lambda>i. if i \<in> insert ?i I then Some (cs ! i) else None) [0..<length cs]"
    by (rule nth_equalityI) (use assms(2) False in \<open>auto simp: nth_list_update\<close>)
  then show ?thesis using assms False by (simp add: put_chunk_def part_def add.commute)
qed

lemma part_empty: "part cs {} = \<lparr>pt_count = of_nat (length cs), pt_chunks = replicate (length cs) None, pt_have = 0, pt_bytes = 0\<rparr>"
  by (simp add: part_def map_replicate_const)

lemma part_complete:
  "concat (map unwrap_or_default (pt_chunks (part cs {..<length cs}))) = concat cs"
proof -
  have "map unwrap_or_default (pt_chunks (part cs {..<length cs})) = cs"
    by (rule nth_equalityI) (auto simp: part_def unwrap_or_default_def)
  then show ?thesis by simp
qed

text \<open>What one packet does when no partial has to be evicted for it.\<close>

definition roomy :: "reassembler \<Rightarrow> str \<Rightarrow> bytes \<Rightarrow> bool" where
  "roomy r s q \<longleftrightarrow> (\<forall>f. parse_fragment q = Some f \<longrightarrow>
     map_of (partials r) (s, fr_msg_id f, fr_kind f) = None \<longrightarrow> \<not> must_evict r (length (fr_chunk f)))"

lemma fragment_slot_roomy:
  assumes "roomy r s q" "parse_fragment q = Some f" "key = (s, fr_msg_id f, fr_kind f)"
  shows "map_of (partials (fragment_slot r key f)) = (if map_of (partials r) key = None
      then (map_of (partials r))(key \<mapsto> \<lparr>pt_count = fr_count f, pt_chunks = replicate (unat (fr_count f)) None,
             pt_have = 0, pt_bytes = 0\<rparr>)
      else map_of (partials r))"
    and "buffered (fragment_slot r key f) = buffered r"
  using assms by (auto simp: fragment_slot_def roomy_def evict_if_needed.simps[of r] update_conv')

lemma store_chunk_partials:
  "map_of (partials (snd (store_chunk t key p p'))) =
     (if pt_have p' = unat (pt_count p') then (map_of (partials t))(key := None) else (map_of (partials t))(key \<mapsto> p'))"
  by (simp add: store_chunk_def Let_def delete_conv' update_conv')

lemma store_chunk_buffered:
  "buffered (snd (store_chunk t key p (put_chunk p f))) \<le> buffered t + length (fr_chunk f)"
  by (auto simp: store_chunk_def Let_def put_chunk_def)

lemma dom_fun_upd_subset: "dom (m(k := v)) \<subseteq> insert k (dom m)"
  by auto

lemma store_chunk_dom: "dom (map_of (partials (snd (store_chunk t key p p')))) \<subseteq> insert key (dom (map_of (partials t)))"
  unfolding store_chunk_partials by (cases "pt_have p' = unat (pt_count p')") (simp_all only: simp_thms if_True if_False dom_fun_upd_subset)

lemma accept_fragment:
  assumes "parse_fragment q = Some f" "only_kind r = None \<or> only_kind r = Some (fr_kind f)"
    and "key = (s, fr_msg_id f, fr_kind f)" "map_of (partials (fragment_slot r key f)) key = Some p"
  shows "accept r s q =
    (if pt_count p \<noteq> fr_count f \<or> unat (fr_index f) \<ge> length (pt_chunks p) then (None, fragment_slot r key f)
     else store_chunk (fragment_slot r key f) key p (put_chunk p f))"
  using assms by (auto simp: accept_def Let_def)

lemma accept_ignored:
  assumes "parse_fragment q = None \<or> (\<exists>f k. parse_fragment q = Some f \<and> only_kind r = Some k \<and> k \<noteq> fr_kind f)"
  shows "accept r s q = (None, r)"
  using assms by (auto simp: accept_def)

lemma fragment_slot_has:
  assumes "roomy r s q" "parse_fragment q = Some f" "key = (s, fr_msg_id f, fr_kind f)"
  obtains p where "map_of (partials (fragment_slot r key f)) key = Some p"
  using fragment_slot_roomy(1)[OF assms] by (cases "map_of (partials r) key") simp_all

lemma card_full: "J \<subseteq> {..<n} \<Longrightarrow> card J = n \<longleftrightarrow> J = {..<n}"
  by (metis card_lessThan card_subset_eq finite_lessThan)

lemma accept_completes:
  assumes "roomy r s q" "parse_fragment q = Some f" "key = (s, fr_msg_id f, fr_kind f)"
    and "only_kind r = None \<or> only_kind r = Some (fr_kind f)" "slot r key cs I" "finite I"
    and "fr_count f = of_nat (length cs)" "length cs \<le> MAX_FRAGMENTS" "fr_chunk f = cs ! unat (fr_index f)"
    and "insert (unat (fr_index f)) I \<subseteq> {..<length cs}"
  shows "if insert (unat (fr_index f)) I = {..<length cs} then fst (accept r s q) = Some (concat cs)
    else fst (accept r s q) = None \<and> slot (snd (accept r s q)) key cs (insert (unat (fr_index f)) I)"
proof -
  let ?t = "fragment_slot r key f" and ?J = "insert (unat (fr_index f)) I"
  have n: "unat (of_nat (length cs) :: u16) = length cs" using assms(8) by (simp add: MAX_FRAGMENTS_def)
  have "map_of (partials ?t) key = Some (part cs I)"
    using fragment_slot_roomy(1)[OF assms(1-3)] assms(5,7) n by (auto simp: slot_def part_empty)
  then have a: "accept r s q = store_chunk ?t key (part cs I) (part cs ?J)"
    using accept_fragment[OF assms(2,4,3)] assms(7,10) put_chunk_part[OF assms(6) _ assms(9)] n
    by (simp add: part_def)
  have c: "pt_have (part cs ?J) = unat (pt_count (part cs ?J)) \<longleftrightarrow> ?J = {..<length cs}"
    unfolding part_def partial.select_convs n by (rule card_full[OF assms(10)])
  show ?thesis
  proof (cases "?J = {..<length cs}")
    case True
    then show ?thesis using part_complete[of cs] c by (simp add: a store_chunk_def Let_def)
  next
    case False
    have "fst (store_chunk ?t key (part cs I) (part cs ?J)) = None"
      using False c by (simp add: store_chunk_def Let_def)
    moreover have "slot (snd (store_chunk ?t key (part cs I) (part cs ?J))) key cs ?J"
      unfolding slot_def store_chunk_partials using False c by simp
    ultimately show ?thesis using False unfolding a by simp
  qed
qed

lemma accept_other:
  assumes "roomy r s q" "ev_key (s, q) \<noteq> Some key'"
  shows "map_of (partials (snd (accept r s q))) key' = map_of (partials r) key'"
proof (cases "parse_fragment q")
  case (Some f)
  define key where "key = (s, fr_msg_id f, fr_kind f)"
  have ne: "key' \<noteq> key" using assms(2) Some by (auto simp: ev_key_def key_def)
  show ?thesis
  proof (cases "only_kind r = None \<or> only_kind r = Some (fr_kind f)")
    case True
    obtain p where p: "map_of (partials (fragment_slot r key f)) key = Some p"
      using fragment_slot_has[OF assms(1) Some key_def] by blast
    have "map_of (partials (fragment_slot r key f)) key' = map_of (partials r) key'"
      using fragment_slot_roomy(1)[OF assms(1) Some key_def] ne by simp
    then show ?thesis using ne
      by (simp add: accept_fragment[OF Some True key_def p] store_chunk_partials)
  next
    case False
    then show ?thesis using Some accept_ignored[of q r s] by auto
  qed
qed (simp add: accept_ignored)

lemma accept_budget:
  assumes "roomy r s q"
  shows "buffered (snd (accept r s q)) \<le> buffered r + length q \<and>
    dom (map_of (partials (snd (accept r s q)))) \<subseteq> dom (map_of (partials r)) \<union> {key. ev_key (s, q) = Some key}"
proof (cases "parse_fragment q")
  case (Some f)
  define key where "key = (s, fr_msg_id f, fr_kind f)"
  have len: "length (fr_chunk f) \<le> length q"
    using Some by (auto simp: parse_fragment_def Let_def split: if_splits)
  show ?thesis
  proof (cases "only_kind r = None \<or> only_kind r = Some (fr_kind f)")
    case True
    obtain p where p: "map_of (partials (fragment_slot r key f)) key = Some p"
      using fragment_slot_has[OF assms Some key_def] by blast
    note a = accept_fragment[OF Some True key_def p]
    note sl = fragment_slot_roomy[OF assms Some key_def]
    have "buffered (snd (accept r s q)) \<le> buffered r + length (fr_chunk f)"
      using sl(2) store_chunk_buffered[of "fragment_slot r key f" key p f] unfolding a by simp
    moreover have t: "dom (map_of (partials (fragment_slot r key f))) \<subseteq> insert key (dom (map_of (partials r)))"
      unfolding sl(1) by (cases "map_of (partials r) key = None") (simp_all only: simp_thms if_True if_False dom_fun_upd_subset subset_insertI)
    have "dom (map_of (partials (snd (accept r s q)))) \<subseteq> insert key (dom (map_of (partials (fragment_slot r key f))))"
      unfolding a by (cases "pt_count p \<noteq> fr_count f \<or> unat (fr_index f) \<ge> length (pt_chunks p)")
        (simp_all only: simp_thms if_True if_False snd_conv subset_insertI store_chunk_dom)
    from order_trans[OF this insert_mono[OF t, of key]]
    have "dom (map_of (partials (snd (accept r s q)))) \<subseteq> dom (map_of (partials r)) \<union> {key}"
      by (simp only: insert_absorb2 Un_insert_right Un_empty_right)
    moreover have "{k. ev_key (s, q) = Some k} = {key}" using Some by (simp add: ev_key_def key_def)
    ultimately show ?thesis using len by (metis le_trans add_le_cancel_left)
  next
    case False
    then show ?thesis using Some accept_ignored[of q r s] by auto
  qed
qed (simp add: accept_ignored)

text \<open>The state after the events \<open>es\<close>, in a run that stays within the limits.\<close>

definition tracked :: "reassembler \<Rightarrow> (str \<times> bytes) list \<Rightarrow> frag_key \<Rightarrow> bytes list \<Rightarrow> nat set \<Rightarrow> bool" where
  "tracked r es key cs I \<longleftrightarrow> reasm_ok r \<and> slot r key cs I \<and>
     dom (map_of (partials r)) \<subseteq> flows es \<and> buffered r \<le> traffic es"

lemma finite_flows [simp]: "finite (flows es)"
proof -
  have "flows es \<subseteq> the ` ev_key ` set es" by (force simp: flows_def)
  then show ?thesis by (rule finite_subset) simp
qed

lemma flows_snoc: "flows (es @ [e]) = flows es \<union> {key. ev_key e = Some key}"
  by (auto simp: flows_def)

lemma traffic_snoc: "traffic (es @ [e]) = traffic es + length (snd e)"
  by (simp add: traffic_def)

lemma tracked_roomy:
  assumes "tracked r es key cs I" "card (flows (es @ [(s, q)])) \<le> max_messages r"
    and "traffic (es @ [(s, q)]) \<le> max_bytes r"
  shows "roomy r s q"
proof -
  have "\<not> must_evict r (length (fr_chunk f))"
    if f: "parse_fragment q = Some f" and none: "map_of (partials r) (s, fr_msg_id f, fr_kind f) = None" for f
  proof -
    let ?k = "(s, fr_msg_id f, fr_kind f)"
    have r: "distinct (map fst (partials r))" "dom (map_of (partials r)) \<subseteq> flows es" "buffered r \<le> traffic es"
      using assms(1) by (simp_all add: tracked_def reasm_ok_def)
    have "ev_key (s, q) = Some ?k" using f by (simp add: ev_key_def)
    then have k: "?k \<in> flows (es @ [(s, q)])" unfolding flows_snoc by simp
    have "dom (map_of (partials r)) \<subset> flows (es @ [(s, q)])"
      using r(2) k none unfolding flows_snoc by blast
    then have "card (dom (map_of (partials r))) < card (flows (es @ [(s, q)]))"
      by (rule psubset_card_mono[OF finite_flows])
    moreover have "card (dom (map_of (partials r))) = length (partials r)"
      using r(1) by (metis distinct_card dom_map_of_conv_image_fst length_map set_map)
    moreover have "length (fr_chunk f) \<le> length q"
      using f by (auto simp: parse_fragment_def Let_def split: if_splits)
    ultimately show ?thesis using assms(2,3) r(3) by (simp add: must_evict_def traffic_snoc)
  qed
  then show ?thesis unfolding roomy_def by blast
qed

lemma tracked_step:
  assumes "tracked r es key cs I" "roomy r s q" "slot (snd (accept r s q)) key cs J"
  shows "tracked (snd (accept r s q)) (es @ [(s, q)]) key cs J"
proof -
  have "reasm_ok (snd (accept r s q))" using assms(1) accept_ok by (simp add: tracked_def)
  moreover have "dom (map_of (partials (snd (accept r s q)))) \<subseteq> flows (es @ [(s, q)])"
    using accept_budget[OF assms(2)] assms(1) unfolding flows_snoc tracked_def by blast
  moreover have "buffered (snd (accept r s q)) \<le> traffic (es @ [(s, q)])"
    using accept_budget[OF assms(2), THEN conjunct1] assms(1) by (simp add: tracked_def traffic_snoc)
  ultimately show ?thesis using assms(3) unfolding tracked_def by blast
qed

definition arrived :: "str \<Rightarrow> bytes list \<Rightarrow> (str \<times> bytes) list \<Rightarrow> nat set" where
  "arrived src frags es = {i. i < length frags \<and> (src, frags ! i) \<in> set es}"

lemma carries_index:
  assumes "carries frags k m cs" "i < length frags" "j < length frags" "frags ! i = frags ! j"
  shows "i = j"
proof -
  have "parse_fragment (frags ! l) = Some \<lparr>fr_kind = k, fr_msg_id = m, fr_index = of_nat l,
      fr_count = of_nat (length frags), fr_chunk = cs ! l\<rparr>" if "l < length frags" for l
    using that assms(1) by (simp add: carries_def)
  from this[OF assms(2)] this[OF assms(3)] have "(of_nat i :: u16) = of_nat j"
    using assms(4) by (metis fragment.select_convs(3) option.inject)
  moreover have "i < 2 ^ 16" "j < 2 ^ 16" using assms by (auto simp: carries_def MAX_FRAGMENTS_def)
  ultimately show ?thesis by (metis unat_u16_of_nat)
qed

lemma carries_step:
  assumes "carries frags k m cs" "i < length frags" "roomy r src (frags ! i)" "slot r (src, m, k) cs I"
    and "I \<subseteq> {..<length frags}" "only_kind r = None \<or> only_kind r = Some k"
  shows "if insert i I = {..<length frags} then fst (accept r src (frags ! i)) = Some (concat cs)
    else fst (accept r src (frags ! i)) = None \<and> slot (snd (accept r src (frags ! i))) (src, m, k) cs (insert i I)"
proof -
  have n: "length cs = length frags" "length cs \<le> MAX_FRAGMENTS" using assms(1) by (simp_all add: carries_def)
  have f: "parse_fragment (frags ! i) = Some \<lparr>fr_kind = k, fr_msg_id = m, fr_index = of_nat i,
        fr_count = of_nat (length frags), fr_chunk = cs ! i\<rparr>" using assms(1,2) by (simp add: carries_def)
  have i: "unat (of_nat i :: u16) = i" using assms(2) n by (simp add: MAX_FRAGMENTS_def)
  have "insert i I \<subseteq> {..<length cs}" using assms(2,5) n by simp
  then show ?thesis
    using accept_completes[OF assms(3) f refl, unfolded fragment.select_convs i, of cs I]
      assms(4,6) n finite_subset[OF assms(5)] by simp
qed

lemma arrived_snoc:
  "arrived src frags (es @ [(s, q)]) = arrived src frags es \<union> {i. i < length frags \<and> s = src \<and> q = frags ! i}"
  by (auto simp: arrived_def)

lemma carries_key:
  "carries frags k m cs \<Longrightarrow> i < length frags \<Longrightarrow> ev_key (s, frags ! i) = Some (s, m, k)"
  by (simp add: carries_def ev_key_def)

lemma feed_limits [simp]:
  "max_messages (feed r es) = max_messages r" "max_bytes (feed r es) = max_bytes r" "only_kind (feed r es) = only_kind r"
  by (induction r es rule: feed.induct) simp_all

lemma arrived_subset: "arrived src frags es \<subseteq> {..<length frags}"
  by (auto simp: arrived_def)

lemma run_tracked:
  assumes "carries frags k m cs" "tracked r [] (src, m, k) cs {}" "only_kind r = None \<or> only_kind r = Some k"
    and "\<And>s q. (s, q) \<in> set es \<Longrightarrow> ev_key (s, q) = Some (src, m, k) \<Longrightarrow> q \<in> set frags"
    and "card (flows es) \<le> max_messages r" "traffic es \<le> max_bytes r" "arrived src frags es \<noteq> {..<length frags}"
  shows "tracked (feed r es) es (src, m, k) cs (arrived src frags es)"
  using assms(4-7)
proof (induction es rule: rev_induct)
  case Nil
  then show ?case using assms(2) by (simp add: arrived_def)
next
  case (snoc e es)
  obtain s q where e: "e = (s, q)" by fastforce
  let ?A = "arrived src frags es" and ?B = "arrived src frags (es @ [(s, q)])"
  have sub: "?A \<subseteq> ?B" unfolding arrived_snoc by blast
  then have nA: "?A \<noteq> {..<length frags}" using snoc.prems(4) arrived_subset e by blast
  have "card (flows es) \<le> card (flows (es @ [(s, q)]))"
    by (rule card_mono[OF finite_flows]) (simp add: flows_snoc)
  then have t: "tracked (feed r es) es (src, m, k) cs ?A"
    using snoc.prems(1-3) nA e by (intro snoc.IH) (auto simp: traffic_snoc)
  have room: "roomy (feed r es) s q"
    using tracked_roomy[OF t] snoc.prems(2,3) e by simp
  have "slot (snd (accept (feed r es) s q)) (src, m, k) cs ?B"
  proof (cases "ev_key (s, q) = Some (src, m, k)")
    case True
    then have "s = src" by (auto simp: ev_key_def)
    moreover obtain i where i: "i < length frags" "q = frags ! i"
      using True snoc.prems(1)[of s q] e by (auto simp: in_set_conv_nth)
    moreover have "?B = insert i ?A"
      unfolding arrived_snoc using i \<open>s = src\<close> carries_index[OF assms(1) i(1)] by auto
    ultimately show ?thesis
      using carries_step[OF assms(1) i(1), of "feed r es" src ?A] room t snoc.prems(4) e arrived_subset assms(3)
      by (simp add: tracked_def)
  next
    case False
    have "?B = ?A" unfolding arrived_snoc using False carries_key[OF assms(1)] by auto
    then show ?thesis using accept_other[OF room False] t by (simp add: tracked_def slot_def)
  qed
  then show ?case using tracked_step[OF t room] by (simp add: e feed_append)
qed

text \<open>
  C5. Delivery over a shared channel: the packets of one message may arrive in any order, more
  than once, and interleaved with any other traffic, foreign packets included. As long as the
  run stays within \<open>max_messages\<close> flows and \<open>max_bytes\<close> bytes, the packet that brings the last
  missing fragment makes \<open>accept\<close> return the payload, and no earlier fragment of it does.
\<close>

theorem interleaved_delivery:
  assumes "fragment_payload k m payload mtu = Some frags"
    and "r = (with_limits mm mb)\<lparr>only_kind := filt\<rparr>" "filt = None \<or> filt = Some k"
    and "\<And>s p. (s, p) \<in> set es \<Longrightarrow> ev_key (s, p) = Some (src, m, k) \<Longrightarrow> p \<in> set frags"
    and "q \<in> set frags" "(src, q) \<notin> set es" "\<forall>p \<in> set frags. p = q \<or> (src, p) \<in> set es"
    and "card (flows (es @ [(src, q)])) \<le> mm" "traffic (es @ [(src, q)]) \<le> mb"
  shows "fst (accept (feed r es) src q) = Some payload \<and>
    (\<forall>es1 p es2. es = es1 @ (src, p) # es2 \<longrightarrow> p \<in> set frags \<longrightarrow> fst (accept (feed r es1) src p) = None)"
proof -
  obtain cs where c: "carries frags k m cs" "concat cs = payload"
    using fragment_payload_split[OF assms(1)] by blast
  have start: "tracked r [] (src, m, k) cs {}"
    by (simp add: assms(2) tracked_def reasm_ok_def slot_def with_limits_def)
  have lim: "mm \<le> max_messages r" "mb \<le> max_bytes r" "only_kind r = None \<or> only_kind r = Some k"
    using assms(2,3) by (simp_all add: with_limits_def)
  obtain i where i: "i < length frags" "q = frags ! i" using assms(5) by (auto simp: in_set_conv_nth)
  have "(src, frags ! x) \<in> set es" if "x < length frags" "x \<noteq> i" for x
    using assms(7) nth_mem[OF that(1)] that i carries_index[OF c(1) i(1) that(1)] by metis
  then have full: "arrived src frags es = {..<length frags} - {i}"
    using assms(6) i(2) unfolding arrived_def by blast
  have before: "tracked (feed r es1) es1 (src, m, k) cs (arrived src frags es1) \<and> roomy (feed r es1) src p"
    if "es @ [(src, q)] = es1 @ (src, p) # es2" for es1 p es2
  proof -
    have es1: "set es1 \<subseteq> set es" using that by (cases es2 rule: rev_cases) auto
    have "flows (es1 @ [(src, p)]) \<subseteq> flows (es @ [(src, q)])" "flows es1 \<subseteq> flows (es1 @ [(src, p)])"
      unfolding that by (auto simp: flows_def)
    then have f: "card (flows (es1 @ [(src, p)])) \<le> mm" "card (flows es1) \<le> mm"
      using card_mono[OF finite_flows] assms(8) by (meson le_trans)+
    have tr: "traffic (es1 @ [(src, p)]) \<le> mb" "traffic es1 \<le> mb"
      using assms(9) unfolding that by (simp_all add: traffic_def)
    have "i \<notin> arrived src frags es1" using full es1 by (auto simp: arrived_def)
    then have "arrived src frags es1 \<noteq> {..<length frags}" using i(1) by auto
    then have "tracked (feed r es1) es1 (src, m, k) cs (arrived src frags es1)"
      using es1 assms(4) f(2) tr(2) lim by (intro run_tracked[OF c(1) start lim(3)]) auto
    then show ?thesis using tracked_roomy f(1) tr(1) lim by fastforce
  qed
  have step: "if insert j (arrived src frags es1) = {..<length frags} then fst (accept (feed r es1) src (frags ! j)) = Some payload
      else fst (accept (feed r es1) src (frags ! j)) = None"
    if "es @ [(src, q)] = es1 @ (src, frags ! j) # es2" "j < length frags" for es1 j es2
  proof -
    have "slot (feed r es1) (src, m, k) cs (arrived src frags es1)"
      using before[OF that(1)] unfolding tracked_def by blast
    from carries_step[OF c(1) that(2) before[OF that(1), THEN conjunct2] this arrived_subset] lim(3) c(2)
    show ?thesis unfolding feed_limits by metis
  qed
  have "fst (accept (feed r es1) src p) = None" if es: "es = es1 @ (src, p) # es2" and p: "p \<in> set frags" for es1 p es2
  proof -
    obtain j where j: "j < length frags" "p = frags ! j" using p by (auto simp: in_set_conv_nth)
    have "insert j (arrived src frags es1) \<subseteq> arrived src frags es"
      using es j by (auto simp: arrived_def)
    then have "insert j (arrived src frags es1) \<noteq> {..<length frags}" using full i(1) by blast
    then show ?thesis using step[of es1 j "es2 @ [(src, q)]"] es j by simp
  qed
  moreover have "insert i (arrived src frags es) = {..<length frags}" using full i(1) by auto
  then have "fst (accept (feed r es) src q) = Some payload" using step[of es i "[]"] i by simp
  ultimately show ?thesis by blast
qed

theorem interleaved_delivery_witness:
  "fst (accept (feed (with_limits 2 1000)
     [([1], [0xA7, 0x6D, 1, 1, 0, 7, 0, 1, 0, 2, 3]), ([2], [9, 9]), ([2], [0xA7, 0x6D, 1, 1, 0, 7, 0, 0, 0, 4, 5])])
     [1] [0xA7, 0x6D, 1, 1, 0, 7, 0, 0, 0, 2, 1, 2]) = Some [1, 2, 3]"
proof -
  let ?p = "[0xA7, 0x6D, 1, 1, 0, 7, 0, 0, 0, 2, 1, 2] :: bytes" and ?q = "[0xA7, 0x6D, 1, 1, 0, 7, 0, 1, 0, 2, 3] :: bytes"
  let ?o = "[0xA7, 0x6D, 1, 1, 0, 7, 0, 0, 0, 4, 5] :: bytes"
  let ?es = "[([1], ?q), ([2], [9, 9]), ([2], ?o)]"
  have f: "fragment_payload 1 7 [1, 2, 3] 12 = Some [?p, ?q]"
    by (simp add: fragment_payload_def frag_consts div_ceil_def chunks.simps fragment_packet_def eval_simps)
  have k: "ev_key ([1], ?p) = Some ([1], 7, 1)" "ev_key ([1], ?q) = Some ([1], 7, 1)"
    "ev_key ([2], [9, 9]) = None" "ev_key ([2], ?o) = Some ([2], 7, 1)"
    by (simp_all add: ev_key_def parse_fragment_def frag_consts eval_simps word_le_nat_alt)
  have fl: "flows (?es @ [([1], ?p)]) = {([1], 7, 1), ([2], 7, 1)}" using k by (auto simp: flows_def)
  show ?thesis
  proof (rule interleaved_delivery[OF f, where filt = None and mm = 2 and mb = 1000, THEN conjunct1])
    show "card (flows (?es @ [([1], ?p)])) \<le> 2" unfolding fl by (rule card_insert_le_m1) simp_all
    show "x \<in> set [?p, ?q]" if "(s, x) \<in> set ?es" "ev_key (s, x) = Some ([1], 7, 1)" for s x
      using that k by auto
  qed (simp_all add: traffic_def with_limits_def)
qed

section \<open>The byte cap\<close>

text \<open>A reassembler that holds the chunks \<open>J\<close> of one message and nothing else.\<close>

definition lone :: "reassembler \<Rightarrow> frag_key \<Rightarrow> bytes list \<Rightarrow> nat set \<Rightarrow> bool" where
  "lone r key cs J \<longleftrightarrow> partials r = (if J = {} then [] else [(key, part cs J)]) \<and>
     order r = (if J = {} then [] else [key]) \<and> only_kind r = None \<and> buffered r = (\<Sum>j\<in>J. length (cs ! j))"

lemma lone_slot:
  assumes "lone r key cs J" "fr_count f = of_nat (length cs)" "length cs \<le> MAX_FRAGMENTS"
  shows "fragment_slot r key f = r\<lparr>partials := [(key, part cs J)], order := [key]\<rparr>"
proof -
  have "unat (of_nat (length cs) :: u16) = length cs" using assms(3) by (simp add: MAX_FRAGMENTS_def)
  then show ?thesis using assms(1,2)
    by (cases "J = {}") (simp_all add: lone_def fragment_slot_def evict_if_needed.simps[of r] must_evict_def part_empty Let_def)
qed

lemma lone_step:
  assumes "carries frags k m cs" "lone r (src, m, k) cs J" "i \<notin> J" "insert i J \<subset> {..<length frags}"
  shows "lone (snd (accept r src (frags ! i))) (src, m, k) cs (insert i J)"
proof -
  let ?f = "\<lparr>fr_kind = k, fr_msg_id = m, fr_index = of_nat i, fr_count = of_nat (length frags), fr_chunk = cs ! i\<rparr>"
  let ?t = "r\<lparr>partials := [((src, m, k), part cs J)], order := [(src, m, k)]\<rparr>"
  have n: "length cs = length frags" "length cs \<le> MAX_FRAGMENTS" and f: "parse_fragment (frags ! i) = Some ?f"
    and i: "i < length frags" using assms(1,4) by (auto simp: carries_def)
  have u: "unat (of_nat i :: u16) = i" "unat (of_nat (length cs) :: u16) = length cs"
    using i n by (simp_all add: MAX_FRAGMENTS_def)
  have fin: "finite J" using assms(4) by (meson finite_insert finite_lessThan finite_subset psubset_imp_subset)
  have t: "fragment_slot r (src, m, k) ?f = ?t" using lone_slot[OF assms(2)] n by simp
  have "accept r src (frags ! i) = store_chunk ?t (src, m, k) (part cs J) (put_chunk (part cs J) ?f)"
    using accept_fragment[OF f _ refl, of r src "part cs J"] assms(2) i n u by (simp add: t lone_def part_def)
  also have "put_chunk (part cs J) ?f = part cs (insert i J)" using put_chunk_part[OF fin, of ?f cs] i n u by simp
  finally have a: "accept r src (frags ! i) = store_chunk ?t (src, m, k) (part cs J) (part cs (insert i J))" .
  have "card (insert i J) \<noteq> length cs"
    using card_full[of "insert i J" "length frags"] assms(4) n by auto
  then show ?thesis unfolding a using assms(2,3) fin u
    by (simp add: store_chunk_def part_def lone_def)
qed

lemma carries_chunk_length:
  assumes "carries frags k m cs" "i < length frags"
  shows "length (cs ! i) = length (frags ! i) - HEADER_LEN"
proof -
  have "parse_fragment (frags ! i) = Some \<lparr>fr_kind = k, fr_msg_id = m, fr_index = of_nat i,
        fr_count = of_nat (length frags), fr_chunk = cs ! i\<rparr>" using assms by (simp add: carries_def)
  then have "cs ! i = drop HEADER_LEN (frags ! i)" by (auto simp: parse_fragment_def Let_def split: if_splits)
  then show ?thesis by simp
qed

lemma lone_run:
  assumes "carries frags k m cs" "distinct is" "set is \<subset> {..<length frags}"
  shows "lone (feed (with_limits mm mb) (map (\<lambda>i. (src, frags ! i)) is)) (src, m, k) cs (set is)"
  using assms(2,3)
proof (induction "is" rule: rev_induct)
  case Nil
  show ?case by (simp add: lone_def with_limits_def)
next
  case (snoc i js)
  then show ?case using lone_step[OF assms(1) snoc.IH, of i] by (auto simp: feed_append)
qed

text \<open>
  C22. The cap on buffered bytes is looked at only when a new partial is created, so one message
  escapes it altogether. Whatever the limits, any incomplete selection of the fragments of one
  message, in any order, is held in full: one message is in flight and \<open>buffered\<close> is the sum of the
  chunks, so it passes \<open>max_bytes\<close> as soon as that sum does.
\<close>

theorem max_bytes_exceeded:
  assumes "fragment_payload k m payload mtu = Some frags" "distinct is" "set is \<subset> {..<length frags}" "is \<noteq> []"
  shows "let r = feed (with_limits mm mb) (map (\<lambda>i. (src, frags ! i)) is) in
    max_bytes r = max mb 1 \<and> in_flight r = 1 \<and> buffered r = (\<Sum>i\<in>set is. length (frags ! i) - HEADER_LEN)"
proof -
  obtain cs where cs: "carries frags k m cs" using fragment_payload_split[OF assms(1)] by blast
  have "(\<Sum>i\<in>set is. length (cs ! i)) = (\<Sum>i\<in>set is. length (frags ! i) - HEADER_LEN)"
    using carries_chunk_length[OF cs] assms(3) by (intro sum.cong) auto
  then show ?thesis using lone_run[OF cs assms(2,3), of mm mb src] assms(4)
    by (simp add: lone_def in_flight_def with_limits_def Let_def)
qed

theorem max_bytes_exceeded_witness:
  "\<exists>es. max_bytes (feed (with_limits 4 2) es) < buffered (feed (with_limits 4 2) es)"
proof -
  let ?q = "\<lambda>i c. [0xA7, 0x6D, 1, 1, 0, 7, 0, i, 0, 3] @ c :: bytes"
  have f: "fragment_payload 1 7 [1, 2, 3, 4, 5] 12 = Some [?q 0 [1, 2], ?q 1 [3, 4], ?q 2 [5]]"
    by (simp add: fragment_payload_def frag_consts div_ceil_def chunks.simps fragment_packet_def eval_simps)
  have "set [1, 0] \<subset> {..<length [?q 0 [1, 2], ?q 1 [3, 4], ?q 2 [5]]}" by auto
  from max_bytes_exceeded[OF f _ this, where mm = 4 and mb = 2 and src = "[1]"]
  have "max_bytes (feed (with_limits 4 2) [([1], ?q 1 [3, 4]), ([1], ?q 0 [1, 2])]) <
      buffered (feed (with_limits 4 2) [([1], ?q 1 [3, 4]), ([1], ?q 0 [1, 2])])"
    by (simp add: HEADER_LEN_def Let_def del: feed.simps)
  then show ?thesis by (rule exI)
qed

end
