(* ===== verification/Codec.thy ===== *)
theory Codec
  imports Wire Crypto
begin

text \<open>
  What the codecs of the core crate share: the error type of \<open>src/crates/core/src/error.rs\<close>,
  reading a counted list of items, and the composition of readers. \<open>reads f e x\<close> says that
  the reader \<open>f\<close>, standing before the bytes \<open>e\<close>, returns \<open>x\<close> and stands right behind them,
  whatever surrounds them; the rules of \<open>reads_intros\<close> build the statement for a whole
  record from those for its fields.
\<close>

section \<open>Errors of the core crate\<close>

text \<open>\<open>src/crates/transport/src/lib.rs\<close>\<close>

datatype transport_error = NoListener str | ConnClosed | NotReady | Io str

datatype core_error =
    CMalformed str
  | NoSuchName str
  | UnsupportedVersion u16
  | HandshakeFailed str
  | PeerAuthFailed
  | GroupNotReady
  | UnknownSuite str
  | RegistryRejected str
  | SealErr str
  | WrapErr str
  | CryptoErr crypto_error
  | TransportErr transport_error
  | CWireErr wire_error

abbreviation cwire :: "wire_error + 'a \<Rightarrow> core_error + 'a" where
  "cwire m \<equiv> map_err CWireErr m"

abbreviation cmalformed :: "string \<Rightarrow> core_error + 'a" where
  "cmalformed s \<equiv> Inl (CMalformed (ascii s))"

section \<open>Composing readers\<close>

definition reads :: "(reader \<Rightarrow> 'e + 'a \<times> reader) \<Rightarrow> bytes \<Rightarrow> 'a \<Rightarrow> bool" where
  "reads f e x \<longleftrightarrow> (\<forall>p q. length p + length e + length q < usize_limit \<longrightarrow>
     f (reader_at p (e @ q)) = Inr (x, reader_at (p @ e) q))"

named_theorems reads_intros \<open>composition of readers\<close>

lemma reads_bind [reads_intros]:
  assumes "reads f e x" "reads (g x) e' y"
  shows "reads (\<lambda>r. bind_result (f r) (\<lambda>(x, r). g x r)) (e @ e') y"
  unfolding reads_def
proof (intro allI impI)
  fix p q :: bytes
  assume "length p + length (e @ e') + length q < usize_limit"
  then have "f (reader_at p (e @ e' @ q)) = Inr (x, reader_at (p @ e) (e' @ q))"
    "g x (reader_at (p @ e) (e' @ q)) = Inr (y, reader_at ((p @ e) @ e') q)"
    using assms unfolding reads_def by (fastforce simp: algebra_simps)+
  then show "bind_result (f (reader_at p ((e @ e') @ q))) (\<lambda>(x, r). g x r) = Inr (y, reader_at (p @ e @ e') q)"
    by simp
qed

lemma reads_return [reads_intros]: "reads (\<lambda>r. Inr (x, r)) [] x"
  by (simp add: reads_def)

lemma reads_err [reads_intros]: "reads f e x \<Longrightarrow> reads (\<lambda>r. map_err h (f r)) e x"
  by (simp add: reads_def)

lemma reads_check [reads_intros]:
  "m = Inr y \<Longrightarrow> reads (g y) e x \<Longrightarrow> reads (\<lambda>r. bind_result m (\<lambda>y. g y r)) e x"
  by (simp add: reads_def)

lemma reads_guard [reads_intros]:
  "\<not> b \<Longrightarrow> reads g e x \<Longrightarrow> reads (\<lambda>r. if b then f r else g r) e x"
  by (simp add: reads_def)

lemma reads_guard_True: "b \<Longrightarrow> reads f e x \<Longrightarrow> reads (\<lambda>r. if b then f r else g r) e x"
  by (simp add: reads_def)

lemma reads_u8 [reads_intros]: "reads get_u8 [b] b"
  using u8.get_at by (simp add: reads_def)

lemma reads_u32 [reads_intros]: "reads get_u32 (u32_be w) w"
  using u32.get_at by (simp add: reads_def)

lemma reads_u64 [reads_intros]: "reads get_u64 (u64_be w) w"
  using u64.get_at by (simp add: reads_def)

lemma reads_bytes [reads_intros]: "frame_sized x \<Longrightarrow> reads get_bytes (bytes_enc x) x"
  using lp.get_at by (simp add: reads_def)

lemma reads_vec [reads_intros]: "frame_sized x \<Longrightarrow> reads get_vec (bytes_enc x) x"
  using get_vec_at by (simp add: reads_def)

lemma check_utf8 [reads_intros]: "utf8_valid b \<Longrightarrow> ok_or e (from_utf8 b) = Inr b"
  by (simp add: from_utf8_def)

lemma reads_eq: "reads f e x \<Longrightarrow> e = e' \<Longrightarrow> reads f e' x"
  by simp

lemma remaining_reader_at [codec_simps]: "remaining (reader_at p q) = length q"
  by (simp add: remaining_def reader_at_def)

lemma reads_start:
  assumes "reads f e x" "length e < usize_limit"
  shows "f (reader_new e) = Inr (x, reader_at e [])"
  using assms(1)[unfolded reads_def, rule_format, of "[]" "[]"] assms(2) by (simp add: codec_simps)

text \<open>
  A decoder runs to the end of its input: \<open>ends f e x\<close> for one that returns a result, and
  \<open>decodes f e x\<close> for one that returns an option. A conditional on a tag that was just read
  is decided by evaluating both branches.
\<close>

definition ends :: "(reader \<Rightarrow> 'e + 'a) \<Rightarrow> bytes \<Rightarrow> 'a \<Rightarrow> bool" where
  "ends f e x \<longleftrightarrow> (\<forall>p. length p + length e < usize_limit \<longrightarrow> f (reader_at p e) = Inr x)"

definition decodes :: "(reader \<Rightarrow> 'a option) \<Rightarrow> bytes \<Rightarrow> 'a \<Rightarrow> bool" where
  "decodes f e x \<longleftrightarrow> (\<forall>p. length p + length e < usize_limit \<longrightarrow> f (reader_at p e) = Some x)"

named_theorems decode_rules \<open>decoders that consume their whole input\<close>

lemma reads_at:
  "reads f e x \<Longrightarrow> length p + length e + length q < usize_limit \<Longrightarrow>
    f (reader_at p (e @ q)) = Inr (x, reader_at (p @ e) q)"
  by (simp add: reads_def)

lemma ends_bind [decode_rules]:
  assumes "reads f e x" "ends (g x) e' y"
  shows "ends (\<lambda>r. bind_result (f r) (\<lambda>(x, r). g x r)) (e @ e') y"
  using assms(2) reads_at[OF assms(1), of _ e'] by (fastforce simp: ends_def)

lemma ends_check [decode_rules]:
  "m = Inr y \<Longrightarrow> ends (g y) e x \<Longrightarrow> ends (\<lambda>r. bind_result m (\<lambda>y. g y r)) e x"
  by (simp add: ends_def)

lemma ends_finish [decode_rules]: "ends (\<lambda>r. bind_result (map_err h (finish r)) (\<lambda>_. Inr x)) [] x"
  by (simp add: ends_def codec_simps)

lemma ends_if [decode_rules]:
  "(b \<Longrightarrow> ends f e x) \<Longrightarrow> (\<not> b \<Longrightarrow> ends g e x) \<Longrightarrow> ends (\<lambda>r. if b then f r else g r) e x"
  by (cases b) simp_all

lemma decodes_bind [decode_rules]:
  assumes "reads f e x" "decodes (g x) e' y"
  shows "decodes (\<lambda>r. Option.bind (ok (f r)) (\<lambda>(x, r). g x r)) (e @ e') y"
  using assms(2) reads_at[OF assms(1), of _ e'] by (fastforce simp: decodes_def)

lemma decodes_check [decode_rules]:
  "m = Some y \<Longrightarrow> decodes (g y) e x \<Longrightarrow> decodes (\<lambda>r. Option.bind m (\<lambda>y. g y r)) e x"
  by (simp add: decodes_def)

lemma decodes_finish [decode_rules]: "decodes (\<lambda>r. Option.bind (ok (finish r)) (\<lambda>_. Some x)) [] x"
  by (simp add: decodes_def codec_simps)

lemma decodes_if [decode_rules]:
  "(b \<Longrightarrow> decodes f e x) \<Longrightarrow> (\<not> b \<Longrightarrow> decodes g e x) \<Longrightarrow> decodes (\<lambda>r. if b then f r else g r) e x"
  by (cases b) simp_all

lemma reads_if:
  "(b \<Longrightarrow> reads f e x) \<Longrightarrow> (\<not> b \<Longrightarrow> reads g e x) \<Longrightarrow> reads (\<lambda>r. if b then f r else g r) e x"
  by (cases b) simp_all

lemma ends_start: "ends f e x \<Longrightarrow> length e < usize_limit \<Longrightarrow> f (reader_new e) = Inr x"
  unfolding ends_def by (drule spec[of _ "[]"]) (simp add: codec_simps)

lemma decodes_start: "decodes f e x \<Longrightarrow> length e < usize_limit \<Longrightarrow> f (reader_new e) = Some x"
  unfolding decodes_def by (drule spec[of _ "[]"]) (simp add: codec_simps)

text \<open>A loop \<open>for _ in 0..n\<close> that reads one item in each round.\<close>

fun read_n :: "nat \<Rightarrow> (reader \<Rightarrow> 'e + 'a \<times> reader) \<Rightarrow> reader \<Rightarrow> 'e + 'a list \<times> reader" where
  "read_n 0 f r = Inr ([], r)"
| "read_n (Suc n) f r = bind_result (f r) (\<lambda>(x, r). bind_result (read_n n f r) (\<lambda>(xs, r). Inr (x # xs, r)))"

lemma reads_list:
  "(\<And>x. x \<in> set xs \<Longrightarrow> reads f (enc x) x) \<Longrightarrow> reads (read_n (length xs) f) (concat (map enc xs)) xs"
proof (induction xs)
  case Nil
  show ?case by (simp add: reads_def)
next
  case (Cons x xs)
  have "reads (\<lambda>r. bind_result (f r) (\<lambda>(x, r). bind_result (read_n (length xs) f r) (\<lambda>(xs, r). Inr (x # xs, r))))
      (enc x @ (concat (map enc xs) @ [])) (x # xs)"
    by (rule reads_bind[OF Cons.prems reads_bind[OF Cons.IH reads_return]]) (simp_all add: Cons.prems)
  then show ?case by (simp add: reads_def)
qed

lemma read_n_length: "read_n n f r = Inr (xs, r') \<Longrightarrow> length xs = n"
  by (induction n arbitrary: r xs r') (auto simp: result_simps)

text \<open>Writing the items of a list one after the other.\<close>

lemma wbuf_put_list:
  "wbuf (foldl put_bytes w xs) = wbuf w @ concat (map bytes_enc xs)"
  by (induction xs arbitrary: w) (simp_all add: codec_simps)

lemma length_bytes_enc [simp]: "length (bytes_enc bs) = 4 + length bs"
  by (simp add: bytes_enc_def)

section \<open>Optional readers\<close>

text \<open>
  A reader in a function that returns an option: \<open>.ok()?\<close> on a read, or a choice among such
  readers.
\<close>

definition scans :: "(reader \<Rightarrow> ('a \<times> reader) option) \<Rightarrow> bytes \<Rightarrow> 'a \<Rightarrow> bool" where
  "scans f e x \<longleftrightarrow> (\<forall>p q. length p + length e + length q < usize_limit \<longrightarrow>
     f (reader_at p (e @ q)) = Some (x, reader_at (p @ e) q))"

named_theorems scan_rules \<open>composition of optional readers\<close>

lemma scans_at:
  "scans f e x \<Longrightarrow> length p + length e + length q < usize_limit \<Longrightarrow>
    f (reader_at p (e @ q)) = Some (x, reader_at (p @ e) q)"
  by (simp add: scans_def)

lemma scans_ok [scan_rules]: "reads f e x \<Longrightarrow> scans (\<lambda>r. ok (f r)) e x"
  by (simp add: scans_def reads_def)

lemma scans_bind [scan_rules]:
  assumes "scans f e x" "scans (g x) e' y"
  shows "scans (\<lambda>r. Option.bind (f r) (\<lambda>(x, r). g x r)) (e @ e') y"
  using scans_at[OF assms(1), of _ "e' @ _"] scans_at[OF assms(2), of "_ @ e"] by (simp add: scans_def add.assoc)

lemma scans_return [scan_rules]: "scans (\<lambda>r. Some (x, r)) [] x"
  by (simp add: scans_def)

lemma scans_check [scan_rules]:
  "m = Some y \<Longrightarrow> scans (g y) e x \<Longrightarrow> scans (\<lambda>r. Option.bind m (\<lambda>y. g y r)) e x"
  by (simp add: scans_def)

lemma scans_if [scan_rules]:
  "(b \<Longrightarrow> scans f e x) \<Longrightarrow> (\<not> b \<Longrightarrow> scans g e x) \<Longrightarrow> scans (\<lambda>r. if b then f r else g r) e x"
  by (cases b) simp_all

lemma decodes_scan [scan_rules]:
  assumes "scans f e x" "decodes (g x) e' y"
  shows "decodes (\<lambda>r. Option.bind (f r) (\<lambda>(x, r). g x r)) (e @ e') y"
  using assms(2) scans_at[OF assms(1), of _ e'] by (fastforce simp: decodes_def)

lemma scan_all:
  assumes "scans f e x" "length e < usize_limit"
  shows "Option.bind (f (reader_new e)) (\<lambda>(x, r). Option.bind (ok (finish r)) (\<lambda>_. Some x)) = Some x"
  using scans_at[OF assms(1), of "[]" "[]"] assms(2) by (simp add: codec_simps)

section \<open>Words in two halves\<close>

text \<open>A 64-bit word travels as its upper and its lower 32 bits.\<close>

definition hi32 :: "u64 \<Rightarrow> u32" where
  "hi32 v = ucast (drop_bit 32 v)"

definition lo32 :: "u64 \<Rightarrow> u32" where
  "lo32 v = ucast v"

definition join32 :: "u32 \<Rightarrow> u32 \<Rightarrow> u64" where
  "join32 h l = or (push_bit 32 (ucast h)) (ucast l)"

lemma join32_halves [simp]: "join32 (hi32 v) (lo32 v) = v"
  by (rule bit_word_eqI) (auto simp: join32_def hi32_def lo32_def bit_simps)

lemma halves_eq_iff: "hi32 v = hi32 w \<and> lo32 v = lo32 w \<longleftrightarrow> v = w"
  by (metis join32_halves)

end
