(* ===== verification/Marking.thy ===== *)
theory Marking
  imports Codec
begin

text \<open>
  Classification markings, \<open>src/crates/core/src/marking.rs\<close>: the ordered levels, the marking
  with compartments and caveats, its banner and channel-policy check, its wire form, and the
  group-message payload (marking, text and optional name tag) that is sealed under the epoch.
\<close>

section \<open>Levels\<close>

datatype classification = Unclassified | Cui | Confidential | Secret | TopSecret

fun class_banner :: "classification \<Rightarrow> str" where
  "class_banner Unclassified = ascii ''UNCLASSIFIED''"
| "class_banner Cui = ascii ''CUI''"
| "class_banner Confidential = ascii ''CONFIDENTIAL''"
| "class_banner Secret = ascii ''SECRET''"
| "class_banner TopSecret = ascii ''TOP SECRET''"

fun portion :: "classification \<Rightarrow> str" where
  "portion Unclassified = ascii ''U''"
| "portion Cui = ascii ''CUI''"
| "portion Confidential = ascii ''C''"
| "portion Secret = ascii ''S''"
| "portion TopSecret = ascii ''TS''"

fun class_tag :: "classification \<Rightarrow> byte" where
  "class_tag Unclassified = 0"
| "class_tag Cui = 1"
| "class_tag Confidential = 2"
| "class_tag Secret = 3"
| "class_tag TopSecret = 4"

definition class_from_tag :: "byte \<Rightarrow> core_error + classification" where
  "class_from_tag t =
     (if t = 0 then Inr Unclassified else if t = 1 then Inr Cui else if t = 2 then Inr Confidential
      else if t = 3 then Inr Secret else if t = 4 then Inr TopSecret else cmalformed ''classification tag'')"

text \<open>The derived \<open>Ord\<close> orders the levels as they are declared.\<close>

instantiation classification :: linorder
begin

definition less_eq_classification :: "classification \<Rightarrow> classification \<Rightarrow> bool" where
  "less_eq_classification a b \<longleftrightarrow> class_tag a \<le> class_tag b"

definition less_classification :: "classification \<Rightarrow> classification \<Rightarrow> bool" where
  "less_classification a b \<longleftrightarrow> class_tag a < class_tag b"

instance
proof
  fix a b :: classification
  show "a = b" if "a \<le> b" "b \<le> a"
    using that by (cases a; cases b) (simp_all add: less_eq_classification_def word_le_nat_alt)
qed (auto simp: less_eq_classification_def less_classification_def)

end

lemma class_from_tag [simp, reads_intros]: "class_from_tag (class_tag c) = Inr c"
  by (cases c) (simp_all add: class_from_tag_def)

section \<open>Markings\<close>

record marking =
  mk_level :: classification
  compartments :: "str list"
  caveats :: "str list"

definition bare_level :: "classification \<Rightarrow> marking" where
  "bare_level l = \<lparr>mk_level = l, compartments = [], caveats = []\<rparr>"

text \<open>\<open>join\<close> of a slice of strings.\<close>

fun join_strs :: "str \<Rightarrow> str list \<Rightarrow> str" where
  "join_strs sep [] = []"
| "join_strs sep [s] = s"
| "join_strs sep (s # t # ss) = s @ sep @ join_strs sep (t # ss)"

definition banner :: "marking \<Rightarrow> str" where
  "banner m =
     class_banner (mk_level m) @
     (if compartments m \<noteq> [] then ascii ''//'' @ join_strs (ascii ''/'') (compartments m) else []) @
     (if caveats m \<noteq> [] then ascii ''//'' @ join_strs (ascii ''/'') (caveats m) else [])"

definition permitted_under :: "marking \<Rightarrow> marking \<Rightarrow> bool" where
  "permitted_under m policy \<longleftrightarrow> mk_level m \<le> mk_level policy \<and>
     list_all (\<lambda>c. c \<in> set (compartments policy)) (compartments m) \<and>
     list_all (\<lambda>c. c \<in> set (caveats policy)) (caveats m)"

definition marking_encode :: "marking \<Rightarrow> bytes" where
  "marking_encode m =
     (let w = put_u8 writer_new (class_tag (mk_level m));
          w = put_u32 w (of_nat (length (compartments m)));
          w = foldl put_bytes w (compartments m);
          w = put_u32 w (of_nat (length (caveats m)));
          w = foldl put_bytes w (caveats m)
      in into_vec w)"

definition MAX_MARKING_ITEMS :: u32 where
  "MAX_MARKING_ITEMS = 256"

definition read_string :: "reader \<Rightarrow> core_error + str \<times> reader" where
  "read_string r =
     bind_result (cwire (get_bytes r)) (\<lambda>(b, r).
     bind_result (ok_or (CMalformed (ascii ''marking item utf-8'')) (from_utf8 b)) (\<lambda>s. Inr (s, r)))"

definition read_strings :: "reader \<Rightarrow> core_error + str list \<times> reader" where
  "read_strings r =
     bind_result (cwire (get_u32 r)) (\<lambda>(n, r).
       if n > MAX_MARKING_ITEMS then cmalformed ''too many marking items''
       else read_n (unat n) read_string r)"

definition marking_read :: "reader \<Rightarrow> core_error + marking \<times> reader" where
  "marking_read r =
     bind_result (cwire (get_u8 r)) (\<lambda>(t, r).
     bind_result (class_from_tag t) (\<lambda>level.
     bind_result (read_strings r) (\<lambda>(comps, r).
     bind_result (read_strings r) (\<lambda>(cavs, r).
       Inr (\<lparr>mk_level = level, compartments = comps, caveats = cavs\<rparr>, r)))))"

definition marking_decode :: "bytes \<Rightarrow> core_error + marking" where
  "marking_decode bs =
     bind_result (marking_read (reader_new bs)) (\<lambda>(m, r).
     bind_result (map_err (\<lambda>_. CMalformed (ascii ''trailing marking bytes'')) (finish r)) (\<lambda>_. Inr m))"

definition put_opt :: "writer \<Rightarrow> marking option \<Rightarrow> writer" where
  "put_opt w m =
     (case m of Some mk \<Rightarrow> put_bytes (put_u8 w 1) (marking_encode mk) | None \<Rightarrow> put_u8 w 0)"

definition get_opt :: "reader \<Rightarrow> core_error + marking option \<times> reader" where
  "get_opt r =
     bind_result (cwire (get_u8 r)) (\<lambda>(flag, r).
       if flag = 0 then Inr (None, r)
       else if flag = 1 then
         bind_result (cwire (get_bytes r)) (\<lambda>(b, r).
         bind_result (marking_decode b) (\<lambda>m. Inr (Some m, r)))
       else cmalformed ''optional marking flag'')"

section \<open>Message payloads\<close>

definition encode_payload_tagged :: "marking option \<Rightarrow> str \<Rightarrow> bytes option \<Rightarrow> bytes" where
  "encode_payload_tagged marking txt name_tag =
     (let w = put_opt writer_new marking;
          w = put_bytes w txt;
          w = (case name_tag of Some t \<Rightarrow> put_bytes w t | None \<Rightarrow> w)
      in into_vec w)"

definition encode_payload :: "marking option \<Rightarrow> str \<Rightarrow> bytes" where
  "encode_payload marking txt = encode_payload_tagged marking txt None"

definition decode_payload_tagged :: "bytes \<Rightarrow> (marking option \<times> str \<times> bytes option) option" where
  "decode_payload_tagged bs = do {
     (marking, r) \<leftarrow> ok (get_opt (reader_new bs));
     (b, r) \<leftarrow> ok (get_bytes r);
     txt \<leftarrow> from_utf8 b;
     (name_tag, r) \<leftarrow>
       (if remaining r > 0 then do {
          (t, r) \<leftarrow> ok (get_bytes r);
          if length t = 8 then Some (Some t, r) else None
        } else Some (None, r));
     _ \<leftarrow> ok (finish r);
     Some (marking, txt, name_tag)
   }"

definition decode_payload :: "bytes \<Rightarrow> (marking option \<times> str) option" where
  "decode_payload bs = map_option (\<lambda>(m, t, _). (m, t)) (decode_payload_tagged bs)"

section \<open>The channel-policy check\<close>

text \<open>
  The channel policy check is a preorder on markings that bounds the level: a marking is
  permitted under itself, permission composes, and what is permitted never exceeds the level
  or names a compartment or caveat outside the policy. Markings permitted under each other
  differ at most in the order and repetition of their lists.
\<close>

lemma permitted_under_preorder:
  "permitted_under m m \<and>
   (permitted_under m n \<longrightarrow> permitted_under n p \<longrightarrow> permitted_under m p) \<and>
   (permitted_under m n \<and> permitted_under n m \<longleftrightarrow>
      mk_level m = mk_level n \<and> set (compartments m) = set (compartments n) \<and> set (caveats m) = set (caveats n))"
  by (auto simp: permitted_under_def list_all_iff)

lemma permitted_under_preorder_witness:
  "permitted_under (bare_level Secret) \<lparr>mk_level = TopSecret, compartments = [[1]], caveats = []\<rparr> \<and>
   permitted_under (bare_level Cui) (bare_level Secret) \<and>
   permitted_under (bare_level Cui) \<lparr>mk_level = TopSecret, compartments = [[1]], caveats = []\<rparr>"
proof -
  let ?p = "\<lparr>mk_level = TopSecret, compartments = [[1]], caveats = []\<rparr>"
  have "permitted_under (bare_level Secret) ?p" "permitted_under (bare_level Cui) (bare_level Secret)"
    by (simp_all add: permitted_under_def bare_level_def less_eq_classification_def word_le_nat_alt)
  then show ?thesis
    using permitted_under_preorder[of "bare_level Cui" "bare_level Secret" ?p] by blast
qed

section \<open>Round trips\<close>

definition text_ok :: "str \<Rightarrow> bool" where
  "text_ok s \<longleftrightarrow> utf8_valid s \<and> frame_sized s"

definition strs_ok :: "str list \<Rightarrow> bool" where
  "strs_ok ss \<longleftrightarrow> length ss \<le> 256 \<and> list_all text_ok ss"

definition marking_ok :: "marking \<Rightarrow> bool" where
  "marking_ok m \<longleftrightarrow> strs_ok (compartments m) \<and> strs_ok (caveats m) \<and> frame_sized (marking_encode m)"

abbreviation strs_enc :: "str list \<Rightarrow> bytes" where
  "strs_enc ss \<equiv> u32_be (of_nat (length ss)) @ concat (map bytes_enc ss)"

lemma marking_encode_bytes:
  "marking_encode m = [class_tag (mk_level m)] @ strs_enc (compartments m) @ strs_enc (caveats m)"
  by (simp add: marking_encode_def into_vec_def codec_simps wbuf_put_list)

lemma reads_string:
  assumes "text_ok s"
  shows "reads read_string (bytes_enc s) s"
proof -
  have "reads read_string (bytes_enc s @ []) s"
    unfolding read_string_def by (rule reads_intros | use assms in \<open>simp add: text_ok_def\<close>)+
  then show ?thesis by simp
qed

lemma reads_strings [reads_intros]: "strs_ok ss \<Longrightarrow> reads read_strings (strs_enc ss) ss"
proof -
  assume ok: "strs_ok ss"
  then have u: "unat (of_nat (length ss) :: u32) = length ss" by (simp add: strs_ok_def)
  have "\<not> MAX_MARKING_ITEMS < of_nat (length ss)"
    using ok u by (simp add: word_less_nat_alt MAX_MARKING_ITEMS_def strs_ok_def)
  moreover have "reads (read_n (unat (of_nat (length ss) :: u32)) read_string) (concat (map bytes_enc ss)) ss"
    unfolding u by (rule reads_list) (use ok in \<open>auto simp: strs_ok_def list_all_iff intro: reads_string\<close>)
  ultimately show ?thesis unfolding read_strings_def by - (rule reads_intros | assumption)+
qed

lemma reads_marking:
  assumes "marking_ok m"
  shows "reads marking_read (marking_encode m) m"
proof -
  have "reads marking_read ([class_tag (mk_level m)] @ strs_enc (compartments m) @ strs_enc (caveats m) @ [])
      \<lparr>mk_level = mk_level m, compartments = compartments m, caveats = caveats m\<rparr>"
    unfolding marking_read_def by (rule reads_intros | use assms in \<open>simp add: marking_ok_def\<close>)+
  then show ?thesis by (cases m) (simp add: marking_encode_bytes)
qed

lemma marking_decode_encode:
  assumes "marking_ok m"
  shows "marking_decode (marking_encode m) = Inr m"
proof -
  have "length (marking_encode m) < usize_limit"
    using assms by (simp add: marking_ok_def frame_sized_def MAX_FRAME_def usize_limit_def)
  then show ?thesis
    using reads_start[OF reads_marking[OF assms]] by (simp add: marking_decode_def codec_simps)
qed

abbreviation opt_enc :: "marking option \<Rightarrow> bytes" where
  "opt_enc mo \<equiv> (case mo of Some m \<Rightarrow> [1] @ bytes_enc (marking_encode m) | None \<Rightarrow> [0])"

lemma put_opt_bytes [codec_simps]: "wbuf (put_opt w mo) = wbuf w @ opt_enc mo"
  by (simp add: put_opt_def codec_simps split: option.split)

lemma reads_opt [reads_intros]:
  assumes "pred_option marking_ok mo"
  shows "reads get_opt (opt_enc mo) mo"
proof (cases mo)
  case None
  have "reads get_opt ([0] @ []) None" unfolding get_opt_def
    by (rule reads_bind[OF reads_err[OF reads_u8] reads_guard_True[OF _ reads_return]]) simp
  then show ?thesis using None by simp
next
  case (Some m)
  then have ok: "marking_ok m" using assms by simp
  have body: "reads (\<lambda>r. bind_result (cwire (get_bytes r)) (\<lambda>(b, r). bind_result (marking_decode b) (\<lambda>m. Inr (Some m, r))))
      (bytes_enc (marking_encode m) @ []) (Some m)"
    by (rule reads_intros marking_decode_encode[OF ok] | (use ok in \<open>simp add: marking_ok_def\<close>))+
  have "reads get_opt ([1] @ bytes_enc (marking_encode m)) (Some m)"
    unfolding get_opt_def by (rule reads_bind[OF reads_err[OF reads_u8]]) (use body in simp)
  then show ?thesis using Some by simp
qed

lemma payload_decodes:
  assumes "pred_option marking_ok m" "text_ok t" "pred_option (\<lambda>b. length b = 8) tag"
  shows "decode_payload_tagged (encode_payload_tagged m t tag) = Some (m, t, tag)"
proof -
  let ?tag = "case tag of Some b \<Rightarrow> bytes_enc b | None \<Rightarrow> []" and ?o = "opt_enc m"
  have e: "encode_payload_tagged m t tag = ?o @ bytes_enc t @ ?tag"
    by (simp add: encode_payload_tagged_def into_vec_def codec_simps split: option.split)
  have "length ?o \<le> 5 + MAX_FRAME" using assms(1) by (auto simp: marking_ok_def frame_sized_def split: option.split)
  moreover have "length ?tag \<le> 12" using assms(3) by (cases tag) simp_all
  ultimately have len: "length ?o + (4 + length t) + length ?tag < usize_limit"
    using assms(2) by (simp add: text_ok_def frame_sized_def MAX_FRAME_def usize_limit_def)
  have "get_opt (reader_at [] (?o @ bytes_enc t @ ?tag)) = Inr (m, reader_at ?o (bytes_enc t @ ?tag))"
    using reads_opt[OF assms(1)] len unfolding reads_def by (fastforce simp: algebra_simps)
  moreover have "get_bytes (reader_at ?o (bytes_enc t @ ?tag)) = Inr (t, reader_at (?o @ bytes_enc t) ?tag)"
    by (rule lp.get_at) (use assms(2) len in \<open>simp_all add: text_ok_def\<close>)
  moreover have "get_bytes (reader_at (?o @ bytes_enc t) (bytes_enc b)) = Inr (b, reader_at ((?o @ bytes_enc t) @ bytes_enc b) [])"
    if "tag = Some b" for b
    using lp.get_at[of b "?o @ bytes_enc t" "[]"] that assms(3) len by (simp add: frame_sized_def MAX_FRAME_def)
  ultimately show ?thesis
    using assms(2,3) unfolding e decode_payload_tagged_def
    by (cases tag) (simp_all add: codec_simps text_ok_def from_utf8_def)
qed

text \<open>
  C25. The payload sealed for a group message decodes to the marking, text and name tag it was
  built from, with the tag present or absent; the decoder that ignores the tag reads the same
  marking and text.
\<close>

theorem payload_roundtrip:
  assumes "pred_option marking_ok m" "text_ok t" "pred_option (\<lambda>b. length b = 8) tag"
  shows "decode_payload_tagged (encode_payload_tagged m t tag) = Some (m, t, tag) \<and>
    decode_payload (encode_payload_tagged m t tag) = Some (m, t)"
  using payload_decodes[OF assms] by (simp add: decode_payload_def)

theorem payload_roundtrip_witness:
  "decode_payload_tagged (encode_payload_tagged (Some (bare_level Secret)) (ascii ''hi'') (Some [1, 2, 3, 4, 5, 6, 7, 8])) =
     Some (Some (bare_level Secret), ascii ''hi'', Some [1, 2, 3, 4, 5, 6, 7, 8])"
proof -
  have "marking_ok (bare_level Secret)"
    by (simp add: marking_ok_def strs_ok_def bare_level_def frame_sized_def marking_encode_bytes MAX_FRAME_def)
  moreover have "text_ok (ascii ''hi'')"
    by (simp add: text_ok_def frame_sized_def MAX_FRAME_def ascii_def word_le_nat_alt)
  ultimately show ?thesis
    using payload_roundtrip[of "Some (bare_level Secret)" "ascii ''hi''" "Some [1, 2, 3, 4, 5, 6, 7, 8]"] by simp
qed

section \<open>Markings as data\<close>

lemma read_string_text:
  assumes "reader_ok r" "read_string r = Inr (s, r')"
  shows "text_ok s \<and> reader_ok r'"
  using assms lp.get_consumes[of r] by (auto simp: read_string_def result_simps text_ok_def)

lemma read_n_invariant:
  assumes "\<And>r x r'. reader_ok r \<Longrightarrow> f r = Inr (x, r') \<Longrightarrow> Q x \<and> reader_ok r'"
  shows "reader_ok r \<Longrightarrow> read_n n f r = Inr (xs, r') \<Longrightarrow> list_all Q xs \<and> reader_ok r'"
proof (induction n arbitrary: r xs r')
  case (Suc n)
  then obtain x s ys t where "f r = Inr (x, s)" "read_n n f s = Inr (ys, t)" "xs = x # ys" "r' = t"
    by (auto simp: result_simps)
  then show ?case using assms[OF Suc.prems(1)] Suc.IH by auto
qed simp

lemma read_strings_ok:
  assumes "reader_ok r" "read_strings r = Inr (ss, r')"
  shows "strs_ok ss \<and> reader_ok r'"
proof -
  obtain n s where n: "get_u32 r = Inr (n, s)" "\<not> n > MAX_MARKING_ITEMS" "read_n (unat n) read_string s = Inr (ss, r')"
    using assms(2) by (auto simp: read_strings_def result_simps split: if_splits)
  have s: "reader_ok s" using u32.get_consumes(3)[OF assms(1) n(1)] .
  have "unat n \<le> 256" using n(2) by (simp add: word_less_nat_alt MAX_MARKING_ITEMS_def)
  then show ?thesis
    using read_n_length[OF n(3)] read_n_invariant[of read_string text_ok, OF read_string_text s n(3)]
    by (simp add: strs_ok_def)
qed

text \<open>
  Whatever bytes arrive, a marking that decodes has at most 256 compartments and at most
  256 caveats, each of them valid text within the frame limit.
\<close>

lemma decoded_marking_wf:
  assumes "marking_decode bs = Inr m" "length bs < usize_limit"
  shows "strs_ok (compartments m) \<and> strs_ok (caveats m)"
proof -
  have r0: "reader_ok (reader_new bs)" using assms(2) by (simp add: codec_simps)
  obtain t r1 l cs r2 vs r3 where g: "get_u8 (reader_new bs) = Inr (t, r1)" "read_strings r1 = Inr (cs, r2)"
      "read_strings r2 = Inr (vs, r3)" "m = \<lparr>mk_level = l, compartments = cs, caveats = vs\<rparr>"
    using assms(1) by (auto simp: marking_decode_def marking_read_def result_simps)
  have c: "strs_ok cs \<and> reader_ok r2" by (rule read_strings_ok[OF u8.get_consumes(3)[OF r0 g(1)] g(2)])
  then have "strs_ok vs" using read_strings_ok[OF _ g(3)] by blast
  with c g(4) show ?thesis by simp
qed

lemma decoded_marking_wf_witness:
  "marking_decode [3, 0, 0, 0, 0, 0, 0, 0, 0] = Inr (bare_level Secret) \<and>
   strs_ok (compartments (bare_level Secret)) \<and> strs_ok (caveats (bare_level Secret))"
proof -
  have "marking_ok (bare_level Secret)"
    by (simp add: marking_ok_def strs_ok_def bare_level_def frame_sized_def marking_encode_bytes MAX_FRAME_def)
  moreover have e: "marking_encode (bare_level Secret) = [3, 0, 0, 0, 0, 0, 0, 0, 0]"
    by (simp add: bare_level_def marking_encode_bytes eval_simps)
  ultimately have d: "marking_decode [3, 0, 0, 0, 0, 0, 0, 0, 0] = Inr (bare_level Secret)"
    using marking_decode_encode[of "bare_level Secret"] by (simp only: e)
  have "strs_ok (compartments (bare_level Secret)) \<and> strs_ok (caveats (bare_level Secret))"
    by (rule decoded_marking_wf[OF d]) (simp add: usize_limit_def)
  with d show ?thesis by blast
qed

end
