(* ===== verification/History.thy ===== *)
theory History
  imports Marking
begin

text \<open>
  Retained chat history, \<open>src/crates/core/src/history.rs\<close>: the at-rest record of a message, its
  byte form, and the in-memory history store with its per-chat erasure.
\<close>

record history_record =
  hr_from :: bytes
  hr_ts :: u64
  hr_text :: str
  hr_marking :: "marking option"

definition record_encode :: "history_record \<Rightarrow> bytes" where
  "record_encode h =
     (let w = put_bytes writer_new (hr_from h);
          w = put_u64 w (hr_ts h);
          w = put_bytes w (encode_payload (hr_marking h) (hr_text h))
      in into_vec w)"

definition record_decode :: "bytes \<Rightarrow> history_record option" where
  "record_decode b = do {
     (fp, r) \<leftarrow> ok (get_bytes (reader_new b));
     if length fp \<noteq> 48 then None else do {
       (ts, r) \<leftarrow> ok (get_u64 r);
       (payload, r) \<leftarrow> ok (get_vec r);
       _ \<leftarrow> ok (finish r);
       (marking, txt) \<leftarrow> decode_payload payload;
       Some \<lparr>hr_from = fp, hr_ts = ts, hr_text = txt, hr_marking = marking\<rparr>
     }
   }"

section \<open>The in-memory history store\<close>

type_synonym history_store = "(str \<times> (bytes \<times> bytes) list) list"

definition history_new :: history_store where
  "history_new = []"

definition history_load :: "history_store \<Rightarrow> str \<Rightarrow> (bytes \<times> bytes) list" where
  "history_load h chat = (case map_of h chat of Some m \<Rightarrow> m | None \<Rightarrow> [])"

definition history_put :: "history_store \<Rightarrow> str \<Rightarrow> bytes \<Rightarrow> bytes \<Rightarrow> history_store" where
  "history_put h chat gid rec = AList.update chat (AList.update gid rec (history_load h chat)) h"

definition history_purge :: "history_store \<Rightarrow> str \<Rightarrow> history_store" where
  "history_purge h chat = AList.delete chat h"

lemma history_load_put:
  "history_load (history_put h c g r) c' = (if c' = c then AList.update g r (history_load h c) else history_load h c')"
  by (simp add: history_put_def history_load_def[of "AList.update _ _ _"] update_conv') (simp add: history_load_def)

lemma history_load_purge: "history_load (history_purge h c) c' = (if c' = c then [] else history_load h c')"
  by (simp add: history_purge_def history_load_def delete_conv')

section \<open>Properties\<close>

definition history_ok :: "history_record \<Rightarrow> bool" where
  "history_ok h \<longleftrightarrow> length (hr_from h) = 48 \<and> text_ok (hr_text h) \<and> pred_option marking_ok (hr_marking h) \<and>
     frame_sized (encode_payload (hr_marking h) (hr_text h))"

lemma decode_encode_payload:
  "pred_option marking_ok m \<Longrightarrow> text_ok t \<Longrightarrow> decode_payload (encode_payload m t) = Some (m, t)"
  using payload_decodes[of m t None] by (simp add: encode_payload_def decode_payload_def)

lemma record_decode_encode:
  assumes "history_ok h"
  shows "record_decode (record_encode h) = Some h"
proof -
  let ?f = "bytes_enc (hr_from h)" and ?t = "u64_be (hr_ts h)" and ?p = "encode_payload (hr_marking h) (hr_text h)"
  have e: "record_encode h = ?f @ ?t @ bytes_enc ?p"
    by (simp add: record_encode_def into_vec_def codec_simps)
  have sz: "frame_sized (hr_from h)" "frame_sized ?p" "length (hr_from h) = 48"
    using assms by (simp_all add: history_ok_def frame_sized_def MAX_FRAME_def)
  then have len: "length ?f + length ?t + length (bytes_enc ?p) < usize_limit"
    by (simp add: frame_sized_def MAX_FRAME_def usize_limit_def)
  have "get_bytes (reader_at [] (?f @ ?t @ bytes_enc ?p)) = Inr (hr_from h, reader_at ?f (?t @ bytes_enc ?p))"
    using lp.get_at[of "hr_from h" "[]" "?t @ bytes_enc ?p"] sz len by simp
  moreover have "get_u64 (reader_at ?f (?t @ bytes_enc ?p)) = Inr (hr_ts h, reader_at (?f @ ?t) (bytes_enc ?p))"
    using u64.get_at[of ?f "hr_ts h" "bytes_enc ?p"] len by simp
  moreover have "get_vec (reader_at (?f @ ?t) (bytes_enc ?p)) = Inr (?p, reader_at ((?f @ ?t) @ bytes_enc ?p) [])"
    using get_vec_at[of ?p "?f @ ?t" "[]"] sz len by simp
  moreover have "decode_payload ?p = Some (hr_marking h, hr_text h)"
    using assms by (intro decode_encode_payload) (simp_all add: history_ok_def)
  ultimately show ?thesis using sz(3) by (simp add: record_decode_def e codec_simps)
qed

text \<open>
  A retained record comes back as it was stored under its chat and message id until the
  chat is purged: the latest record put for the id decodes to itself, a purge leaves nothing
  of its chat, and no operation on one chat touches another.
\<close>

lemma history_retains:
  assumes "history_ok r"
  shows "map_option record_decode (map_of (history_load (history_put h chat gid (record_encode r)) chat) gid) = Some (Some r) \<and>
    history_load (history_purge h chat) chat = [] \<and>
    (c \<noteq> chat \<longrightarrow> history_load (history_put h chat gid (record_encode r)) c = history_load h c \<and>
       history_load (history_purge h chat) c = history_load h c) \<and>
    (g \<noteq> gid \<longrightarrow> map_of (history_load (history_put h chat gid (record_encode r)) chat) g = map_of (history_load h chat) g)"
  using record_decode_encode[OF assms]
  by (simp add: history_load_put history_load_purge update_conv')

lemma history_retains_witness:
  "map_option record_decode (map_of (history_load (history_put history_new [1] [2]
     (record_encode \<lparr>hr_from = replicate 48 7, hr_ts = 5, hr_text = [], hr_marking = None\<rparr>)) [1]) [2]) =
   Some (Some \<lparr>hr_from = replicate 48 7, hr_ts = 5, hr_text = [], hr_marking = None\<rparr>)"
proof -
  have "history_ok \<lparr>hr_from = replicate 48 7, hr_ts = 5, hr_text = [], hr_marking = None\<rparr>"
    by (simp add: history_ok_def text_ok_def frame_sized_def MAX_FRAME_def encode_payload_def encode_payload_tagged_def
        into_vec_def codec_simps)
  from history_retains[OF this] show ?thesis by blast
qed

end
