(* ===== verification/Outbox.thy ===== *)
theory Outbox
  imports Prelude
begin

text \<open>
  Store-and-forward queues: the outbox of \<open>src/crates/core/src/outbox.rs\<close> and the keeper queue
  of \<open>src/crates/core/src/keeper.rs\<close>, both an index of pending message ids over a host-provided
  store. The \<open>OutboxStore\<close> trait is the record of operations \<open>store_ops\<close>, passed to every
  operation; what its implementations promise is the locale \<open>outbox_store\<close>, in which the
  queue lemmas are proved once, and the in-memory store of the crate is its interpretation.
  A \<open>HashMap\<close> is an association list, whose order stands for the unspecified iteration order.
\<close>

definition saturating_sub :: "u64 \<Rightarrow> u64 \<Rightarrow> u64" where
  "saturating_sub a b = (if a \<le> b then 0 else a - b)"

section \<open>Stores\<close>

record 's store_ops =
  so_put :: "'s \<Rightarrow> str \<Rightarrow> bytes \<Rightarrow> bytes \<Rightarrow> 's"
  so_remove :: "'s \<Rightarrow> str \<Rightarrow> bytes \<Rightarrow> 's"
  so_load :: "'s \<Rightarrow> str \<Rightarrow> (bytes \<times> bytes) list"

type_synonym mem_store = "(str \<times> (bytes \<times> bytes) list) list"

definition mem_new :: mem_store where
  "mem_new = []"

definition mem_load :: "mem_store \<Rightarrow> str \<Rightarrow> (bytes \<times> bytes) list" where
  "mem_load s chat = (case map_of s chat of Some m \<Rightarrow> m | None \<Rightarrow> [])"

definition mem_put :: "mem_store \<Rightarrow> str \<Rightarrow> bytes \<Rightarrow> bytes \<Rightarrow> mem_store" where
  "mem_put s chat gid frame = AList.update chat (AList.update gid frame (mem_load s chat)) s"

definition mem_remove :: "mem_store \<Rightarrow> str \<Rightarrow> bytes \<Rightarrow> mem_store" where
  "mem_remove s chat gid =
     (case map_of s chat of Some m \<Rightarrow> AList.update chat (AList.delete gid m) s | None \<Rightarrow> s)"

definition in_memory_outbox :: "mem_store store_ops" where
  "in_memory_outbox = \<lparr>so_put = mem_put, so_remove = mem_remove, so_load = mem_load\<rparr>"

section \<open>The index of one chat\<close>

type_synonym index = "(bytes \<times> u64) list"

text \<open>\<open>if !v.iter().any(|(g, _)| *g == gid) { v.push((gid, now)) }\<close>\<close>

definition index_add :: "bytes \<Rightarrow> u64 \<Rightarrow> index \<Rightarrow> index" where
  "index_add gid now v = (if gid \<in> fst ` set v then v else v @ [(gid, now)])"

text \<open>\<open>while v.len() > cap { let (old, _) = v.remove(0); store.remove(chat, old); dropped += 1 }\<close>\<close>

fun trim_cap :: "'s store_ops \<Rightarrow> nat \<Rightarrow> str \<Rightarrow> index \<Rightarrow> 's \<Rightarrow> nat \<Rightarrow> index \<times> 's \<times> nat" where
  "trim_cap S cap chat [] s dropped = ([], s, dropped)"
| "trim_cap S cap chat ((old, t) # v) s dropped =
     (if length ((old, t) # v) > cap then trim_cap S cap chat v (so_remove S s chat old) (dropped + 1)
      else ((old, t) # v, s, dropped))"

definition remove_all :: "'s store_ops \<Rightarrow> 's \<Rightarrow> str \<Rightarrow> bytes list \<Rightarrow> 's" where
  "remove_all S s chat gids = foldl (\<lambda>s g. so_remove S s chat g) s gids"

definition expired_gids :: "u64 \<Rightarrow> u64 \<Rightarrow> index \<Rightarrow> bytes list" where
  "expired_gids ttl now v = map fst (filter (\<lambda>(_, t). saturating_sub now t > ttl) v)"

definition retain_fresh :: "u64 \<Rightarrow> u64 \<Rightarrow> index \<Rightarrow> index" where
  "retain_fresh ttl now v = filter (\<lambda>(_, t). saturating_sub now t \<le> ttl) v"

section \<open>Outbox\<close>

record 's outbox =
  ob_store :: 's
  ob_meta :: "(str \<times> index) list"
  ob_cap :: nat
  ob_ttl :: u64

definition outbox_new :: "'s \<Rightarrow> nat \<Rightarrow> u64 \<Rightarrow> 's outbox" where
  "outbox_new st cap ttl = \<lparr>ob_store = st, ob_meta = [], ob_cap = cap, ob_ttl = ttl\<rparr>"

definition set_store :: "'s outbox \<Rightarrow> 's \<Rightarrow> 's outbox" where
  "set_store ob st = ob\<lparr>ob_store := st\<rparr>"

text \<open>\<open>meta.entry(chat).or_default()\<close>, read and written back.\<close>

definition meta_of :: "('k \<times> index) list \<Rightarrow> 'k \<Rightarrow> index" where
  "meta_of meta chat = (case map_of meta chat of Some v \<Rightarrow> v | None \<Rightarrow> [])"

definition rehydrate :: "'s store_ops \<Rightarrow> 's outbox \<Rightarrow> str \<Rightarrow> u64 \<Rightarrow> 's outbox" where
  "rehydrate S ob chat now =
     (let persisted = so_load S (ob_store ob) chat;
          v = foldl (\<lambda>v (gid, _). index_add gid now v) (meta_of (ob_meta ob) chat) persisted
      in ob\<lparr>ob_meta := AList.update chat v (ob_meta ob)\<rparr>)"

definition enqueue :: "'s store_ops \<Rightarrow> 's outbox \<Rightarrow> str \<Rightarrow> bytes \<Rightarrow> bytes \<Rightarrow> u64 \<Rightarrow> nat \<times> 's outbox" where
  "enqueue S ob chat gid frame now =
     (let st = so_put S (ob_store ob) chat gid frame;
          v = index_add gid now (meta_of (ob_meta ob) chat);
          (v, st, dropped) = trim_cap S (ob_cap ob) chat v st 0
      in (dropped, ob\<lparr>ob_store := st, ob_meta := AList.update chat v (ob_meta ob)\<rparr>))"

definition ack :: "'s store_ops \<Rightarrow> 's outbox \<Rightarrow> str \<Rightarrow> bytes \<Rightarrow> 's outbox" where
  "ack S ob chat gid =
     (let ob = ob\<lparr>ob_store := so_remove S (ob_store ob) chat gid\<rparr>
      in case map_of (ob_meta ob) chat of
           Some v \<Rightarrow> ob\<lparr>ob_meta := AList.update chat (filter (\<lambda>(g, _). g \<noteq> gid) v) (ob_meta ob)\<rparr>
         | None \<Rightarrow> ob)"

definition pending :: "'s outbox \<Rightarrow> str \<Rightarrow> bytes list" where
  "pending ob chat = (case map_of (ob_meta ob) chat of Some v \<Rightarrow> map fst v | None \<Rightarrow> [])"

definition due_for_resend :: "'s store_ops \<Rightarrow> 's outbox \<Rightarrow> str \<Rightarrow> (bytes \<times> bytes) list" where
  "due_for_resend S ob chat = so_load S (ob_store ob) chat"

definition evict_expired :: "'s store_ops \<Rightarrow> 's outbox \<Rightarrow> str \<Rightarrow> u64 \<Rightarrow> nat \<times> 's outbox" where
  "evict_expired S ob chat now =
     (case map_of (ob_meta ob) chat of
        None \<Rightarrow> (0, ob)
      | Some v \<Rightarrow>
          let expired = expired_gids (ob_ttl ob) now v
          in (length expired,
              ob\<lparr>ob_store := remove_all S (ob_store ob) chat expired,
                 ob_meta := AList.update chat (retain_fresh (ob_ttl ob) now v) (ob_meta ob)\<rparr>))"

section \<open>Keeper queue\<close>

definition hex_digit :: "nat \<Rightarrow> byte" where
  "hex_digit n = (if n < 10 then of_nat (48 + n) else of_nat (87 + n))"

text \<open>\<open>write!(s, "{b:02x}")\<close> for each byte of the recipient fingerprint.\<close>

definition hex_key :: "bytes \<Rightarrow> str" where
  "hex_key recipient = concat (map (\<lambda>b. [hex_digit (unat b div 16), hex_digit (unat b mod 16)]) recipient)"

record 's keeper =
  kq_store :: 's
  kq_index :: "(bytes \<times> index) list"
  cap_per_peer :: nat
  kq_ttl :: u64

definition keeper_new :: "'s \<Rightarrow> nat \<Rightarrow> u64 \<Rightarrow> 's keeper" where
  "keeper_new st cap ttl = \<lparr>kq_store = st, kq_index = [], cap_per_peer = cap, kq_ttl = ttl\<rparr>"

definition buffer :: "'s store_ops \<Rightarrow> 's keeper \<Rightarrow> bytes \<Rightarrow> bytes \<Rightarrow> bytes \<Rightarrow> u64 \<Rightarrow> nat \<times> 's keeper" where
  "buffer S kq recipient gid frame now =
     (let st = so_put S (kq_store kq) (hex_key recipient) gid frame;
          v = index_add gid now (meta_of (kq_index kq) recipient);
          (v, st, dropped) = trim_cap S (cap_per_peer kq) (hex_key recipient) v st 0
      in (dropped, kq\<lparr>kq_store := st, kq_index := AList.update recipient v (kq_index kq)\<rparr>))"

definition drain :: "'s store_ops \<Rightarrow> 's keeper \<Rightarrow> bytes \<Rightarrow> (bytes \<times> bytes) list" where
  "drain S kq recipient = so_load S (kq_store kq) (hex_key recipient)"

definition digest :: "'s keeper \<Rightarrow> (bytes \<times> bytes) list" where
  "digest kq = concat (map (\<lambda>(recipient, entries). map (\<lambda>(gid, _). (gid, recipient)) entries) (kq_index kq))"

definition frame_for :: "'s store_ops \<Rightarrow> 's keeper \<Rightarrow> bytes \<Rightarrow> bytes \<Rightarrow> bytes option" where
  "frame_for S kq recipient gid =
     map_option snd (find (\<lambda>(g, _). g = gid) (so_load S (kq_store kq) (hex_key recipient)))"

definition keeper_ack :: "'s store_ops \<Rightarrow> 's keeper \<Rightarrow> bytes \<Rightarrow> bytes \<Rightarrow> 's keeper" where
  "keeper_ack S kq recipient gid =
     (let kq = kq\<lparr>kq_store := so_remove S (kq_store kq) (hex_key recipient) gid\<rparr>
      in case map_of (kq_index kq) recipient of
           Some v \<Rightarrow> kq\<lparr>kq_index := AList.update recipient (filter (\<lambda>(g, _). g \<noteq> gid) v) (kq_index kq)\<rparr>
         | None \<Rightarrow> kq)"

definition keeper_evict_expired :: "'s store_ops \<Rightarrow> 's keeper \<Rightarrow> bytes \<Rightarrow> u64 \<Rightarrow> nat \<times> 's keeper" where
  "keeper_evict_expired S kq recipient now =
     (case map_of (kq_index kq) recipient of
        None \<Rightarrow> (0, kq)
      | Some v \<Rightarrow>
          let expired = expired_gids (kq_ttl kq) now v
          in (length expired,
              kq\<lparr>kq_store := remove_all S (kq_store kq) (hex_key recipient) expired,
                 kq_index := AList.update recipient (retain_fresh (kq_ttl kq) now v) (kq_index kq)\<rparr>))"

section \<open>The queue a chat promises\<close>

text \<open>
  The specification of one chat: a list of pending entries (id, frame, time of arrival),
  oldest first. Enqueueing replaces the frame of an id that is already there and otherwise
  appends, then drops the oldest entries beyond the cap.
\<close>

type_synonym queue = "(bytes \<times> bytes \<times> u64) list"

definition spec_insert :: "bytes \<Rightarrow> bytes \<Rightarrow> u64 \<Rightarrow> queue \<Rightarrow> queue" where
  "spec_insert gid frame now q =
     (if gid \<in> fst ` set q then map (\<lambda>(g, f, t). (g, if g = gid then frame else f, t)) q else q @ [(gid, frame, now)])"

definition spec_enqueue :: "nat \<Rightarrow> bytes \<Rightarrow> bytes \<Rightarrow> u64 \<Rightarrow> queue \<Rightarrow> queue" where
  "spec_enqueue cap gid frame now q =
     (let q' = spec_insert gid frame now q in drop (length q' - cap) q')"

definition spec_ack :: "bytes \<Rightarrow> queue \<Rightarrow> queue" where
  "spec_ack gid q = filter (\<lambda>(g, _, _). g \<noteq> gid) q"

definition spec_expire :: "u64 \<Rightarrow> u64 \<Rightarrow> queue \<Rightarrow> queue" where
  "spec_expire ttl now q = filter (\<lambda>(_, _, t). saturating_sub now t \<le> ttl) q"

text \<open>The queue an index and a store represent.\<close>

definition queue_of :: "'s store_ops \<Rightarrow> 's \<Rightarrow> str \<Rightarrow> index \<Rightarrow> queue" where
  "queue_of S s chat v = map (\<lambda>(g, t). (g, the (map_of (so_load S s chat) g), t)) v"

definition backed :: "'s store_ops \<Rightarrow> 's \<Rightarrow> str \<Rightarrow> index \<Rightarrow> bool" where
  "backed S s chat v \<longleftrightarrow> distinct (map fst v) \<and> fst ` set v = dom (map_of (so_load S s chat))"

lemma trim_cap_eq:
  "trim_cap S cap chat v s d =
     (drop (length v - cap) v, remove_all S s chat (map fst (take (length v - cap) v)), d + (length v - cap))"
proof (induction v arbitrary: s d)
  case (Cons e v)
  obtain old t where e: "e = (old, t)" by fastforce
  show ?case
  proof (cases "length (e # v) > cap")
    case True
    then have "Suc (length v) - cap = Suc (length v - cap)" by simp
    then show ?thesis using True Cons by (simp add: e remove_all_def)
  qed (simp add: e remove_all_def)
qed (simp add: remove_all_def)

section \<open>The contract of a store\<close>

locale outbox_store =
  fixes S :: "'s store_ops" and inv :: "'s \<Rightarrow> bool"
  assumes inv_put: "inv s \<Longrightarrow> inv (so_put S s c g f)"
    and inv_remove: "inv s \<Longrightarrow> inv (so_remove S s c g)"
    and load_put: "inv s \<Longrightarrow> map_of (so_load S (so_put S s c g f) c') =
      (if c' = c then (map_of (so_load S s c))(g \<mapsto> f) else map_of (so_load S s c'))"
    and load_remove: "inv s \<Longrightarrow> map_of (so_load S (so_remove S s c g) c') =
      (if c' = c then (map_of (so_load S s c))(g := None) else map_of (so_load S s c'))"
    and load_distinct: "inv s \<Longrightarrow> distinct (map fst (so_load S s c))"
begin

lemma remove_all_load:
  assumes "inv s"
  shows "inv (remove_all S s chat gs) \<and> map_of (so_load S (remove_all S s chat gs) c) =
    (if c = chat then (map_of (so_load S s chat)) |` (- set gs) else map_of (so_load S s c))"
  using assms
proof (induction gs arbitrary: s)
  case (Cons g gs)
  have "(map_of (so_load S s chat))(g := None) |` (- set gs) = (map_of (so_load S s chat)) |` (- set (g # gs))"
    by (auto simp: restrict_map_def fun_eq_iff)
  then show ?case using Cons.IH[OF inv_remove[OF Cons.prems]] load_remove[OF Cons.prems]
    by (simp add: remove_all_def)
qed (simp add: remove_all_def restrict_map_def)

lemma removed:
  assumes "inv s" "backed S s chat v" "distinct (map fst w)" "fst ` set w = fst ` set v - set gs"
  shows "backed S (remove_all S s chat gs) chat w \<and>
    queue_of S (remove_all S s chat gs) chat w = queue_of S s chat w"
proof -
  note l = remove_all_load[OF assms(1), of chat gs chat, THEN conjunct2]
  have "g \<notin> set gs" if "(g, t) \<in> set w" for g t using that assms(4) by force
  then have "queue_of S (remove_all S s chat gs) chat w = queue_of S s chat w"
    unfolding queue_of_def l by (intro map_cong refl) (auto simp: restrict_map_def)
  moreover have "fst ` set w = dom (map_of (so_load S (remove_all S s chat gs) chat))"
    using assms(2,4) unfolding l backed_def by simp blast
  ultimately show ?thesis using assms(3) by (simp add: backed_def)
qed

lemma inserted:
  assumes "inv s" "backed S s chat v"
  shows "backed S (so_put S s chat gid frame) chat (index_add gid now v) \<and>
    queue_of S (so_put S s chat gid frame) chat (index_add gid now v) =
      spec_insert gid frame now (queue_of S s chat v)"
proof -
  have l: "map_of (so_load S (so_put S s chat gid frame) chat) = (map_of (so_load S s chat))(gid \<mapsto> frame)"
    using load_put[OF assms(1)] by simp
  have k: "fst ` set (queue_of S s chat v) = fst ` set v" by (force simp: queue_of_def)
  show ?thesis
  proof (cases "gid \<in> fst ` set v")
    case True
    then show ?thesis using assms(2) k
      by (auto simp: index_add_def backed_def spec_insert_def l queue_of_def)
  next
    case False
    then have "queue_of S (so_put S s chat gid frame) chat v = queue_of S s chat v"
      unfolding queue_of_def l by (intro map_cong refl) force
    then show ?thesis using assms(2) False k
      by (auto simp: index_add_def backed_def spec_insert_def l queue_of_def)
  qed
qed

lemma queue_of_drop: "queue_of S s chat (drop n v) = drop n (queue_of S s chat v)"
  by (simp add: queue_of_def drop_map)

lemma length_queue_of [simp]: "length (queue_of S s chat v) = length v"
  by (simp add: queue_of_def)

text \<open>One round of enqueueing: put the frame, add the id, trim to the cap.\<close>

lemma enqueue_step:
  assumes "inv s" "backed S s chat v"
    and "trim_cap S cap chat (index_add gid now v) (so_put S s chat gid frame) 0 = (v', s', d)"
  shows "inv s' \<and> backed S s' chat v' \<and> queue_of S s' chat v' = spec_enqueue cap gid frame now (queue_of S s chat v) \<and>
    d = length (spec_insert gid frame now (queue_of S s chat v)) - cap \<and>
    (\<forall>c. c \<noteq> chat \<longrightarrow> map_of (so_load S s' c) = map_of (so_load S s c))"
proof -
  let ?v = "index_add gid now v" and ?s = "so_put S s chat gid frame"
  define n where "n = length ?v - cap"
  let ?gs = "map fst (take n ?v)"
  have ins: "backed S ?s chat ?v" "queue_of S ?s chat ?v = spec_insert gid frame now (queue_of S s chat v)"
    using inserted[OF assms(1,2)] by simp_all
  have r: "v' = drop n ?v" "s' = remove_all S ?s chat ?gs" "d = n"
    using assms(3) unfolding trim_cap_eq n_def[symmetric] by auto
  have dis: "distinct (map fst ?v)" using ins(1) by (simp add: backed_def)
  have "set (map fst ?v) = set (map fst (take n ?v)) \<union> set (map fst (drop n ?v))"
    by (metis append_take_drop_id map_append set_append)
  moreover have "set (map fst (take n ?v)) \<inter> set (map fst (drop n ?v)) = {}"
    using dis by (metis append_take_drop_id distinct_append map_append)
  ultimately have "fst ` set (drop n ?v) = fst ` set ?v - set ?gs" by auto
  moreover have "distinct (map fst (drop n ?v))" using dis by (metis distinct_drop drop_map)
  ultimately have "backed S (remove_all S ?s chat ?gs) chat (drop n ?v) \<and>
      queue_of S (remove_all S ?s chat ?gs) chat (drop n ?v) = queue_of S ?s chat (drop n ?v)"
    by (intro removed[OF inv_put[OF assms(1)] ins(1)])
  then have "backed S s' chat v'" "queue_of S s' chat v' = drop n (queue_of S ?s chat ?v)"
    by (simp_all add: r(1,2) queue_of_drop)
  moreover have "n = length (spec_insert gid frame now (queue_of S s chat v)) - cap"
    unfolding n_def ins(2)[symmetric] by simp
  moreover have "inv s'" "c \<noteq> chat \<Longrightarrow> map_of (so_load S s' c) = map_of (so_load S s c)" for c
    using remove_all_load[OF inv_put[OF assms(1)]] load_put[OF assms(1)] unfolding r by simp_all
  ultimately show ?thesis using ins(2) r(3) by (simp add: spec_enqueue_def Let_def)
qed

lemma ack_step:
  assumes "inv s" "backed S s chat v"
  shows "backed S (so_remove S s chat gid) chat (filter (\<lambda>(g, _). g \<noteq> gid) v) \<and>
    queue_of S (so_remove S s chat gid) chat (filter (\<lambda>(g, _). g \<noteq> gid) v) = spec_ack gid (queue_of S s chat v)"
proof -
  let ?w = "filter (\<lambda>(g, _). g \<noteq> gid) v"
  have "distinct (map fst ?w)" using assms(2) by (intro distinct_map_filter_fst) (simp add: backed_def)
  moreover have "fst ` set ?w = fst ` set v - set [gid]" by (auto simp: image_iff)
  ultimately have "backed S (remove_all S s chat [gid]) chat ?w \<and>
      queue_of S (remove_all S s chat [gid]) chat ?w = queue_of S s chat ?w"
    by (rule removed[OF assms])
  moreover have "queue_of S s chat ?w = spec_ack gid (queue_of S s chat v)"
    by (simp add: queue_of_def spec_ack_def filter_map comp_def split_def)
  ultimately show ?thesis by (simp add: remove_all_def)
qed

lemma expire_step:
  assumes "inv s" "backed S s chat v"
  shows "backed S (remove_all S s chat (expired_gids ttl now v)) chat (retain_fresh ttl now v) \<and>
    queue_of S (remove_all S s chat (expired_gids ttl now v)) chat (retain_fresh ttl now v) =
      spec_expire ttl now (queue_of S s chat v) \<and>
    length (expired_gids ttl now v) = length (queue_of S s chat v) - length (spec_expire ttl now (queue_of S s chat v))"
proof -
  let ?w = "retain_fresh ttl now v" and ?gs = "expired_gids ttl now v"
  have d: "distinct (map fst v)" using assms(2) by (simp add: backed_def)
  have "distinct (map fst ?w)" using distinct_map_filter_fst[OF d] by (simp add: retain_fresh_def)
  moreover have "fst ` set ?w = fst ` set v - set ?gs"
    by (auto simp: retain_fresh_def expired_gids_def image_iff not_le Bex_def dest: eq_key_imp_eq_value[OF d])
  ultimately have "backed S (remove_all S s chat ?gs) chat ?w \<and>
      queue_of S (remove_all S s chat ?gs) chat ?w = queue_of S s chat ?w"
    by (rule removed[OF assms])
  moreover have q: "queue_of S s chat ?w = spec_expire ttl now (queue_of S s chat v)"
    by (simp add: queue_of_def spec_expire_def retain_fresh_def filter_map comp_def split_def)
  moreover have "length ?gs + length ?w = length v"
    using sum_length_filter_compl[of "\<lambda>(_, t). saturating_sub now t > ttl" v]
    by (simp add: expired_gids_def retain_fresh_def split_def not_less)
  moreover have "length ?w = length (spec_expire ttl now (queue_of S s chat v))"
    unfolding q[symmetric] by simp
  ultimately show ?thesis by simp
qed

end

section \<open>The in-memory store\<close>

definition mem_ok :: "mem_store \<Rightarrow> bool" where
  "mem_ok s \<longleftrightarrow> (\<forall>c m. map_of s c = Some m \<longrightarrow> distinct (map fst m))"

lemma mem_load_put:
  "mem_load (mem_put s c g f) c' = (if c' = c then AList.update g f (mem_load s c) else mem_load s c')"
  by (simp add: mem_put_def mem_load_def[of "AList.update _ _ _"] update_conv') (simp add: mem_load_def)

lemma mem_load_remove:
  "mem_load (mem_remove s c g) c' = (if c' = c then AList.delete g (mem_load s c) else mem_load s c')"
  by (simp add: mem_remove_def mem_load_def update_conv' split: option.split)

lemma mem_ok_iff: "mem_ok s \<longleftrightarrow> (\<forall>c. distinct (map fst (mem_load s c)))"
  by (auto simp: mem_ok_def mem_load_def split: option.splits)

interpretation mem: outbox_store in_memory_outbox mem_ok
  by unfold_locales
    (simp_all add: in_memory_outbox_def mem_ok_iff mem_load_put mem_load_remove distinct_update distinct_delete
      update_conv' delete_conv')

section \<open>Tables of indexes\<close>

text \<open>
  Both queues keep a table of indexes, one per chat or recipient, over one store; \<open>key\<close> names
  the chat of the store an entry belongs to. A step on one entry that leaves the other chats
  of the store alone keeps the whole table backed.
\<close>

definition table_ok :: "'s store_ops \<Rightarrow> 's \<Rightarrow> ('k \<Rightarrow> str) \<Rightarrow> ('k \<times> index) list \<Rightarrow> bool" where
  "table_ok S s key meta \<longleftrightarrow> (\<forall>k. backed S s (key k) (meta_of meta k))"

definition table_queue :: "'s store_ops \<Rightarrow> 's \<Rightarrow> ('k \<Rightarrow> str) \<Rightarrow> ('k \<times> index) list \<Rightarrow> 'k \<Rightarrow> queue" where
  "table_queue S s key meta k = queue_of S s (key k) (meta_of meta k)"

lemma meta_of_update [simp]:
  "meta_of (AList.update c v m) c' = (if c' = c then v else meta_of m c')"
  by (simp add: meta_of_def update_conv')

lemma meta_of_Nil [simp]: "meta_of [] k = []"
  by (simp add: meta_of_def)

lemma meta_of_Some: "map_of m k = Some v \<Longrightarrow> meta_of m k = v"
  by (simp add: meta_of_def)

lemma meta_of_None: "map_of m k = None \<Longrightarrow> meta_of m k = []"
  by (simp add: meta_of_def)

lemma backed_cong:
  "map_of (so_load S s c) = map_of (so_load S s' c) \<Longrightarrow> backed S s c v \<longleftrightarrow> backed S s' c v"
  by (simp add: backed_def)

lemma queue_of_cong:
  "map_of (so_load S s c) = map_of (so_load S s' c) \<Longrightarrow> queue_of S s c v = queue_of S s' c v"
  by (simp add: queue_of_def)

lemma table_step:
  assumes "table_ok S s key meta" "inj key" "backed S s' (key k) v'"
    and "\<And>c. c \<noteq> key k \<Longrightarrow> map_of (so_load S s' c) = map_of (so_load S s c)"
    and "\<And>j. meta_of meta' j = (if j = k then v' else meta_of meta j)"
  shows "table_ok S s' key meta' \<and>
    table_queue S s' key meta' j = (if j = k then queue_of S s' (key k) v' else table_queue S s key meta j)"
proof -
  have ne: "key i \<noteq> key k" if "i \<noteq> k" for i using that assms(2) by (metis injD)
  have "backed S s' (key i) (meta_of meta' i)" for i
  proof (cases "i = k")
    case False
    then show ?thesis
      using assms(1) backed_cong[OF assms(4)[OF ne[OF False]]] by (simp add: assms(5) table_ok_def)
  qed (simp add: assms(3,5))
  moreover have "table_queue S s' key meta' i = table_queue S s key meta i" if "i \<noteq> k" for i
    using queue_of_cong[OF assms(4)[OF ne[OF that]]] that by (simp add: table_queue_def assms(5))
  ultimately show ?thesis by (simp add: table_ok_def table_queue_def assms(5))
qed

context outbox_store
begin

text \<open>An id that is not indexed is not stored either, so removing it changes nothing.\<close>

lemma ack_absent:
  assumes "inv s" "backed S s chat []"
  shows "backed S (so_remove S s chat gid) chat [] \<and> queue_of S (so_remove S s chat gid) chat [] = []"
  using ack_step[OF assms, of gid] by (simp add: queue_of_def spec_ack_def)

lemma remove_other: "inv s \<Longrightarrow> c \<noteq> chat \<Longrightarrow> map_of (so_load S (so_remove S s chat gid) c) = map_of (so_load S s c)"
  by (simp add: load_remove)

lemma remove_all_other:
  "inv s \<Longrightarrow> c \<noteq> chat \<Longrightarrow> map_of (so_load S (remove_all S s chat gs) c) = map_of (so_load S s c)"
  using remove_all_load[of s chat gs c] by simp

lemma table_enqueue:
  assumes "inv s" "table_ok S s key meta" "inj key"
    and "trim_cap S cap (key k) (index_add gid now (meta_of meta k)) (so_put S s (key k) gid frame) 0 = (v', s', d)"
  shows "inv s' \<and> table_ok S s' key (AList.update k v' meta) \<and>
    d = length (spec_insert gid frame now (table_queue S s key meta k)) - cap \<and>
    table_queue S s' key (AList.update k v' meta) j =
      (if j = k then spec_enqueue cap gid frame now (table_queue S s key meta k) else table_queue S s key meta j)"
proof -
  have "backed S s (key k) (meta_of meta k)" using assms(2) by (simp add: table_ok_def)
  note st = enqueue_step[OF assms(1) this assms(4)]
  have "table_ok S s' key (AList.update k v' meta) \<and> table_queue S s' key (AList.update k v' meta) j =
      (if j = k then queue_of S s' (key k) v' else table_queue S s key meta j)"
    using st by (intro table_step[OF assms(2,3)]) simp_all
  with st show ?thesis by (auto simp: table_queue_def)
qed

lemma table_ack:
  assumes "inv s" "table_ok S s key meta" "inj key"
    and "meta' = (case map_of meta k of Some v \<Rightarrow> AList.update k (filter (\<lambda>(g, _). g \<noteq> gid) v) meta | None \<Rightarrow> meta)"
  shows "inv (so_remove S s (key k) gid) \<and> table_ok S (so_remove S s (key k) gid) key meta' \<and>
    table_queue S (so_remove S s (key k) gid) key meta' j =
      (if j = k then spec_ack gid (table_queue S s key meta k) else table_queue S s key meta j)"
proof -
  have b: "backed S s (key k) (meta_of meta k)" using assms(2) by (simp add: table_ok_def)
  let ?w = "filter (\<lambda>(g, _). g \<noteq> gid) (meta_of meta k)"
  have "meta_of meta' i = (if i = k then ?w else meta_of meta i)" for i
    using assms(4) by (auto simp: meta_of_Some meta_of_None split: option.splits)
  then have "table_ok S (so_remove S s (key k) gid) key meta' \<and> table_queue S (so_remove S s (key k) gid) key meta' j =
      (if j = k then queue_of S (so_remove S s (key k) gid) (key k) ?w else table_queue S s key meta j)"
    using ack_step[OF assms(1) b] remove_other[OF assms(1)] by (intro table_step[OF assms(2,3)]) simp_all
  then show ?thesis using ack_step[OF assms(1) b] inv_remove[OF assms(1)] by (auto simp: table_queue_def)
qed

lemma table_expire:
  assumes "inv s" "table_ok S s key meta" "inj key" "map_of meta k = Some v"
  shows "inv (remove_all S s (key k) (expired_gids ttl now v)) \<and>
    table_ok S (remove_all S s (key k) (expired_gids ttl now v)) key (AList.update k (retain_fresh ttl now v) meta) \<and>
    table_queue S (remove_all S s (key k) (expired_gids ttl now v)) key (AList.update k (retain_fresh ttl now v) meta) j =
      (if j = k then spec_expire ttl now (table_queue S s key meta k) else table_queue S s key meta j) \<and>
    length (expired_gids ttl now v) =
      length (table_queue S s key meta k) - length (spec_expire ttl now (table_queue S s key meta k))"
proof -
  let ?s = "remove_all S s (key k) (expired_gids ttl now v)" and ?w = "retain_fresh ttl now v"
  have b: "backed S s (key k) v" using assms(2,4) by (auto simp: table_ok_def dest: meta_of_Some)
  note st = expire_step[OF assms(1) b, of ttl now]
  have "table_ok S ?s key (AList.update k ?w meta) \<and> table_queue S ?s key (AList.update k ?w meta) j =
      (if j = k then queue_of S ?s (key k) ?w else table_queue S s key meta j)"
    using st remove_all_other[OF assms(1)] by (intro table_step[OF assms(2,3)]) simp_all
  then show ?thesis
    using st remove_all_load[OF assms(1), of "key k" "expired_gids ttl now v"]
    by (auto simp: table_queue_def meta_of_Some[OF assms(4)])
qed

end

section \<open>The outbox refines the queues\<close>

text \<open>An outbox uses the name of the chat itself as its key in the store.\<close>

definition chat_key :: "str \<Rightarrow> str" where
  "chat_key c = c"

lemma inj_chat_key [simp]: "inj chat_key"
  by (simp add: inj_def chat_key_def)

definition chat_queue :: "mem_store outbox \<Rightarrow> str \<Rightarrow> queue" where
  "chat_queue ob = table_queue in_memory_outbox (ob_store ob) chat_key (ob_meta ob)"

definition outbox_ok :: "mem_store outbox \<Rightarrow> bool" where
  "outbox_ok ob \<longleftrightarrow> mem_ok (ob_store ob) \<and> table_ok in_memory_outbox (ob_store ob) chat_key (ob_meta ob)"

lemma enqueue_refines:
  assumes "outbox_ok ob"
  shows "outbox_ok (snd (enqueue in_memory_outbox ob chat gid frame now)) \<and>
    fst (enqueue in_memory_outbox ob chat gid frame now) =
      length (spec_insert gid frame now (chat_queue ob chat)) - ob_cap ob \<and>
    chat_queue (snd (enqueue in_memory_outbox ob chat gid frame now)) c =
      (if c = chat then spec_enqueue (ob_cap ob) gid frame now (chat_queue ob chat) else chat_queue ob c)"
proof -
  let ?S = in_memory_outbox
  obtain v' s' d where t: "trim_cap ?S (ob_cap ob) (chat_key chat) (index_add gid now (meta_of (ob_meta ob) chat))
      (so_put ?S (ob_store ob) (chat_key chat) gid frame) 0 = (v', s', d)"
    by (metis prod_cases3)
  have "mem_ok (ob_store ob)" "table_ok ?S (ob_store ob) chat_key (ob_meta ob)" "inj chat_key"
    using assms by (simp_all add: outbox_ok_def)
  note st = mem.table_enqueue[OF this t]
  have e: "enqueue ?S ob chat gid frame now = (d, ob\<lparr>ob_store := s', ob_meta := AList.update chat v' (ob_meta ob)\<rparr>)"
    using t by (simp add: enqueue_def chat_key_def)
  show ?thesis unfolding e using st[of c] by (simp add: outbox_ok_def chat_queue_def)
qed

lemma ack_refines:
  assumes "outbox_ok ob"
  shows "outbox_ok (ack in_memory_outbox ob chat gid) \<and>
    chat_queue (ack in_memory_outbox ob chat gid) c =
      (if c = chat then spec_ack gid (chat_queue ob chat) else chat_queue ob c)"
proof -
  let ?m = "case map_of (ob_meta ob) chat of
      Some v \<Rightarrow> AList.update chat (filter (\<lambda>(g, _). g \<noteq> gid) v) (ob_meta ob) | None \<Rightarrow> ob_meta ob"
  have e: "ob_store (ack in_memory_outbox ob chat gid) = so_remove in_memory_outbox (ob_store ob) (chat_key chat) gid"
    "ob_meta (ack in_memory_outbox ob chat gid) = ?m"
    by (simp_all add: ack_def Let_def chat_key_def split: option.split)
  show ?thesis
    using assms mem.table_ack[of "ob_store ob" chat_key "ob_meta ob" ?m chat gid c] unfolding outbox_ok_def chat_queue_def e by simp
qed

lemma evict_refines:
  assumes "outbox_ok ob"
  shows "outbox_ok (snd (evict_expired in_memory_outbox ob chat now)) \<and>
    fst (evict_expired in_memory_outbox ob chat now) =
      length (chat_queue ob chat) - length (spec_expire (ob_ttl ob) now (chat_queue ob chat)) \<and>
    chat_queue (snd (evict_expired in_memory_outbox ob chat now)) c =
      (if c = chat then spec_expire (ob_ttl ob) now (chat_queue ob chat) else chat_queue ob c)"
proof (cases "map_of (ob_meta ob) chat")
  case None
  then have "chat_queue ob chat = []" by (simp add: chat_queue_def table_queue_def queue_of_def meta_of_None)
  then show ?thesis using None assms by (simp add: evict_expired_def spec_expire_def)
next
  case (Some v)
  then show ?thesis
    using assms mem.table_expire[of "ob_store ob" chat_key "ob_meta ob" chat v "ob_ttl ob" now c]
    by (simp add: evict_expired_def outbox_ok_def chat_queue_def chat_key_def)
qed

lemma index_add_present:
  "fst ` set xs \<subseteq> fst ` set v \<Longrightarrow> foldl (\<lambda>v (gid, _). index_add gid now v) v xs = v"
proof (induction xs)
  case (Cons x xs)
  then have "index_add (fst x) now v = v" by (simp add: index_add_def)
  with Cons show ?case by (simp add: split_beta)
qed simp

lemma rehydrate_refines:
  assumes "outbox_ok ob"
  shows "outbox_ok (rehydrate in_memory_outbox ob chat now)"
    and "chat_queue (rehydrate in_memory_outbox ob chat now) = chat_queue ob"
proof -
  let ?v = "meta_of (ob_meta ob) chat" and ?m = "AList.update chat (meta_of (ob_meta ob) chat) (ob_meta ob)"
  have "backed in_memory_outbox (ob_store ob) chat ?v" using assms by (simp add: outbox_ok_def table_ok_def chat_key_def)
  then have "fst ` set (so_load in_memory_outbox (ob_store ob) chat) \<subseteq> fst ` set ?v"
    by (simp add: backed_def dom_map_of_conv_image_fst)
  then have r: "rehydrate in_memory_outbox ob chat now = ob\<lparr>ob_meta := ?m\<rparr>"
    by (simp add: rehydrate_def index_add_present)
  have m: "meta_of ?m k = meta_of (ob_meta ob) k" for k by simp
  show "outbox_ok (rehydrate in_memory_outbox ob chat now)"
    using assms unfolding r outbox_ok_def table_ok_def by (simp add: m del: meta_of_update)
  show "chat_queue (rehydrate in_memory_outbox ob chat now) = chat_queue ob"
    unfolding r chat_queue_def table_queue_def by (simp add: fun_eq_iff m del: meta_of_update)
qed

text \<open>The states an outbox over a fresh in-memory store passes through.\<close>

inductive outbox_run :: "mem_store outbox \<Rightarrow> bool" where
  starts: "outbox_run (outbox_new mem_new cap ttl)"
| enqueues: "outbox_run ob \<Longrightarrow> outbox_run (snd (enqueue in_memory_outbox ob chat gid frame now))"
| acks: "outbox_run ob \<Longrightarrow> outbox_run (ack in_memory_outbox ob chat gid)"
| expires: "outbox_run ob \<Longrightarrow> outbox_run (snd (evict_expired in_memory_outbox ob chat now))"
| rehydrates: "outbox_run ob \<Longrightarrow> outbox_run (rehydrate in_memory_outbox ob chat now)"

lemma mem_new_empty: "mem_ok mem_new" "so_load in_memory_outbox mem_new c = []"
  by (simp_all add: mem_new_def mem_ok_def in_memory_outbox_def mem_load_def)

lemma outbox_run_ok: "outbox_run ob \<Longrightarrow> outbox_ok ob"
proof (induction rule: outbox_run.induct)
  case (starts cap ttl)
  show ?case by (simp add: outbox_new_def outbox_ok_def table_ok_def backed_def mem_new_empty)
qed (simp_all add: enqueue_refines ack_refines evict_refines rehydrate_refines)

text \<open>
  C4. The outbox implements one bounded FIFO queue per chat. In every state it reaches, each
  operation acts on the queue of its own chat as the specification says and leaves the queues
  of all other chats alone: \<open>enqueue\<close> replaces or appends, drops the oldest entries beyond the
  cap and returns how many; \<open>ack\<close> removes the entry; \<open>evict_expired\<close> removes the entries older
  than the time to live and returns how many; \<open>rehydrate\<close> changes nothing.
\<close>

theorem outbox_refines_queues:
  assumes "outbox_run ob"
  shows "chat_queue (snd (enqueue in_memory_outbox ob chat gid frame now)) =
      (chat_queue ob)(chat := spec_enqueue (ob_cap ob) gid frame now (chat_queue ob chat)) \<and>
    fst (enqueue in_memory_outbox ob chat gid frame now) =
      length (spec_insert gid frame now (chat_queue ob chat)) - ob_cap ob \<and>
    chat_queue (ack in_memory_outbox ob chat gid) = (chat_queue ob)(chat := spec_ack gid (chat_queue ob chat)) \<and>
    chat_queue (snd (evict_expired in_memory_outbox ob chat now)) =
      (chat_queue ob)(chat := spec_expire (ob_ttl ob) now (chat_queue ob chat)) \<and>
    fst (evict_expired in_memory_outbox ob chat now) =
      length (chat_queue ob chat) - length (spec_expire (ob_ttl ob) now (chat_queue ob chat)) \<and>
    chat_queue (rehydrate in_memory_outbox ob chat now) = chat_queue ob"
  using outbox_run_ok[OF assms] enqueue_refines ack_refines evict_refines rehydrate_refines(2)
  by (simp add: fun_eq_iff)

theorem outbox_refines_queues_witness:
  "chat_queue (snd (enqueue in_memory_outbox (snd (enqueue in_memory_outbox (outbox_new mem_new 1 10) [99] [1] [7] 5))
     [99] [2] [8] 6)) [99] = [([2], [8], 6)]"
proof -
  let ?ob = "snd (enqueue in_memory_outbox (outbox_new mem_new 1 10) [99] [1] [7] 5)"
  have q: "chat_queue ?ob [99] = [([1], [7], 5)]" "ob_cap ?ob = 1"
    by (simp_all add: chat_queue_def table_queue_def chat_key_def enqueue_def outbox_new_def index_add_def
        queue_of_def in_memory_outbox_def mem_load_def mem_put_def mem_new_def meta_of_def)
  show ?thesis
    using outbox_refines_queues[OF enqueues[OF starts], of 1 10 "[99]" "[1]" "[7]" 5 "[99]" "[2]" "[8]" 6] q
    by (simp add: spec_enqueue_def spec_insert_def)
qed

section \<open>Restart\<close>

lemma index_add_all:
  assumes "distinct (map fst v)"
  shows "distinct (map fst (foldl (\<lambda>v (gid, _). index_add gid now v) v xs)) \<and>
    fst ` set (foldl (\<lambda>v (gid, _). index_add gid now v) v xs) = fst ` set v \<union> fst ` set xs"
  using assms
proof (induction xs arbitrary: v)
  case (Cons x xs)
  have "distinct (map fst (index_add (fst x) now v))" "fst ` set (index_add (fst x) now v) = insert (fst x) (fst ` set v)"
    using Cons.prems by (auto simp: index_add_def)
  then show ?case using Cons.IH[of "index_add (fst x) now v"] by (simp add: split_beta)
qed simp

text \<open>
  C23. Restart survival: a fresh outbox over the store a previous run left behind, whatever its
  cap and time to live, is unaware of any frame until \<open>rehydrate\<close> is called; afterwards its
  pending ids of the chat are exactly the unacknowledged ones of the previous run, each of
  them once, with the frames to resend unchanged.
\<close>

theorem rehydrate_recovers:
  assumes "outbox_run ob"
  shows "pending (outbox_new (ob_store ob) cap ttl) chat = [] \<and>
    (let ob' = rehydrate in_memory_outbox (outbox_new (ob_store ob) cap ttl) chat now
     in set (pending ob' chat) = set (pending ob chat) \<and> distinct (pending ob' chat) \<and>
        due_for_resend in_memory_outbox ob' chat = due_for_resend in_memory_outbox ob chat)"
proof -
  let ?l = "so_load in_memory_outbox (ob_store ob) chat"
  have p: "pending o' c = map fst (meta_of (ob_meta o') c)" for o' :: "mem_store outbox" and c
    by (simp add: pending_def meta_of_def split: option.split)
  have "backed in_memory_outbox (ob_store ob) chat (meta_of (ob_meta ob) chat)"
    using outbox_run_ok[OF assms] by (simp add: outbox_ok_def table_ok_def chat_key_def)
  then have "set (pending ob chat) = fst ` set ?l" by (simp add: p backed_def dom_map_of_conv_image_fst)
  then show ?thesis
    using index_add_all[of "[]" now ?l]
    by (simp add: p rehydrate_def outbox_new_def due_for_resend_def Let_def meta_of_def)
qed

theorem rehydrate_recovers_witness:
  "set (pending (rehydrate in_memory_outbox (outbox_new (ob_store (snd (enqueue in_memory_outbox
     (outbox_new mem_new 4 10) [99] [1] [7] 5))) 4 10) [99] 8) [99]) = {[1]}"
proof -
  have "pending (snd (enqueue in_memory_outbox (outbox_new mem_new 4 10) [99] [1] [7] 5)) [99] = [[1]]"
    by (simp add: enqueue_def outbox_new_def index_add_def in_memory_outbox_def mem_load_def mem_put_def mem_new_def
        meta_of_def pending_def)
  then show ?thesis
    using rehydrate_recovers[OF enqueues[OF starts], of 4 10 "[99]" "[1]" "[7]" 5 4 10 "[99]" 8] by (simp add: Let_def)
qed

section \<open>The keeper queue refines the queues\<close>

lemma unat_hex_digit: "n < 16 \<Longrightarrow> unat (hex_digit n) = (if n < 10 then 48 + n else 87 + n)"
  unfolding hex_digit_def by (simp only: if_distrib[of unat] unat_of_nat_byte) simp

lemma hex_digit_inj: "a < 16 \<Longrightarrow> b < 16 \<Longrightarrow> hex_digit a = hex_digit b \<Longrightarrow> a = b"
  by (drule arg_cong[of _ _ unat]) (auto simp: unat_hex_digit split: if_splits)

lemma inj_hex_key: "inj hex_key"
proof (rule injI)
  fix x y
  assume "hex_key x = hex_key y"
  then show "x = y"
  proof (induction x arbitrary: y)
    case Nil
    then show ?case by (cases y) (simp_all add: hex_key_def)
  next
    case (Cons a x)
    then obtain b z where y: "y = b # z" by (cases y) (simp_all add: hex_key_def)
    have h: "hex_digit (unat a div 16) = hex_digit (unat b div 16)" "hex_digit (unat a mod 16) = hex_digit (unat b mod 16)"
      "hex_key x = hex_key z" using Cons.prems y by (simp_all add: hex_key_def)
    have "unat a div 16 < 16" "unat b div 16 < 16" using unat_byte_less[of a] unat_byte_less[of b] by linarith+
    then have "unat a div 16 = unat b div 16" "unat a mod 16 = unat b mod 16" using h hex_digit_inj by simp_all
    then have "unat a = unat b" by (metis div_mult_mod_eq)
    then show ?case using Cons.IH[OF h(3)] y by (simp add: word_unat_eq_iff)
  qed
qed

definition peer_queue :: "mem_store keeper \<Rightarrow> bytes \<Rightarrow> queue" where
  "peer_queue kq = table_queue in_memory_outbox (kq_store kq) hex_key (kq_index kq)"

definition keeper_ok :: "mem_store keeper \<Rightarrow> bool" where
  "keeper_ok kq \<longleftrightarrow> mem_ok (kq_store kq) \<and> table_ok in_memory_outbox (kq_store kq) hex_key (kq_index kq) \<and>
     distinct (map fst (kq_index kq))"

lemma buffer_refines:
  assumes "keeper_ok kq"
  shows "keeper_ok (snd (buffer in_memory_outbox kq peer gid frame now)) \<and>
    fst (buffer in_memory_outbox kq peer gid frame now) =
      length (spec_insert gid frame now (peer_queue kq peer)) - cap_per_peer kq \<and>
    peer_queue (snd (buffer in_memory_outbox kq peer gid frame now)) c =
      (if c = peer then spec_enqueue (cap_per_peer kq) gid frame now (peer_queue kq peer) else peer_queue kq c)"
proof -
  let ?S = in_memory_outbox
  obtain v' s' d where t: "trim_cap ?S (cap_per_peer kq) (hex_key peer) (index_add gid now (meta_of (kq_index kq) peer))
      (so_put ?S (kq_store kq) (hex_key peer) gid frame) 0 = (v', s', d)"
    by (metis prod_cases3)
  have "mem_ok (kq_store kq)" "table_ok ?S (kq_store kq) hex_key (kq_index kq)"
    using assms by (simp_all add: keeper_ok_def)
  note st = mem.table_enqueue[OF this inj_hex_key t]
  have e: "buffer ?S kq peer gid frame now = (d, kq\<lparr>kq_store := s', kq_index := AList.update peer v' (kq_index kq)\<rparr>)"
    using t by (simp add: buffer_def)
  show ?thesis unfolding e using st[of c] assms by (simp add: keeper_ok_def peer_queue_def distinct_update)
qed

lemma keeper_ack_refines:
  assumes "keeper_ok kq"
  shows "keeper_ok (keeper_ack in_memory_outbox kq peer gid) \<and>
    peer_queue (keeper_ack in_memory_outbox kq peer gid) c =
      (if c = peer then spec_ack gid (peer_queue kq peer) else peer_queue kq c)"
proof -
  let ?m = "case map_of (kq_index kq) peer of
      Some v \<Rightarrow> AList.update peer (filter (\<lambda>(g, _). g \<noteq> gid) v) (kq_index kq) | None \<Rightarrow> kq_index kq"
  have e: "kq_store (keeper_ack in_memory_outbox kq peer gid) = so_remove in_memory_outbox (kq_store kq) (hex_key peer) gid"
    "kq_index (keeper_ack in_memory_outbox kq peer gid) = ?m"
    by (simp_all add: keeper_ack_def Let_def split: option.split)
  have "distinct (map fst ?m)" using assms by (auto simp: keeper_ok_def distinct_update split: option.split)
  then show ?thesis
    using assms inj_hex_key mem.table_ack[of "kq_store kq" hex_key "kq_index kq" ?m peer gid c]
    unfolding keeper_ok_def peer_queue_def e by simp
qed

lemma keeper_evict_refines:
  assumes "keeper_ok kq"
  shows "keeper_ok (snd (keeper_evict_expired in_memory_outbox kq peer now)) \<and>
    peer_queue (snd (keeper_evict_expired in_memory_outbox kq peer now)) c =
      (if c = peer then spec_expire (kq_ttl kq) now (peer_queue kq peer) else peer_queue kq c)"
proof (cases "map_of (kq_index kq) peer")
  case None
  then have "peer_queue kq peer = []" by (simp add: peer_queue_def table_queue_def queue_of_def meta_of_None)
  then show ?thesis using None assms by (simp add: keeper_evict_expired_def spec_expire_def)
next
  case (Some v)
  then show ?thesis
    using assms inj_hex_key mem.table_expire[of "kq_store kq" hex_key "kq_index kq" peer v "kq_ttl kq" now c]
    by (simp add: keeper_evict_expired_def keeper_ok_def peer_queue_def distinct_update)
qed

inductive keeper_run :: "mem_store keeper \<Rightarrow> bool" where
  keeper_starts: "keeper_run (keeper_new mem_new cap ttl)"
| buffers: "keeper_run kq \<Longrightarrow> keeper_run (snd (buffer in_memory_outbox kq peer gid frame now))"
| keeper_acks: "keeper_run kq \<Longrightarrow> keeper_run (keeper_ack in_memory_outbox kq peer gid)"
| keeper_expires: "keeper_run kq \<Longrightarrow> keeper_run (snd (keeper_evict_expired in_memory_outbox kq peer now))"

lemma keeper_run_ok: "keeper_run kq \<Longrightarrow> keeper_ok kq"
proof (induction rule: keeper_run.induct)
  case (keeper_starts cap ttl)
  show ?case by (simp add: keeper_new_def keeper_ok_def table_ok_def backed_def mem_new_empty)
qed (simp_all add: buffer_refines keeper_ack_refines keeper_evict_refines)

lemma find_map_of: "map_option snd (find (\<lambda>(g, _). g = k) xs) = map_of xs k"
  by (induction xs) auto

lemma peer_queue_lookup:
  assumes "keeper_ok kq"
  shows "(\<exists>t. (gid, f, t) \<in> set (peer_queue kq peer)) \<longleftrightarrow> map_of (so_load in_memory_outbox (kq_store kq) (hex_key peer)) gid = Some f"
proof -
  let ?v = "meta_of (kq_index kq) peer" and ?m = "map_of (so_load in_memory_outbox (kq_store kq) (hex_key peer))"
  have b: "fst ` set ?v = dom ?m" using assms by (simp add: keeper_ok_def table_ok_def backed_def)
  have "(\<exists>t. (gid, f, t) \<in> set (peer_queue kq peer)) \<longleftrightarrow> gid \<in> fst ` set ?v \<and> f = the (?m gid)"
    by (force simp: peer_queue_def table_queue_def queue_of_def)
  then show ?thesis unfolding b by auto
qed

lemma digest_iff:
  assumes "keeper_ok kq"
  shows "(gid, peer) \<in> set (digest kq) \<longleftrightarrow> gid \<in> fst ` set (peer_queue kq peer)"
proof -
  have d: "distinct (map fst (kq_index kq))" using assms by (simp add: keeper_ok_def)
  have "(gid, peer) \<in> set (digest kq) \<longleftrightarrow> (\<exists>v. (peer, v) \<in> set (kq_index kq) \<and> gid \<in> fst ` set v)"
    by (force simp: digest_def)
  also have "\<dots> \<longleftrightarrow> gid \<in> fst ` set (meta_of (kq_index kq) peer)"
    unfolding map_of_eq_Some_iff[OF d, symmetric] by (cases "map_of (kq_index kq) peer") (simp_all add: meta_of_def)
  finally show ?thesis by (force simp: peer_queue_def table_queue_def queue_of_def)
qed

text \<open>
  C24. The keeper queue implements one bounded FIFO queue per recipient, on the same
  specification as the outbox although all recipients share one store under hexadecimal
  keys. The digest offered to another keeper lists exactly the pending entries, \<open>frame_for\<close>
  returns the pending frame of an entry and nothing else, and what \<open>drain\<close> replays to a
  recipient are exactly the pending frames.
\<close>

theorem keeper_refines_queues:
  assumes "keeper_run kq"
  shows "peer_queue (snd (buffer in_memory_outbox kq peer gid frame now)) =
      (peer_queue kq)(peer := spec_enqueue (cap_per_peer kq) gid frame now (peer_queue kq peer)) \<and>
    peer_queue (keeper_ack in_memory_outbox kq peer gid) = (peer_queue kq)(peer := spec_ack gid (peer_queue kq peer)) \<and>
    peer_queue (snd (keeper_evict_expired in_memory_outbox kq peer now)) =
      (peer_queue kq)(peer := spec_expire (kq_ttl kq) now (peer_queue kq peer)) \<and>
    ((gid, peer) \<in> set (digest kq) \<longleftrightarrow> gid \<in> fst ` set (peer_queue kq peer)) \<and>
    (frame_for in_memory_outbox kq peer gid = Some frame \<longleftrightarrow> (\<exists>t. (gid, frame, t) \<in> set (peer_queue kq peer))) \<and>
    ((gid, frame) \<in> set (drain in_memory_outbox kq peer) \<longleftrightarrow> (\<exists>t. (gid, frame, t) \<in> set (peer_queue kq peer)))"
proof -
  note ok = keeper_run_ok[OF assms]
  have d: "distinct (map fst (so_load in_memory_outbox (kq_store kq) (hex_key peer)))"
    using ok mem.load_distinct by (simp add: keeper_ok_def)
  show ?thesis
    using buffer_refines[OF ok] keeper_ack_refines[OF ok] keeper_evict_refines[OF ok] digest_iff[OF ok]
      peer_queue_lookup[OF ok] map_of_eq_Some_iff[OF d]
    by (simp add: fun_eq_iff frame_for_def find_map_of drain_def)
qed

theorem keeper_refines_queues_witness:
  "peer_queue (snd (buffer in_memory_outbox (keeper_new mem_new 8 3600) [9] [1] [7] 10)) [9] = [([1], [7], 10)]"
proof -
  have "peer_queue (keeper_new mem_new 8 3600) [9] = []" "cap_per_peer (keeper_new mem_new 8 3600 :: mem_store keeper) = 8"
    by (simp_all add: peer_queue_def table_queue_def queue_of_def keeper_new_def)
  then show ?thesis
    using keeper_refines_queues[OF keeper_starts, of 8 3600 "[9]" "[1]" "[7]" 10]
    by (simp add: spec_enqueue_def spec_insert_def)
qed

end
