(* ===== verification/Account.thy ===== *)
theory Account
  imports Codec
begin

text \<open>
  Account identity, \<open>src/crates/crypto/src/account.rs\<close> and \<open>grouping.rs\<close>, and contacts,
  \<open>src/crates/core/src/contacts.rs\<close>: certificates with their validity window, the chain from
  an account to a leaf key and its verification, username claims cross-compared between
  registries, revocations, per-chat grouping keys, the contact store and the resolution of
  a presented chain. Signatures go through the ML-DSA parameters of \<open>prims\<close>.
\<close>

section \<open>Certificates\<close>

definition put_pub :: "writer \<Rightarrow> identity_public \<Rightarrow> writer" where
  "put_pub w p = put_bytes w (sig_vk p)"

definition get_pub :: "reader \<Rightarrow> crypto_error + identity_public \<times> reader" where
  "get_pub r = bind_result (wire (get_vec r)) (\<lambda>(vk, r). Inr (\<lparr>sig_vk = vk\<rparr>, r))"

definition put_time :: "writer \<Rightarrow> u64 \<Rightarrow> writer" where
  "put_time w v = put_bytes w (u64_be v)"

definition get_time :: "reader \<Rightarrow> crypto_error + u64 \<times> reader" where
  "get_time r =
     bind_result (wire (get_bytes r)) (\<lambda>(b, r).
       if length b \<noteq> 8 then malformed ''u64 length'' else Inr (u64_from_be b, r))"

record cert =
  ce_subject :: identity_public
  ce_label :: str
  ce_valid_from :: u64
  ce_expiry :: u64

definition cert_encode :: "cert \<Rightarrow> bytes" where
  "cert_encode c =
     (let w = put_pub writer_new (ce_subject c);
          w = put_bytes w (ce_label c);
          w = put_time w (ce_valid_from c);
          w = put_time w (ce_expiry c)
      in into_vec w)"

definition cert_read :: "reader \<Rightarrow> crypto_error + cert \<times> reader" where
  "cert_read r =
     bind_result (get_pub r) (\<lambda>(subject, r).
     bind_result (wire (get_vec r)) (\<lambda>(l, r).
     bind_result (ok_or (Malformed (ascii ''cert label utf-8'')) (from_utf8 l)) (\<lambda>label.
     bind_result (get_time r) (\<lambda>(valid_from, r).
     bind_result (get_time r) (\<lambda>(expiry, r).
       Inr (\<lparr>ce_subject = subject, ce_label = label, ce_valid_from = valid_from, ce_expiry = expiry\<rparr>, r))))))"

definition CLOCK_SKEW_TOLERANCE :: u64 where
  "CLOCK_SKEW_TOLERANCE = 300"

definition saturating_add :: "u64 \<Rightarrow> u64 \<Rightarrow> u64" where
  "saturating_add a b = (if unat a + unat b < 2 ^ 64 then a + b else - 1)"

definition cert_valid_at :: "cert \<Rightarrow> u64 \<Rightarrow> bool" where
  "cert_valid_at c now \<longleftrightarrow>
     saturating_add now CLOCK_SKEW_TOLERANCE \<ge> ce_valid_from c \<and>
     (ce_expiry c = 0 \<or> now \<le> saturating_add (ce_expiry c) CLOCK_SKEW_TOLERANCE)"

record signed_cert =
  sc_issuer :: identity_public
  sc_cert :: cert
  sc_sig :: bytes

definition cert_issue ::
    "prims \<Rightarrow> identity_key_pair \<Rightarrow> identity_public \<Rightarrow> str \<Rightarrow> u64 \<Rightarrow> u64 \<Rightarrow> signed_cert" where
  "cert_issue P issuer subject label valid_from expiry =
     (let cert = \<lparr>ce_subject = subject, ce_label = label, ce_valid_from = valid_from, ce_expiry = expiry\<rparr>
      in \<lparr>sc_issuer = id_public issuer, sc_cert = cert, sc_sig = id_sign P issuer (cert_encode cert)\<rparr>)"

definition verify_signature :: "prims \<Rightarrow> signed_cert \<Rightarrow> crypto_error + unit" where
  "verify_signature P sc = id_verify P (sc_issuer sc) (cert_encode (sc_cert sc)) (sc_sig sc)"

definition signed_cert_valid_at :: "signed_cert \<Rightarrow> u64 \<Rightarrow> bool" where
  "signed_cert_valid_at sc now = cert_valid_at (sc_cert sc) now"

definition signed_cert_encode :: "signed_cert \<Rightarrow> bytes" where
  "signed_cert_encode sc =
     (let w = put_pub writer_new (sc_issuer sc);
          w = put_bytes w (cert_encode (sc_cert sc));
          w = put_bytes w (sc_sig sc)
      in into_vec w)"

text \<open>The certificate inside is read from its own slice, to its end.\<close>

definition inner_cert :: "bytes \<Rightarrow> crypto_error + cert" where
  "inner_cert b =
     bind_result (cert_read (reader_new b)) (\<lambda>(c, cr). bind_result (wire (finish cr)) (\<lambda>_. Inr c))"

definition signed_cert_read :: "reader \<Rightarrow> crypto_error + signed_cert \<times> reader" where
  "signed_cert_read r =
     bind_result (get_pub r) (\<lambda>(issuer, r).
     bind_result (wire (get_bytes r)) (\<lambda>(b, r).
     bind_result (inner_cert b) (\<lambda>cert.
     bind_result (wire (get_vec r)) (\<lambda>(sig, r).
       Inr (\<lparr>sc_issuer = issuer, sc_cert = cert, sc_sig = sig\<rparr>, r)))))"

definition signed_cert_decode :: "bytes \<Rightarrow> crypto_error + signed_cert" where
  "signed_cert_decode b =
     bind_result (signed_cert_read (reader_new b)) (\<lambda>(c, r). bind_result (wire (finish r)) (\<lambda>_. Inr c))"

section \<open>Chains\<close>

record identity_chain =
  links :: "signed_cert list"

definition chain_device ::
    "prims \<Rightarrow> identity_key_pair \<Rightarrow> identity_public \<Rightarrow> str \<Rightarrow> u64 \<Rightarrow> u64 \<Rightarrow> identity_chain" where
  "chain_device P account device label valid_from expiry =
     \<lparr>links = [cert_issue P account device label valid_from expiry]\<rparr>"

definition chain_extend ::
    "prims \<Rightarrow> identity_chain \<Rightarrow> identity_key_pair \<Rightarrow> identity_public \<Rightarrow> str \<Rightarrow> u64 \<Rightarrow> u64 \<Rightarrow> identity_chain" where
  "chain_extend P c leaf_kp sub label valid_from expiry =
     \<lparr>links = links c @ [cert_issue P leaf_kp sub label valid_from expiry]\<rparr>"

definition chain_leaf :: "identity_chain \<Rightarrow> identity_public option" where
  "chain_leaf c = (if links c = [] then None else Some (ce_subject (sc_cert (last (links c)))))"

text \<open>
  The loop over the links: \<open>prev\<close> is the subject of the preceding link, absent for the first.
\<close>

fun verify_links :: "prims \<Rightarrow> u64 \<Rightarrow> identity_public option \<Rightarrow> signed_cert list \<Rightarrow> crypto_error + unit" where
  "verify_links P now prev [] = Inr ()"
| "verify_links P now prev (link # ls) =
     bind_result (verify_signature P link) (\<lambda>_.
       if \<not> cert_valid_at (sc_cert link) now then Inl BadSignature
       else if (case prev of Some s \<Rightarrow> \<not> id_ct_eq (sc_issuer link) s | None \<Rightarrow> False) then Inl BadSignature
       else verify_links P now (Some (ce_subject (sc_cert link))) ls)"

definition chain_verify ::
    "prims \<Rightarrow> identity_chain \<Rightarrow> identity_public \<Rightarrow> identity_public \<Rightarrow> u64 \<Rightarrow> crypto_error + unit" where
  "chain_verify P c account leaf now =
     (case links c of
        [] \<Rightarrow> malformed ''empty identity chain''
      | l0 # _ \<Rightarrow>
          if \<not> id_ct_eq (sc_issuer l0) account then Inl BadSignature
          else bind_result (verify_links P now None (links c)) (\<lambda>_.
            if \<not> (case chain_leaf c of Some l \<Rightarrow> id_ct_eq l leaf | None \<Rightarrow> False) then Inl BadSignature
            else Inr ()))"

definition chain_encode :: "identity_chain \<Rightarrow> bytes" where
  "chain_encode c =
     (let w = put_u32 writer_new (of_nat (length (links c)))
      in into_vec (foldl (\<lambda>w l. put_bytes w (signed_cert_encode l)) w (links c)))"

definition chain_link_read :: "reader \<Rightarrow> crypto_error + signed_cert \<times> reader" where
  "chain_link_read r =
     bind_result (wire (get_bytes r)) (\<lambda>(b, r).
     bind_result (signed_cert_read (reader_new b)) (\<lambda>(l, lr).
     bind_result (wire (finish lr)) (\<lambda>_. Inr (l, r))))"

definition chain_decode :: "bytes \<Rightarrow> crypto_error + identity_chain" where
  "chain_decode b =
     bind_result (wire (get_u32 (reader_new b))) (\<lambda>(n, r).
       if n > 16 then malformed ''identity chain too long''
       else bind_result (read_n (unat n) chain_link_read r) (\<lambda>(ls, r).
            bind_result (wire (finish r)) (\<lambda>_. Inr \<lparr>links = ls\<rparr>)))"

definition belongs_to_account :: "prims \<Rightarrow> identity_public \<Rightarrow> identity_chain \<Rightarrow> identity_public \<Rightarrow> u64 \<Rightarrow> bool" where
  "belongs_to_account P account c leaf now \<longleftrightarrow> chain_verify P c account leaf now = Inr ()"

section \<open>Username claims\<close>

record username_claim =
  uc_username :: str
  uc_account :: identity_public
  uc_issued :: u64

definition claim_encode_signed :: "username_claim \<Rightarrow> bytes" where
  "claim_encode_signed c =
     (let w = put_bytes writer_new (uc_username c);
          w = put_pub w (uc_account c);
          w = put_time w (uc_issued c)
      in into_vec w)"

definition claim_read :: "reader \<Rightarrow> crypto_error + username_claim \<times> reader" where
  "claim_read r =
     bind_result (wire (get_vec r)) (\<lambda>(u, r).
     bind_result (ok_or (Malformed (ascii ''username utf-8'')) (from_utf8 u)) (\<lambda>username.
     bind_result (get_pub r) (\<lambda>(account, r).
     bind_result (get_time r) (\<lambda>(issued, r).
       Inr (\<lparr>uc_username = username, uc_account = account, uc_issued = issued\<rparr>, r)))))"

record signed_claim =
  sl_claim :: username_claim
  sl_sig :: bytes

definition claim_issue :: "prims \<Rightarrow> identity_key_pair \<Rightarrow> str \<Rightarrow> u64 \<Rightarrow> signed_claim" where
  "claim_issue P account username issued =
     (let claim = \<lparr>uc_username = username, uc_account = id_public account, uc_issued = issued\<rparr>
      in \<lparr>sl_claim = claim, sl_sig = id_sign P account (claim_encode_signed claim)\<rparr>)"

definition claim_verify :: "prims \<Rightarrow> signed_claim \<Rightarrow> crypto_error + unit" where
  "claim_verify P c = id_verify P (uc_account (sl_claim c)) (claim_encode_signed (sl_claim c)) (sl_sig c)"

definition claim_encode :: "signed_claim \<Rightarrow> bytes" where
  "claim_encode c =
     into_vec (put_bytes (put_bytes writer_new (claim_encode_signed (sl_claim c))) (sl_sig c))"

definition inner_claim :: "bytes \<Rightarrow> crypto_error + username_claim" where
  "inner_claim b =
     bind_result (claim_read (reader_new b)) (\<lambda>(c, cr). bind_result (wire (finish cr)) (\<lambda>_. Inr c))"

definition claim_decode :: "bytes \<Rightarrow> crypto_error + signed_claim" where
  "claim_decode b =
     bind_result (wire (get_bytes (reader_new b))) (\<lambda>(cb, r).
     bind_result (inner_claim cb) (\<lambda>claim.
     bind_result (wire (get_vec r)) (\<lambda>(sig, r).
     bind_result (wire (finish r)) (\<lambda>_. Inr \<lparr>sl_claim = claim, sl_sig = sig\<rparr>))))"

definition cross_compare :: "prims \<Rightarrow> str \<Rightarrow> signed_claim list \<Rightarrow> identity_public option" where
  "cross_compare P username claims =
     (case claims of
        [] \<Rightarrow> None
      | first # _ \<Rightarrow>
          let account = uc_account (sl_claim first)
          in if list_all (\<lambda>c. uc_username (sl_claim c) = username \<and> claim_verify P c = Inr () \<and>
                              uc_account (sl_claim c) = account) claims
             then Some account else None)"

section \<open>Revocations\<close>

record revocation =
  rv_account :: identity_public
  rv_subject_fp :: bytes
  rv_issued :: u64
  rv_sig :: bytes

definition revocation_signed_bytes :: "bytes \<Rightarrow> u64 \<Rightarrow> bytes" where
  "revocation_signed_bytes fp issued = into_vec (put_time (put_bytes writer_new fp) issued)"

definition revocation_issue :: "prims \<Rightarrow> identity_key_pair \<Rightarrow> bytes \<Rightarrow> u64 \<Rightarrow> revocation" where
  "revocation_issue P account fp issued =
     \<lparr>rv_account = id_public account, rv_subject_fp = fp, rv_issued = issued,
      rv_sig = id_sign P account (revocation_signed_bytes fp issued)\<rparr>"

definition revocation_verify :: "prims \<Rightarrow> revocation \<Rightarrow> crypto_error + unit" where
  "revocation_verify P v = id_verify P (rv_account v) (revocation_signed_bytes (rv_subject_fp v) (rv_issued v)) (rv_sig v)"

definition revocation_encode :: "revocation \<Rightarrow> bytes" where
  "revocation_encode v =
     (let w = put_pub writer_new (rv_account v);
          w = put_bytes w (rv_subject_fp v);
          w = put_time w (rv_issued v);
          w = put_bytes w (rv_sig v)
      in into_vec w)"

definition revocation_decode :: "bytes \<Rightarrow> crypto_error + revocation" where
  "revocation_decode b =
     bind_result (get_pub (reader_new b)) (\<lambda>(account, r).
     bind_result (wire (get_bytes r)) (\<lambda>(sfp, r).
       if length sfp \<noteq> 48 then malformed ''revocation subject fp length''
       else bind_result (get_time r) (\<lambda>(issued, r).
            bind_result (wire (get_vec r)) (\<lambda>(sig, r).
            bind_result (wire (finish r)) (\<lambda>_.
              Inr \<lparr>rv_account = account, rv_subject_fp = sfp, rv_issued = issued, rv_sig = sig\<rparr>)))))"

section \<open>Grouping keys\<close>

definition GROUPING_KDF_LABEL :: bytes where
  "GROUPING_KDF_LABEL = ascii ''talkrypt-grouping-key-v1''"

record grouping_key =
  gk_root_seed :: bytes

definition from_root_seed :: "bytes \<Rightarrow> grouping_key" where
  "from_root_seed seed = \<lparr>gk_root_seed = seed\<rparr>"

definition derive_for_chat :: "prims \<Rightarrow> grouping_key \<Rightarrow> bytes \<Rightarrow> identity_key_pair" where
  "derive_for_chat P g ctx = from_secret_bytes P (mac_kdf P (gk_root_seed g) ctx GROUPING_KDF_LABEL 32)"

definition grouping_certify :: "prims \<Rightarrow> grouping_key \<Rightarrow> bytes \<Rightarrow> identity_public \<Rightarrow> u64 \<Rightarrow> u64 \<Rightarrow> signed_cert" where
  "grouping_certify P g ctx member now expiry = cert_issue P (derive_for_chat P g ctx) member (ascii ''group'') now expiry"

definition verify_grouping_cert :: "prims \<Rightarrow> identity_public \<Rightarrow> signed_cert \<Rightarrow> identity_public \<Rightarrow> u64 \<Rightarrow> bool" where
  "verify_grouping_cert P grouping_pub c member now \<longleftrightarrow>
     id_ct_eq grouping_pub (sc_issuer c) \<and> id_ct_eq member (ce_subject (sc_cert c)) \<and>
     saturating_add now CLOCK_SKEW_TOLERANCE \<ge> ce_valid_from (sc_cert c) \<and>
     (ce_expiry (sc_cert c) = 0 \<or> now \<le> saturating_add (ce_expiry (sc_cert c)) CLOCK_SKEW_TOLERANCE) \<and>
     verify_signature P c = Inr ()"

section \<open>Contacts\<close>

record presentation =
  ps_chain :: identity_chain
  ps_username :: "str option"

definition presentation_encode :: "presentation \<Rightarrow> bytes" where
  "presentation_encode p =
     (let w = put_bytes writer_new (chain_encode (ps_chain p));
          w = (case ps_username p of Some u \<Rightarrow> put_bytes (put_u8 w 1) u | None \<Rightarrow> put_u8 w 0)
      in into_vec w)"

definition presentation_username :: "reader \<Rightarrow> core_error + str option \<times> reader" where
  "presentation_username r =
     bind_result (cwire (get_u8 r)) (\<lambda>(t, r).
       if t = 0 then Inr (None, r)
       else if t = 1 then
         bind_result (cwire (get_vec r)) (\<lambda>(u, r).
         bind_result (ok_or (CryptoErr (Malformed (ascii ''username utf-8''))) (from_utf8 u)) (\<lambda>s. Inr (Some s, r)))
       else Inl (CryptoErr (Malformed (ascii ''presentation username tag''))))"

definition presentation_decode :: "bytes \<Rightarrow> core_error + presentation" where
  "presentation_decode b =
     bind_result (cwire (get_bytes (reader_new b))) (\<lambda>(cb, r).
     bind_result (map_err CryptoErr (chain_decode cb)) (\<lambda>chain.
     bind_result (presentation_username r) (\<lambda>(username, r).
     bind_result (map_err (\<lambda>_. CryptoErr (Malformed (ascii ''presentation trailing bytes''))) (finish r)) (\<lambda>_.
       Inr \<lparr>ps_chain = chain, ps_username = username\<rparr>))))"

record contact =
  ct_account :: identity_public
  ct_fingerprint :: bytes
  ct_name :: "str option"
  ct_friend :: bool

type_synonym contact_store = "contact list"

text \<open>\<open>iter_mut().find(..)\<close>: the first matching contact is changed in place.\<close>

fun update_first :: "('a \<Rightarrow> bool) \<Rightarrow> ('a \<Rightarrow> 'a) \<Rightarrow> 'a list \<Rightarrow> 'a list" where
  "update_first q f [] = []"
| "update_first q f (x # xs) = (if q x then f x # xs else x # update_first q f xs)"

definition contact_add :: "prims \<Rightarrow> contact_store \<Rightarrow> identity_public \<Rightarrow> str option \<Rightarrow> bool \<Rightarrow> contact_store" where
  "contact_add P cs account name friend =
     (let fp = fingerprint P account
      in if list_ex (\<lambda>c. ct_account c = account) cs
         then update_first (\<lambda>c. ct_account c = account) (\<lambda>c. c\<lparr>ct_name := name, ct_friend := friend\<rparr>) cs
         else cs @ [\<lparr>ct_account = account, ct_fingerprint = fp, ct_name = name, ct_friend = friend\<rparr>])"

definition set_friend :: "contact_store \<Rightarrow> identity_public \<Rightarrow> bool \<Rightarrow> bool \<times> contact_store" where
  "set_friend cs account friend =
     (if list_ex (\<lambda>c. ct_account c = account) cs
      then (True, update_first (\<lambda>c. ct_account c = account) (\<lambda>c. c\<lparr>ct_friend := friend\<rparr>) cs)
      else (False, cs))"

definition is_contact :: "contact_store \<Rightarrow> identity_public \<Rightarrow> bool" where
  "is_contact cs account \<longleftrightarrow> list_ex (\<lambda>c. ct_account c = account) cs"

definition is_friend :: "contact_store \<Rightarrow> identity_public \<Rightarrow> bool" where
  "is_friend cs account \<longleftrightarrow> list_ex (\<lambda>c. ct_account c = account \<and> ct_friend c) cs"

definition contact_get :: "contact_store \<Rightarrow> identity_public \<Rightarrow> contact option" where
  "contact_get cs account = find (\<lambda>c. ct_account c = account) cs"

record resolved =
  rs_account :: identity_public
  rs_account_fp :: bytes
  rs_leaf_fp :: bytes
  rs_contact :: bool
  rs_friend :: bool

definition resolve_chain :: "prims \<Rightarrow> contact_store \<Rightarrow> identity_chain \<Rightarrow> bytes \<Rightarrow> u64 \<Rightarrow> resolved option" where
  "resolve_chain P cs chain peer_fp now = do {
     leaf \<leftarrow> chain_leaf chain;
     if fingerprint P leaf \<noteq> peer_fp then None
     else do {
       account \<leftarrow> (case links chain of [] \<Rightarrow> None | l # _ \<Rightarrow> Some (sc_issuer l));
       _ \<leftarrow> ok (chain_verify P chain account leaf now);
       Some \<lparr>rs_account = account, rs_account_fp = fingerprint P account, rs_leaf_fp = fingerprint P leaf,
             rs_contact = is_contact cs account, rs_friend = is_friend cs account\<rparr>
     }
   }"

section \<open>Certification paths\<close>

text \<open>
  What a chain is meant to show: a path of signed, currently valid certificates in which each
  key certifies the next, from the account to the leaf.
\<close>

fun certified_path :: "prims \<Rightarrow> u64 \<Rightarrow> identity_public \<Rightarrow> signed_cert list \<Rightarrow> identity_public \<Rightarrow> bool" where
  "certified_path P now a [] l \<longleftrightarrow> a = l"
| "certified_path P now a (c # cs) l \<longleftrightarrow>
     sc_issuer c = a \<and> verify_signature P c = Inr () \<and> cert_valid_at (sc_cert c) now \<and>
     certified_path P now (ce_subject (sc_cert c)) cs l"

lemma certified_path_append:
  "certified_path P now a (xs @ ys) l \<longleftrightarrow> (\<exists>m. certified_path P now a xs m \<and> certified_path P now m ys l)"
  by (induction xs arbitrary: a) auto

lemma certified_path_leaf:
  "xs \<noteq> [] \<Longrightarrow> certified_path P now a xs l \<Longrightarrow> l = ce_subject (sc_cert (last xs))"
  by (induction xs arbitrary: a) (auto split: if_splits)

lemma verify_links_path:
  "verify_links P now (Some a) ls = Inr () \<longleftrightarrow>
    (ls = [] \<or> (\<exists>l. certified_path P now a ls l))"
proof (induction ls arbitrary: a)
  case (Cons c ls)
  have "verify_links P now (Some a) (c # ls) = Inr () \<longleftrightarrow> verify_signature P c = Inr () \<and>
      cert_valid_at (sc_cert c) now \<and> sc_issuer c = a \<and> verify_links P now (Some (ce_subject (sc_cert c))) ls = Inr ()"
    by (auto simp: result_simps)
  also have "\<dots> \<longleftrightarrow> (\<exists>l. certified_path P now a (c # ls) l)" using Cons.IH[of "ce_subject (sc_cert c)"] by (cases "ls = []") auto
  finally show ?case by simp
qed simp

lemma chain_verify_path:
  "chain_verify P c account leaf now = Inr () \<longleftrightarrow> links c \<noteq> [] \<and> certified_path P now account (links c) leaf"
proof (cases "links c")
  case (Cons l0 ls)
  let ?m = "ce_subject (sc_cert (last (l0 # ls)))"
  have "chain_verify P c account leaf now = Inr () \<longleftrightarrow>
      sc_issuer l0 = account \<and> verify_links P now None (l0 # ls) = Inr () \<and> ?m = leaf"
    using Cons by (auto simp: chain_verify_def chain_leaf_def result_simps)
  also have "verify_links P now None (l0 # ls) = verify_links P now (Some (sc_issuer l0)) (l0 # ls)" by simp
  finally show ?thesis
    using Cons verify_links_path[of P now "sc_issuer l0" "l0 # ls"] certified_path_leaf[of "l0 # ls" P now "sc_issuer l0"]
    by (metis certified_path.simps(2) list.distinct(1))
qed (simp add: chain_verify_def)

text \<open>
  C8. The chain check is exact: \<open>verify\<close> accepts precisely the nonempty chains that are a path
  of correctly signed and currently valid certificates from the pinned account to the leaf,
  each key certifying the next; a leaf is refused as soon as one certificate on the way is
  forged, expired, not yet valid or issued by another key.
\<close>

theorem chain_verify_exact:
  "belongs_to_account P account c leaf now \<longleftrightarrow> links c \<noteq> [] \<and> certified_path P now account (links c) leaf"
  by (simp add: belongs_to_account_def chain_verify_path)

lemma cert_issue_sel [simp]:
  "sc_issuer (cert_issue P kp sub l f e) = id_public kp"
  "sc_cert (cert_issue P kp sub l f e) = \<lparr>ce_subject = sub, ce_label = l, ce_valid_from = f, ce_expiry = e\<rparr>"
  "sc_sig (cert_issue P kp sub l f e) = id_sign P kp (cert_encode (sc_cert (cert_issue P kp sub l f e)))"
  by (simp_all add: cert_issue_def Let_def)

lemma issue_link:
  assumes "dsa_correct P" "cert_valid_at \<lparr>ce_subject = sub, ce_label = l, ce_valid_from = f, ce_expiry = e\<rparr> now"
  shows "certified_path P now (id_public (from_secret_bytes P seed)) [cert_issue P (from_secret_bytes P seed) sub l f e] sub"
  using assms(2) verify_signed[OF assms(1)] by (simp add: verify_signature_def)

text \<open>
  C26. Chains that are issued verify: an account's certificate for a device belongs to the
  account, and when the owner of a leaf certifies a further key the extended chain belongs to
  the same account with the new key as its leaf, as long as the validity window is open.
\<close>

theorem issued_chains_verify:
  assumes "dsa_correct P" "cert_valid_at \<lparr>ce_subject = sub, ce_label = l, ce_valid_from = f, ce_expiry = e\<rparr> now"
    and "belongs_to_account P account c (id_public (from_secret_bytes P seed)) now"
  shows "belongs_to_account P (id_public (from_secret_bytes P seed))
      (chain_device P (from_secret_bytes P seed) device l f e) device now \<and>
    belongs_to_account P account (chain_extend P c (from_secret_bytes P seed) sub l f e) sub now"
proof -
  have link: "certified_path P now (id_public (from_secret_bytes P seed)) [cert_issue P (from_secret_bytes P seed) x l f e] x" for x
    using assms(2) by (intro issue_link[OF assms(1)]) (simp add: cert_valid_at_def)
  have "links c \<noteq> []" "certified_path P now account (links c) (id_public (from_secret_bytes P seed))"
    using assms(3) by (simp_all add: belongs_to_account_def chain_verify_path)
  then show ?thesis
    using link by (auto simp: belongs_to_account_def chain_verify_path chain_device_def chain_extend_def certified_path_append)
qed

lemma demo_device: "belongs_to_account demo_prims (id_public (from_secret_bytes demo_prims [1]))
    (chain_device demo_prims (from_secret_bytes demo_prims [1]) (id_public (from_secret_bytes demo_prims [2])) [] 0 0)
    (id_public (from_secret_bytes demo_prims [2])) 5"
  using issue_link[OF demo_prims_lawful(6), where seed = "[1]" and l = "[]" and f = 0 and e = 0 and now = 5
      and sub = "id_public (from_secret_bytes demo_prims [2])"]
  by (simp add: belongs_to_account_def chain_verify_path chain_device_def cert_valid_at_def)

theorem issued_chains_verify_witness:
  "belongs_to_account demo_prims (id_public (from_secret_bytes demo_prims [1]))
     (chain_extend demo_prims
        (chain_device demo_prims (from_secret_bytes demo_prims [1]) (id_public (from_secret_bytes demo_prims [2])) [] 0 0)
        (from_secret_bytes demo_prims [2]) \<lparr>sig_vk = [3]\<rparr> [] 0 0) \<lparr>sig_vk = [3]\<rparr> 5"
  using issued_chains_verify[OF demo_prims_lawful(6) _ demo_device, where l = "[]" and f = 0 and e = 0] by (simp add: cert_valid_at_def)

section \<open>Separation of signed bodies\<close>

interpretation lpc: prefix_code bytes_enc frame_sized
proof
  fix x p y q
  assume e: "bytes_enc x @ p = bytes_enc y @ q" and f: "frame_sized x" "frame_sized y"
  have "u32_be (of_nat (length x)) = u32_be (of_nat (length y))" "x @ p = y @ q"
    using e by (simp_all add: bytes_enc_def append_eq_append_conv)
  then have "length x = length y" using f by (metis frame_sized_unat u32_from_be_be)
  with \<open>x @ p = y @ q\<close> show "x = y \<and> p = q" by simp
qed

lemma u64_be_inj [simp]: "u64_be a = u64_be b \<longleftrightarrow> a = b"
  by (metis u64_from_be_be)

lemma frame_sized_u64 [simp]: "frame_sized (u64_be a)"
  by (simp add: frame_sized_def MAX_FRAME_def)

lemma signed_bodies:
  "cert_encode c = bytes_enc (sig_vk (ce_subject c)) @ bytes_enc (ce_label c) @
     bytes_enc (u64_be (ce_valid_from c)) @ bytes_enc (u64_be (ce_expiry c))"
  "claim_encode_signed k = bytes_enc (uc_username k) @ bytes_enc (sig_vk (uc_account k)) @ bytes_enc (u64_be (uc_issued k))"
  "revocation_signed_bytes fp t = bytes_enc fp @ bytes_enc (u64_be t)"
  by (simp_all add: cert_encode_def claim_encode_signed_def revocation_signed_bytes_def into_vec_def put_pub_def
      put_time_def codec_simps)

definition cert_sized :: "cert \<Rightarrow> bool" where
  "cert_sized c \<longleftrightarrow> frame_sized (sig_vk (ce_subject c)) \<and> frame_sized (ce_label c)"

definition claim_sized :: "username_claim \<Rightarrow> bool" where
  "claim_sized k \<longleftrightarrow> frame_sized (uc_username k) \<and> frame_sized (sig_vk (uc_account k))"

text \<open>
  C27. Certificates, username claims and revocations are all signed by account keys without a
  label, yet they cannot be confused: each body determines its fields, and
  no body of one kind is a body of another, so a signature obtained for one is never valid
  for a different statement.
\<close>

theorem signed_bodies_separated:
  assumes "cert_sized c" "cert_sized d" "claim_sized k" "claim_sized l" "frame_sized fp" "frame_sized gp"
  shows "(cert_encode c = cert_encode d \<longleftrightarrow> c = d) \<and>
    (claim_encode_signed k = claim_encode_signed l \<longleftrightarrow> k = l) \<and>
    (revocation_signed_bytes fp t = revocation_signed_bytes gp u \<longleftrightarrow> fp = gp \<and> t = u) \<and>
    cert_encode c \<noteq> claim_encode_signed k \<and> cert_encode c \<noteq> revocation_signed_bytes fp t \<and>
    claim_encode_signed k \<noteq> revocation_signed_bytes fp t"
proof -
  note sz = assms[unfolded cert_sized_def claim_sized_def]
  have ne: "bytes_enc x \<noteq> []" for x using length_bytes_enc[of x] by (metis add_is_0 list.size(3) zero_neq_numeral)
  have "cert_encode c = cert_encode d \<longleftrightarrow> c = d"
    using sz by (auto simp: signed_bodies lpc.enc_append_iff lpc.enc_eq_iff intro!: cert.equality)
  moreover have "claim_encode_signed k = claim_encode_signed l \<longleftrightarrow> k = l"
    using sz by (auto simp: signed_bodies lpc.enc_append_iff lpc.enc_eq_iff intro!: username_claim.equality)
  moreover have "revocation_signed_bytes fp t = revocation_signed_bytes gp u \<longleftrightarrow> fp = gp \<and> t = u"
    using sz by (simp add: signed_bodies lpc.enc_append_iff lpc.enc_eq_iff)
  ultimately show ?thesis
    using sz lpc.enc_append_iff[where q = "[]"] ne by (auto simp: signed_bodies lpc.enc_append_iff)
qed

theorem signed_bodies_separated_witness:
  "cert_encode \<lparr>ce_subject = \<lparr>sig_vk = [1]\<rparr>, ce_label = [], ce_valid_from = 0, ce_expiry = 0\<rparr> \<noteq>
   claim_encode_signed \<lparr>uc_username = [1], uc_account = \<lparr>sig_vk = []\<rparr>, uc_issued = 0\<rparr>"
  using signed_bodies_separated[of "\<lparr>ce_subject = \<lparr>sig_vk = [1]\<rparr>, ce_label = [], ce_valid_from = 0, ce_expiry = 0\<rparr>"
      "\<lparr>ce_subject = \<lparr>sig_vk = [1]\<rparr>, ce_label = [], ce_valid_from = 0, ce_expiry = 0\<rparr>"
      "\<lparr>uc_username = [1], uc_account = \<lparr>sig_vk = []\<rparr>, uc_issued = 0\<rparr>"
      "\<lparr>uc_username = [1], uc_account = \<lparr>sig_vk = []\<rparr>, uc_issued = 0\<rparr>" "[]" "[]"]
  by (simp add: cert_sized_def claim_sized_def frame_sized_def MAX_FRAME_def)

section \<open>Registries and contacts\<close>

text \<open>
  Cross-comparison is exact: an account key is returned if and only if at least one
  registry answered and every answer is a validly self-signed claim of that very key for that
  very username, so a single registry that substitutes a key, a name or a signature makes the
  lookup fail.
\<close>

lemma cross_compare_exact:
  "cross_compare P username claims = Some account \<longleftrightarrow>
     claims \<noteq> [] \<and> list_all (\<lambda>c. uc_username (sl_claim c) = username \<and> claim_verify P c = Inr () \<and>
       uc_account (sl_claim c) = account) claims"
  by (cases claims) (auto simp: cross_compare_def Let_def)

text \<open>
  A presented chain resolves exactly when it is a certification path from its account to
  the device that was authenticated in the handshake, and the contact and friend labels are
  those the viewer gave to that account; a chain of somebody else's device, or one that does
  not root at a recognised account's key, never resolves to that contact.
\<close>

lemma resolve_chain_exact:
  "resolve_chain P cs chain peer_fp now = Some res \<longleftrightarrow>
     (\<exists>leaf. links chain \<noteq> [] \<and> certified_path P now (rs_account res) (links chain) leaf \<and>
        fingerprint P leaf = peer_fp \<and> rs_leaf_fp res = peer_fp \<and> rs_account_fp res = fingerprint P (rs_account res) \<and>
        rs_contact res = is_contact cs (rs_account res) \<and> rs_friend res = is_friend cs (rs_account res))"
proof (cases "links chain")
  case (Cons l ls)
  let ?leaf = "ce_subject (sc_cert (last (l # ls)))"
  have path: "x = ?leaf \<and> a = sc_issuer l" if "certified_path P now a (l # ls) x" for a x
    using certified_path_leaf[OF _ that] that by simp
  have "resolve_chain P cs chain peer_fp now = Some res \<longleftrightarrow>
      fingerprint P ?leaf = peer_fp \<and> certified_path P now (sc_issuer l) (l # ls) ?leaf \<and>
      res = \<lparr>rs_account = sc_issuer l, rs_account_fp = fingerprint P (sc_issuer l), rs_leaf_fp = fingerprint P ?leaf,
             rs_contact = is_contact cs (sc_issuer l), rs_friend = is_friend cs (sc_issuer l)\<rparr>"
    using Cons chain_verify_path[of P chain "sc_issuer l" ?leaf now]
    by (cases "chain_verify P chain (sc_issuer l) ?leaf now")
      (simp_all add: resolve_chain_def chain_leaf_def ok_def eq_commute[of res] del: certified_path.simps)
  also have "\<dots> \<longleftrightarrow> (\<exists>leaf. certified_path P now (rs_account res) (l # ls) leaf \<and> fingerprint P leaf = peer_fp \<and>
      rs_leaf_fp res = peer_fp \<and> rs_account_fp res = fingerprint P (rs_account res) \<and>
      rs_contact res = is_contact cs (rs_account res) \<and> rs_friend res = is_friend cs (rs_account res))"
    (is "?l \<longleftrightarrow> ?r")
  proof
    show "?l \<Longrightarrow> ?r" by (intro exI[of _ ?leaf]) (elim conjE, simp del: certified_path.simps)
    assume ?r
    then show ?l using path by (elim exE conjE) (cases res, simp del: certified_path.simps)
  qed
  finally show ?thesis unfolding Cons by simp
qed (simp add: resolve_chain_def chain_leaf_def)

lemma find_update_first:
  assumes "\<And>x. ct_account (f x) = ct_account x"
  shows "contact_get (update_first (\<lambda>c. ct_account c = a) f cs) b =
    (if b = a then map_option f (contact_get cs a) else contact_get cs b)"
  using assms by (induction cs) (auto simp: contact_get_def)

lemma contact_get_append:
  "contact_get (cs @ [d]) b = (case contact_get cs b of Some c \<Rightarrow> Some c | None \<Rightarrow> if ct_account d = b then Some d else None)"
  by (induction cs) (simp_all add: contact_get_def)

lemma is_contact_get: "list_ex (\<lambda>c. ct_account c = a) cs \<longleftrightarrow> contact_get cs a \<noteq> None"
  by (induction cs) (simp_all add: contact_get_def)

lemma contact_get_add:
  "contact_get (contact_add P cs a n fr) b =
    (if b = a then Some (case contact_get cs a of
         Some c \<Rightarrow> c\<lparr>ct_name := n, ct_friend := fr\<rparr>
       | None \<Rightarrow> \<lparr>ct_account = a, ct_fingerprint = fingerprint P a, ct_name = n, ct_friend = fr\<rparr>)
     else contact_get cs b)"
  unfolding contact_add_def Let_def is_contact_get
  by (cases "contact_get cs a"; cases "b = a") (simp_all add: contact_get_append find_update_first split: option.split)

lemma contact_get_set_friend:
  "contact_get (snd (set_friend cs a fr)) b =
    (if b = a then map_option (\<lambda>c. c\<lparr>ct_friend := fr\<rparr>) (contact_get cs a) else contact_get cs b)"
  unfolding set_friend_def is_contact_get by (cases "contact_get cs a") (simp_all add: find_update_first)

section \<open>Round trips\<close>

definition cert_ok :: "cert \<Rightarrow> bool" where
  "cert_ok c \<longleftrightarrow> cert_sized c \<and> utf8_valid (ce_label c)"

definition signed_cert_ok :: "signed_cert \<Rightarrow> bool" where
  "signed_cert_ok sc \<longleftrightarrow> frame_sized (sig_vk (sc_issuer sc)) \<and> cert_ok (sc_cert sc) \<and>
     frame_sized (cert_encode (sc_cert sc)) \<and> frame_sized (sc_sig sc)"

lemma reads_pub [reads_intros]:
  assumes "frame_sized (sig_vk p)"
  shows "reads get_pub (bytes_enc (sig_vk p)) p"
proof -
  have "reads get_pub (bytes_enc (sig_vk p) @ []) \<lparr>sig_vk = sig_vk p\<rparr>"
    unfolding get_pub_def by (rule reads_intros assms)+
  then show ?thesis by (cases p) simp
qed

lemma reads_time [reads_intros]: "reads get_time (bytes_enc (u64_be t)) t"
proof -
  have "reads get_time (bytes_enc (u64_be t) @ []) (u64_from_be (u64_be t))"
    unfolding get_time_def by (rule reads_intros frame_sized_u64 | simp)+
  then show ?thesis by simp
qed

lemma reads_cert:
  assumes "cert_ok c"
  shows "reads cert_read (cert_encode c) c"
proof -
  have a: "frame_sized (sig_vk (ce_subject c))" "frame_sized (ce_label c)" "utf8_valid (ce_label c)"
    using assms by (simp_all add: cert_ok_def cert_sized_def)
  have "reads cert_read (bytes_enc (sig_vk (ce_subject c)) @ bytes_enc (ce_label c) @
      bytes_enc (u64_be (ce_valid_from c)) @ bytes_enc (u64_be (ce_expiry c)) @ [])
      \<lparr>ce_subject = ce_subject c, ce_label = ce_label c, ce_valid_from = ce_valid_from c, ce_expiry = ce_expiry c\<rparr>"
    unfolding cert_read_def by (rule reads_intros a)+
  then show ?thesis by (cases c) (simp add: signed_bodies)
qed

lemma frame_limit: "frame_sized x \<Longrightarrow> length x < usize_limit"
  by (simp add: frame_sized_def MAX_FRAME_def usize_limit_def)

lemma inner_cert_encode: "cert_ok c \<Longrightarrow> frame_sized (cert_encode c) \<Longrightarrow> inner_cert (cert_encode c) = Inr c"
  using reads_start[OF reads_cert, of c] frame_limit by (simp add: inner_cert_def codec_simps)

lemma signed_cert_bytes:
  "signed_cert_encode sc = bytes_enc (sig_vk (sc_issuer sc)) @ bytes_enc (cert_encode (sc_cert sc)) @ bytes_enc (sc_sig sc)"
  by (simp add: signed_cert_encode_def put_pub_def into_vec_def codec_simps)

lemma reads_signed_cert:
  assumes "signed_cert_ok sc"
  shows "reads signed_cert_read (signed_cert_encode sc) sc"
proof -
  have a: "frame_sized (sig_vk (sc_issuer sc))" "frame_sized (cert_encode (sc_cert sc))" "frame_sized (sc_sig sc)"
    "inner_cert (cert_encode (sc_cert sc)) = Inr (sc_cert sc)"
    using assms inner_cert_encode by (simp_all add: signed_cert_ok_def)
  have "reads signed_cert_read (bytes_enc (sig_vk (sc_issuer sc)) @ bytes_enc (cert_encode (sc_cert sc)) @ bytes_enc (sc_sig sc) @ [])
      \<lparr>sc_issuer = sc_issuer sc, sc_cert = sc_cert sc, sc_sig = sc_sig sc\<rparr>"
    unfolding signed_cert_read_def by (rule reads_intros a)+
  then show ?thesis by (cases sc) (simp add: signed_cert_bytes)
qed

definition chain_ok :: "identity_chain \<Rightarrow> bool" where
  "chain_ok c \<longleftrightarrow> length (links c) \<le> 16 \<and>
     list_all (\<lambda>l. signed_cert_ok l \<and> frame_sized (signed_cert_encode l)) (links c) \<and> frame_sized (chain_encode c)"

lemma chain_bytes:
  "chain_encode c = u32_be (of_nat (length (links c))) @ concat (map (\<lambda>l. bytes_enc (signed_cert_encode l)) (links c))"
proof -
  have "wbuf (foldl (\<lambda>w l. put_bytes w (signed_cert_encode l)) w ls) =
      wbuf w @ concat (map (\<lambda>l. bytes_enc (signed_cert_encode l)) ls)" for w ls
    by (induction ls arbitrary: w) (simp_all add: codec_simps)
  then show ?thesis by (simp add: chain_encode_def into_vec_def codec_simps)
qed

lemma reads_chain_link:
  assumes "signed_cert_ok l" "frame_sized (signed_cert_encode l)"
  shows "reads chain_link_read (bytes_enc (signed_cert_encode l)) l"
proof -
  have s: "signed_cert_read (reader_new (signed_cert_encode l)) = Inr (l, reader_at (signed_cert_encode l) [])"
    by (rule reads_start[OF reads_signed_cert[OF assms(1)] frame_limit[OF assms(2)]])
  have "reads (\<lambda>r. bind_result (wire (get_bytes r)) (\<lambda>(b, r). Inr (l, r))) (bytes_enc (signed_cert_encode l) @ []) l"
    by (rule reads_intros assms(2))+
  then show ?thesis
    using lp.get_at[OF assms(2)] s by (simp add: reads_def chain_link_read_def codec_simps)
qed

lemma chain_decode_encode:
  assumes "chain_ok c"
  shows "chain_decode (chain_encode c) = Inr c"
proof -
  let ?n = "of_nat (length (links c)) :: u32" and ?b = "concat (map (\<lambda>l. bytes_enc (signed_cert_encode l)) (links c))"
  have n: "unat ?n = length (links c)" "\<not> 16 < ?n"
    using assms by (simp_all add: chain_ok_def word_less_nat_alt)
  have "reads (read_n (unat ?n) chain_link_read) ?b (links c)"
    unfolding n(1) using assms by (intro reads_list reads_chain_link) (auto simp: chain_ok_def list_all_iff)
  then have "ends (\<lambda>r. bind_result (wire (get_u32 r)) (\<lambda>(n, r).
      if 16 < n then malformed ''identity chain too long'' else
      bind_result (read_n (unat n) chain_link_read r) (\<lambda>(ls, r).
      bind_result (wire (finish r)) (\<lambda>_. Inr \<lparr>links = ls\<rparr>)))) (u32_be ?n @ ?b @ []) \<lparr>links = links c\<rparr>"
    using n(2) by - (rule decode_rules reads_intros | assumption | simp)+
  from ends_start[OF this] have "chain_decode (chain_encode c) = Inr \<lparr>links = links c\<rparr>"
    using assms frame_limit[of "chain_encode c"] by (simp add: chain_decode_def chain_ok_def chain_bytes del: length_append)
  then show ?thesis by simp
qed

definition username_ok :: "str option \<Rightarrow> bool" where
  "username_ok u \<longleftrightarrow> (case u of None \<Rightarrow> True | Some n \<Rightarrow> frame_sized n \<and> utf8_valid n)"

definition username_enc :: "str option \<Rightarrow> bytes" where
  "username_enc u = (case u of None \<Rightarrow> [0] | Some n \<Rightarrow> 1 # bytes_enc n)"

lemma reads_presentation_username:
  assumes "username_ok u"
  shows "reads presentation_username (username_enc u) u"
proof (cases u)
  case None
  have "reads presentation_username ([0] @ []) None"
    unfolding presentation_username_def by (rule reads_bind[OF reads_err[OF reads_u8]]) (simp add: reads_def)
  then show ?thesis using None by (simp add: username_enc_def)
next
  case (Some n)
  have a: "frame_sized n" "utf8_valid n" using assms Some by (simp_all add: username_ok_def)
  have "reads (\<lambda>r. bind_result (cwire (get_vec r)) (\<lambda>(u, r).
      bind_result (ok_or (CryptoErr (Malformed (ascii ''username utf-8''))) (from_utf8 u)) (\<lambda>s. Inr (Some s, r))))
      (bytes_enc n @ []) (Some n)"
    by (rule reads_intros a)+
  then have "reads presentation_username ([1] @ bytes_enc n) (Some n)"
    unfolding presentation_username_def by (intro reads_bind[OF reads_err[OF reads_u8]]) simp
  then show ?thesis using Some by (simp add: username_enc_def)
qed

lemma presentation_decodes:
  assumes "chain_ok (ps_chain p)" "username_ok (ps_username p)" "length (presentation_encode p) < usize_limit"
  shows "presentation_decode (presentation_encode p) = Inr p"
proof -
  have c: "chain_decode (chain_encode (ps_chain p)) = Inr (ps_chain p)" by (rule chain_decode_encode[OF assms(1)])
  then have c': "map_err CryptoErr (chain_decode (chain_encode (ps_chain p))) = Inr (ps_chain p)" by (simp add: result_simps)
  have f: "frame_sized (chain_encode (ps_chain p))" using assms(1) by (simp add: chain_ok_def)
  have e: "presentation_encode p = bytes_enc (chain_encode (ps_chain p)) @ username_enc (ps_username p) @ []"
    by (simp add: presentation_encode_def username_enc_def into_vec_def codec_simps split: option.split)
  have "ends (\<lambda>r. bind_result (cwire (get_bytes r)) (\<lambda>(cb, r).
      bind_result (map_err CryptoErr (chain_decode cb)) (\<lambda>chain.
      bind_result (presentation_username r) (\<lambda>(username, r).
      bind_result (map_err (\<lambda>_. CryptoErr (Malformed (ascii ''presentation trailing bytes''))) (finish r)) (\<lambda>_.
        Inr \<lparr>ps_chain = chain, ps_username = username\<rparr>)))))
      (bytes_enc (chain_encode (ps_chain p)) @ username_enc (ps_username p) @ []) \<lparr>ps_chain = ps_chain p, ps_username = ps_username p\<rparr>"
    by (rule decode_rules reads_intros f c' reads_presentation_username[OF assms(2)])+
  from ends_start[OF this] show ?thesis using assms(3) unfolding e presentation_decode_def by simp
qed

text \<open>
  A presentation survives the wire: the chain with all its certificates and the optional
  username decode to what was encoded, and so does the chain alone, so the receiver verifies
  the very certificates the sender presented.
\<close>

lemma presentation_roundtrip:
  assumes "chain_ok (ps_chain p)" "username_ok (ps_username p)" "length (presentation_encode p) < usize_limit"
  shows "presentation_decode (presentation_encode p) = Inr p \<and> chain_decode (chain_encode (ps_chain p)) = Inr (ps_chain p)"
  using presentation_decodes[OF assms] chain_decode_encode[OF assms(1)] by blast

lemma presentation_roundtrip_witness:
  "presentation_decode (presentation_encode
     \<lparr>ps_chain = \<lparr>links = [\<lparr>sc_issuer = \<lparr>sig_vk = [7]\<rparr>,
        sc_cert = \<lparr>ce_subject = \<lparr>sig_vk = [8]\<rparr>, ce_label = [], ce_valid_from = 1, ce_expiry = 2\<rparr>, sc_sig = [9]\<rparr>]\<rparr>,
      ps_username = Some []\<rparr>) =
   Inr \<lparr>ps_chain = \<lparr>links = [\<lparr>sc_issuer = \<lparr>sig_vk = [7]\<rparr>,
        sc_cert = \<lparr>ce_subject = \<lparr>sig_vk = [8]\<rparr>, ce_label = [], ce_valid_from = 1, ce_expiry = 2\<rparr>, sc_sig = [9]\<rparr>]\<rparr>,
      ps_username = Some []\<rparr>"
  by (rule presentation_roundtrip[THEN conjunct1])
    (simp_all add: chain_ok_def username_ok_def signed_cert_ok_def cert_ok_def cert_sized_def frame_sized_def MAX_FRAME_def
      chain_bytes signed_cert_bytes signed_bodies presentation_encode_def into_vec_def codec_simps usize_limit_def length_bytes_enc)

end
