(* ===== verification/Linkage.thy ===== *)
theory Linkage
  imports Account
begin

text \<open>
  \<open>linkage.rs\<close>: predicates, claims and proofs of the linkage layer with their wire forms,
  and the certificate backend that decides them. A verifier learns only whether a claim
  passes; what a pass means in terms of certificates and signatures is the exactness
  theorem of this theory.
\<close>

section \<open>Predicates\<close>

datatype predicate =
    LinkedToAccount bytes
  | Grouping bytes
  | DerivedFromNamed bytes

definition predicate_encode :: "predicate \<Rightarrow> bytes" where
  "predicate_encode p =
     (case p of
        LinkedToAccount account_fp \<Rightarrow> into_vec (put_bytes (put_u8 writer_new 0) account_fp)
      | Grouping grouping_pub \<Rightarrow> into_vec (put_bytes (put_u8 writer_new 1) grouping_pub)
      | DerivedFromNamed ancestor_fp \<Rightarrow> into_vec (put_bytes (put_u8 writer_new 2) ancestor_fp))"

definition fp48 :: "bytes \<Rightarrow> bytes option" where
  "fp48 b = (if length b = 48 then Some b else None)"

definition predicate_read :: "reader \<Rightarrow> (predicate \<times> reader) option" where
  "predicate_read r = do {
     (t, r) \<leftarrow> ok (get_u8 r);
     if t = 0 then do { (b, r) \<leftarrow> ok (get_bytes r); fp \<leftarrow> fp48 b; Some (LinkedToAccount fp, r) }
     else if t = 1 then do { (b, r) \<leftarrow> ok (get_bytes r); Some (Grouping b, r) }
     else if t = 2 then do { (b, r) \<leftarrow> ok (get_bytes r); fp \<leftarrow> fp48 b; Some (DerivedFromNamed fp, r) }
     else None
   }"

definition predicate_decode :: "bytes \<Rightarrow> predicate option" where
  "predicate_decode b = do {
     (p, r) \<leftarrow> predicate_read (reader_new b);
     _ \<leftarrow> ok (finish r);
     Some p
   }"

record link_claim =
  lc_predicate :: predicate
  lc_context :: bytes

datatype verdict = Pass | Fail

datatype opsec_mode = Clean | Selective | Transparent bool

definition opsec_default :: opsec_mode where
  "opsec_default = Clean"

record sybil_count =
  distinct_accounts :: nat
  distinct_groupings :: nat
  isolated :: nat
  min_distinct_people :: nat

section \<open>Proofs\<close>

datatype linkage_proof =
    ChainProof identity_chain bytes
  | GroupingCert identity_public signed_cert bytes

definition linkage_proof_encode :: "linkage_proof \<Rightarrow> bytes" where
  "linkage_proof_encode p =
     (case p of
        ChainProof chain ctx_sig \<Rightarrow>
          into_vec (put_bytes (put_bytes (put_u8 writer_new 0) (chain_encode chain)) ctx_sig)
      | GroupingCert member c ctx_sig \<Rightarrow>
          into_vec (put_bytes (put_bytes (put_bytes (put_u8 writer_new 1) (sig_vk member)) (signed_cert_encode c)) ctx_sig))"

definition proof_read ::
    "(bytes \<Rightarrow> crypto_error + identity_chain) \<Rightarrow> (bytes \<Rightarrow> crypto_error + signed_cert) \<Rightarrow> reader \<Rightarrow> (linkage_proof \<times> reader) option" where
  "proof_read chain_dec cert_dec r = do {
     (t, r) \<leftarrow> ok (get_u8 r);
     if t = 0 then do {
       (b, r) \<leftarrow> ok (get_bytes r);
       chain \<leftarrow> ok (chain_dec b);
       (ctx_sig, r) \<leftarrow> ok (get_vec r);
       Some (ChainProof chain ctx_sig, r)
     }
     else if t = 1 then do {
       (vk, r) \<leftarrow> ok (get_vec r);
       (b, r) \<leftarrow> ok (get_bytes r);
       c \<leftarrow> ok (cert_dec b);
       (ctx_sig, r) \<leftarrow> ok (get_vec r);
       Some (GroupingCert \<lparr>sig_vk = vk\<rparr> c ctx_sig, r)
     }
     else None
   }"

definition decode_with ::
    "bytes \<Rightarrow> (bytes \<Rightarrow> crypto_error + identity_chain) \<Rightarrow> (bytes \<Rightarrow> crypto_error + signed_cert) \<Rightarrow> linkage_proof option" where
  "decode_with b chain_dec cert_dec = do {
     (p, r) \<leftarrow> proof_read chain_dec cert_dec (reader_new b);
     _ \<leftarrow> ok (finish r);
     Some p
   }"

definition linkage_proof_decode :: "bytes \<Rightarrow> linkage_proof option" where
  "linkage_proof_decode b = decode_with b chain_decode signed_cert_decode"

section \<open>The broadcast disclosure\<close>

record linkage_payload =
  lp_grouping_pub :: bytes
  lp_cert :: signed_cert
  lp_ctx_sig :: bytes
  lp_seq :: u64

definition linkage_payload_encode :: "linkage_payload \<Rightarrow> bytes" where
  "linkage_payload_encode p =
     (let w = put_u8 writer_new 0;
          w = put_bytes w (lp_grouping_pub p);
          w = put_bytes w (signed_cert_encode (lp_cert p));
          w = put_bytes w (lp_ctx_sig p);
          w = put_u32 w (hi32 (lp_seq p));
          w = put_u32 w (lo32 (lp_seq p))
      in into_vec w)"

definition linkage_payload_decode :: "bytes \<Rightarrow> linkage_payload option" where
  "linkage_payload_decode b = do {
     (t, r) \<leftarrow> ok (get_u8 (reader_new b));
     if t = 0 then do {
       (grouping_pub, r) \<leftarrow> ok (get_vec r);
       (cb, r) \<leftarrow> ok (get_bytes r);
       c \<leftarrow> ok (signed_cert_decode cb);
       (ctx_sig, r) \<leftarrow> ok (get_vec r);
       (hi, r) \<leftarrow> ok (get_u32 r);
       (lo, r) \<leftarrow> ok (get_u32 r);
       _ \<leftarrow> ok (finish r);
       Some \<lparr>lp_grouping_pub = grouping_pub, lp_cert = c, lp_ctx_sig = ctx_sig, lp_seq = join32 hi lo\<rparr>
     }
     else None
   }"

section \<open>The certificate backend\<close>

definition verify_chain_to_account :: "prims \<Rightarrow> u64 \<Rightarrow> identity_chain \<Rightarrow> bytes \<Rightarrow> bytes \<Rightarrow> bytes option" where
  "verify_chain_to_account P now chain ctx_sig ctx = do {
     account \<leftarrow> (case links chain of [] \<Rightarrow> None | l # _ \<Rightarrow> Some (sc_issuer l));
     leaf \<leftarrow> chain_leaf chain;
     if \<not> belongs_to_account P account chain leaf now then None
     else if id_verify P leaf ctx ctx_sig \<noteq> Inr () then None
     else Some (fingerprint P account)
   }"

definition backend_verify :: "prims \<Rightarrow> u64 \<Rightarrow> link_claim \<Rightarrow> bytes \<Rightarrow> verdict" where
  "backend_verify P now claim prf =
     (case linkage_proof_decode prf of
        None \<Rightarrow> Fail
      | Some lp \<Rightarrow>
          if (case (lc_predicate claim, lp) of
                (LinkedToAccount account_fp, ChainProof chain ctx_sig) \<Rightarrow>
                  (case verify_chain_to_account P now chain ctx_sig (lc_context claim) of
                     None \<Rightarrow> False | Some acct_fp \<Rightarrow> acct_fp = account_fp)
              | (DerivedFromNamed ancestor_fp, ChainProof chain ctx_sig) \<Rightarrow>
                  verify_chain_to_account P now chain ctx_sig (lc_context claim) \<noteq> None \<and>
                  list_ex (\<lambda>c. fingerprint P (sc_issuer c) = ancestor_fp) (links chain)
              | (Grouping grouping_pub, GroupingCert member c ctx_sig) \<Rightarrow>
                  verify_grouping_cert P \<lparr>sig_vk = grouping_pub\<rparr> c member now \<and>
                  id_verify P member (lc_context claim) ctx_sig = Inr ()
              | _ \<Rightarrow> False)
          then Pass else Fail)"

section \<open>What a pass means\<close>

text \<open>
  The statement behind each predicate, over certification paths: the presenter holds the leaf
  (it signed the chat context), the path from the account to the leaf is certified, and the
  named ancestor is a key on that path, above the leaf.
\<close>

definition attested :: "prims \<Rightarrow> u64 \<Rightarrow> link_claim \<Rightarrow> linkage_proof \<Rightarrow> bool" where
  "attested P now claim lp \<longleftrightarrow>
     (case (lc_predicate claim, lp) of
        (LinkedToAccount fp, ChainProof chain s) \<Rightarrow>
          (\<exists>a leaf. links chain \<noteq> [] \<and> certified_path P now a (links chain) leaf \<and>
             id_verify P leaf (lc_context claim) s = Inr () \<and> fingerprint P a = fp)
      | (DerivedFromNamed fp, ChainProof chain s) \<Rightarrow>
          (\<exists>a xs m ys leaf. links chain = xs @ ys \<and> ys \<noteq> [] \<and> certified_path P now a xs m \<and>
             certified_path P now m ys leaf \<and> id_verify P leaf (lc_context claim) s = Inr () \<and> fingerprint P m = fp)
      | (Grouping g, GroupingCert m c s) \<Rightarrow>
          certified_path P now \<lparr>sig_vk = g\<rparr> [c] m \<and> id_verify P m (lc_context claim) s = Inr ()
      | _ \<Rightarrow> False)"

lemma certified_path_root: "certified_path P now a (l # ls) x \<Longrightarrow> a = sc_issuer l"
  by simp

lemma chain_to_account_iff:
  "verify_chain_to_account P now chain s ctx = Some fp \<longleftrightarrow>
     (\<exists>a leaf. links chain \<noteq> [] \<and> certified_path P now a (links chain) leaf \<and>
        id_verify P leaf ctx s = Inr () \<and> fingerprint P a = fp)"
proof (cases "links chain")
  case (Cons l ls)
  let ?leaf = "ce_subject (sc_cert (last (l # ls)))"
  have "verify_chain_to_account P now chain s ctx = Some fp \<longleftrightarrow>
      certified_path P now (sc_issuer l) (l # ls) ?leaf \<and> id_verify P ?leaf ctx s = Inr () \<and> fingerprint P (sc_issuer l) = fp"
    using Cons by (simp add: verify_chain_to_account_def chain_leaf_def belongs_to_account_def chain_verify_path
        del: certified_path.simps)
  also have "\<dots> \<longleftrightarrow> (\<exists>a leaf. certified_path P now a (l # ls) leaf \<and> id_verify P leaf ctx s = Inr () \<and> fingerprint P a = fp)"
    using certified_path_root certified_path_leaf[of "l # ls"] by (metis list.distinct(1))
  finally show ?thesis using Cons by simp
qed (simp add: verify_chain_to_account_def)

text \<open>The issuers of a certified path are the keys on it above the leaf.\<close>

lemma issuer_on_path:
  assumes "certified_path P now a ls leaf"
  shows "list_ex (\<lambda>c. q (sc_issuer c)) ls \<longleftrightarrow>
    (\<exists>xs m ys. ls = xs @ ys \<and> ys \<noteq> [] \<and> certified_path P now a xs m \<and> certified_path P now m ys leaf \<and> q m)"
    (is "?l \<longleftrightarrow> ?r")
proof
  assume ?l
  then obtain c where "c \<in> set ls" "q (sc_issuer c)" by (auto simp: list_ex_iff)
  then obtain xs ys where s: "ls = xs @ c # ys" by (metis split_list)
  then obtain m where "certified_path P now a xs m" "certified_path P now m (c # ys) leaf"
    using assms[unfolded s certified_path_append] by blast
  moreover from this(2) have "m = sc_issuer c" by (rule certified_path_root)
  ultimately show ?r using s \<open>q (sc_issuer c)\<close> by blast
next
  assume ?r
  then obtain xs m ys where r: "ls = xs @ ys" "ys \<noteq> []" "certified_path P now m ys leaf" "q m" by blast
  then obtain c zs where "ys = c # zs" by (cases ys) auto
  moreover from r(3)[unfolded this] have "m = sc_issuer c" by (rule certified_path_root)
  ultimately show ?l using r(1,4) by simp
qed

lemma derived_iff:
  "verify_chain_to_account P now chain s ctx \<noteq> None \<and> list_ex (\<lambda>c. q (sc_issuer c)) (links chain) \<longleftrightarrow>
     (\<exists>a xs m ys leaf. links chain = xs @ ys \<and> ys \<noteq> [] \<and> certified_path P now a xs m \<and>
        certified_path P now m ys leaf \<and> id_verify P leaf ctx s = Inr () \<and> q m)"
proof -
  have "verify_chain_to_account P now chain s ctx \<noteq> None \<longleftrightarrow>
      (\<exists>a leaf. links chain \<noteq> [] \<and> certified_path P now a (links chain) leaf \<and> id_verify P leaf ctx s = Inr ())"
    using chain_to_account_iff[of P now chain s ctx] by (metis not_None_eq)
  moreover have "(\<exists>a leaf. links chain \<noteq> [] \<and> certified_path P now a (links chain) leaf \<and> id_verify P leaf ctx s = Inr ()) \<and>
      list_ex (\<lambda>c. q (sc_issuer c)) (links chain) \<longleftrightarrow>
      (\<exists>a xs m ys leaf. links chain = xs @ ys \<and> ys \<noteq> [] \<and> certified_path P now a xs m \<and>
        certified_path P now m ys leaf \<and> id_verify P leaf ctx s = Inr () \<and> q m)" (is "?l \<longleftrightarrow> ?r")
  proof
    show "?l \<Longrightarrow> ?r" using issuer_on_path[of P now _ "links chain" _ q] by blast
  next
    assume ?r
    then obtain a xs m ys leaf where r: "links chain = xs @ ys" "ys \<noteq> []" "certified_path P now a xs m"
      "certified_path P now m ys leaf" "id_verify P leaf ctx s = Inr ()" "q m" by blast
    then have c: "certified_path P now a (links chain) leaf" unfolding r(1) certified_path_append by blast
    then show ?l using issuer_on_path[OF c, of q] r by auto
  qed
  ultimately show ?thesis by simp
qed

text \<open>
  C13. A claim passes exactly when its proof decodes and shows what the predicate states: for
  an account, a certified path from a key with that fingerprint to a leaf whose holder signed
  this chat's context; for a named ancestor, such a path on which the ancestor lies above the
  leaf; for a grouping, a valid certificate of the member under the grouping key and the
  member's signature on the context. Proofs of one shape never pass for a predicate of another.
\<close>

theorem linkage_verdict_exact:
  "backend_verify P now claim prf = Pass \<longleftrightarrow> (\<exists>lp. linkage_proof_decode prf = Some lp \<and> attested P now claim lp)"
proof (cases "linkage_proof_decode prf")
  case (Some lp)
  have g: "verify_grouping_cert P \<lparr>sig_vk = g\<rparr> c m now \<longleftrightarrow> certified_path P now \<lparr>sig_vk = g\<rparr> [c] m" for g c m
    by (auto simp: verify_grouping_cert_def cert_valid_at_def)
  have a: "(case verify_chain_to_account P now chain s ctx of None \<Rightarrow> False | Some acct_fp \<Rightarrow> acct_fp = fp) \<longleftrightarrow>
      verify_chain_to_account P now chain s ctx = Some fp" for chain s ctx fp
    by (simp split: option.split)
  have "backend_verify P now claim prf = Pass \<longleftrightarrow> attested P now claim lp"
    unfolding backend_verify_def attested_def Some option.case a g derived_iff[of P now _ _ _ "\<lambda>m. fingerprint P m = _"]
      chain_to_account_iff
    by (cases "lc_predicate claim"; cases lp) (simp_all only: prod.case predicate.case linkage_proof.case if_cancel split: if_split, simp_all)
  then show ?thesis using Some by simp
qed (simp add: backend_verify_def)

section \<open>Round trips\<close>

lemma signed_cert_decode_encode:
  assumes "signed_cert_ok c" "frame_sized (signed_cert_encode c)"
  shows "signed_cert_decode (signed_cert_encode c) = Inr c"
  using reads_start[OF reads_signed_cert[OF assms(1)] frame_limit[OF assms(2)]] by (simp add: signed_cert_decode_def codec_simps)

definition cert_wire_ok :: "signed_cert \<Rightarrow> bool" where
  "cert_wire_ok c \<longleftrightarrow> signed_cert_ok c \<and> frame_sized (signed_cert_encode c)"

lemma cert_check: "cert_wire_ok c \<Longrightarrow> ok (signed_cert_decode (signed_cert_encode c)) = Some c"
  using signed_cert_decode_encode by (simp add: cert_wire_ok_def)

lemma chain_check: "chain_ok c \<Longrightarrow> ok (chain_decode (chain_encode c)) = Some c"
  using chain_decode_encode by simp

definition proof_ok :: "linkage_proof \<Rightarrow> bool" where
  "proof_ok lp \<longleftrightarrow>
     (case lp of
        ChainProof c s \<Rightarrow> chain_ok c \<and> frame_sized s
      | GroupingCert m c s \<Rightarrow> frame_sized (sig_vk m) \<and> cert_wire_ok c \<and> frame_sized s)"

lemma linkage_proof_bytes:
  "linkage_proof_encode (ChainProof c s) = [0] @ bytes_enc (chain_encode c) @ bytes_enc s"
  "linkage_proof_encode (GroupingCert m k s) = [1] @ bytes_enc (sig_vk m) @ bytes_enc (signed_cert_encode k) @ bytes_enc s"
  by (simp_all add: linkage_proof_encode_def into_vec_def codec_simps)

lemma scans_proof:
  assumes "proof_ok lp"
  shows "scans (proof_read chain_decode signed_cert_decode) (linkage_proof_encode lp) lp"
proof (cases lp)
  case (ChainProof c s)
  have a: "frame_sized (chain_encode c)" "frame_sized s" "ok (chain_decode (chain_encode c)) = Some c"
    using assms ChainProof chain_check by (simp_all add: proof_ok_def chain_ok_def)
  have "scans (proof_read chain_decode signed_cert_decode) ([0] @ bytes_enc (chain_encode c) @ bytes_enc s @ []) (ChainProof c s)"
    unfolding proof_read_def by ((simp; fail) | rule scan_rules reads_intros a)+
  then show ?thesis by (simp add: ChainProof linkage_proof_bytes)
next
  case (GroupingCert m c s)
  have a: "frame_sized (sig_vk m)" "frame_sized (signed_cert_encode c)" "frame_sized s"
    "ok (signed_cert_decode (signed_cert_encode c)) = Some c"
    using assms GroupingCert cert_check by (simp_all add: proof_ok_def cert_wire_ok_def)
  have "scans (proof_read chain_decode signed_cert_decode)
      ([1] @ bytes_enc (sig_vk m) @ bytes_enc (signed_cert_encode c) @ bytes_enc s @ []) (GroupingCert \<lparr>sig_vk = sig_vk m\<rparr> c s)"
    unfolding proof_read_def by ((simp; fail) | rule scan_rules reads_intros a)+
  then show ?thesis by (cases m) (simp add: GroupingCert linkage_proof_bytes)
qed

lemma linkage_proof_roundtrip:
  assumes "proof_ok lp" "length (linkage_proof_encode lp) < usize_limit"
  shows "linkage_proof_decode (linkage_proof_encode lp) = Some lp"
  unfolding linkage_proof_decode_def decode_with_def by (rule scan_all[OF scans_proof[OF assms(1)] assms(2)])

definition payload_ok :: "linkage_payload \<Rightarrow> bool" where
  "payload_ok p \<longleftrightarrow> frame_sized (lp_grouping_pub p) \<and> cert_wire_ok (lp_cert p) \<and> frame_sized (lp_ctx_sig p)"

lemma linkage_payload_roundtrip:
  assumes "payload_ok p" "length (linkage_payload_encode p) < usize_limit"
  shows "linkage_payload_decode (linkage_payload_encode p) = Some p"
proof -
  let ?c = "signed_cert_encode (lp_cert p)"
  have a: "frame_sized (lp_grouping_pub p)" "frame_sized ?c" "frame_sized (lp_ctx_sig p)" "ok (signed_cert_decode ?c) = Some (lp_cert p)"
    using assms(1) cert_check by (simp_all add: payload_ok_def cert_wire_ok_def)
  have e: "linkage_payload_encode p = [0] @ bytes_enc (lp_grouping_pub p) @ bytes_enc ?c @ bytes_enc (lp_ctx_sig p) @
      u32_be (hi32 (lp_seq p)) @ u32_be (lo32 (lp_seq p)) @ []"
    by (simp add: linkage_payload_encode_def into_vec_def codec_simps)
  have "linkage_payload_decode (linkage_payload_encode p) =
      Some \<lparr>lp_grouping_pub = lp_grouping_pub p, lp_cert = lp_cert p, lp_ctx_sig = lp_ctx_sig p, lp_seq = join32 (hi32 (lp_seq p)) (lo32 (lp_seq p))\<rparr>"
    using assms(2) unfolding linkage_payload_decode_def e
    by - (rule decodes_start, ((simp; fail) | rule decode_rules reads_intros a)+)
  then show ?thesis by simp
qed

lemma predicate_roundtrip:
  assumes "case p of Grouping g \<Rightarrow> frame_sized g | LinkedToAccount fp \<Rightarrow> length fp = 48 | DerivedFromNamed fp \<Rightarrow> length fp = 48"
  shows "predicate_decode (predicate_encode p) = Some p"
proof -
  have b: "frame_sized (case p of Grouping g \<Rightarrow> g | LinkedToAccount fp \<Rightarrow> fp | DerivedFromNamed fp \<Rightarrow> fp)"
    using assms by (auto simp: frame_sized_def MAX_FRAME_def split: predicate.splits)
  have "scans predicate_read ((case p of LinkedToAccount fp \<Rightarrow> [0] @ bytes_enc fp @ [] | Grouping g \<Rightarrow> [1] @ bytes_enc g @ []
      | DerivedFromNamed fp \<Rightarrow> [2] @ bytes_enc fp @ [])) p"
  proof (cases p)
    case (LinkedToAccount fp)
    then have "frame_sized fp" "fp48 fp = Some fp" using assms b by (simp_all add: fp48_def)
    then show ?thesis unfolding predicate_read_def LinkedToAccount predicate.case
      by - ((simp; fail) | rule scan_rules reads_intros | assumption)+
  next
    case (Grouping g)
    then have "frame_sized g" using b by simp
    then show ?thesis unfolding predicate_read_def Grouping predicate.case
      by - ((simp; fail) | rule scan_rules reads_intros | assumption)+
  next
    case (DerivedFromNamed fp)
    then have "frame_sized fp" "fp48 fp = Some fp" using assms b by (simp_all add: fp48_def)
    then show ?thesis unfolding predicate_read_def DerivedFromNamed predicate.case
      by - ((simp; fail) | rule scan_rules reads_intros | assumption)+
  qed
  moreover have "(case p of LinkedToAccount fp \<Rightarrow> [0] @ bytes_enc fp @ [] | Grouping g \<Rightarrow> [1] @ bytes_enc g @ []
      | DerivedFromNamed fp \<Rightarrow> [2] @ bytes_enc fp @ []) = predicate_encode p"
    by (simp add: predicate_encode_def into_vec_def codec_simps split: predicate.split)
  moreover have "length (predicate_encode p) < usize_limit"
    using b by (auto simp: predicate_encode_def into_vec_def codec_simps frame_sized_def MAX_FRAME_def usize_limit_def
        split: predicate.splits)
  ultimately show ?thesis unfolding predicate_decode_def by (intro scan_all) simp_all
qed

text \<open>
  Honest disclosures pass: a member who holds a leaf of a valid chain, or a grouping
  certificate, and signs the chat context produces proofs that survive the wire and are
  accepted for the account, for every issuer on the chain and for the grouping, so the
  linkage layer never rejects a truthful claim.
\<close>

lemma honest_linkage_accepted:
  assumes "dsa_correct P" "frame_sized (id_sign P kp ctx)" "kp = from_secret_bytes P seed"
    and "belongs_to_account P account chain (id_public kp) now" "chain_ok chain"
    and "length (linkage_proof_encode (ChainProof chain (id_sign P kp ctx))) < usize_limit"
    and "verify_grouping_cert P \<lparr>sig_vk = g\<rparr> c (id_public kp) now" "cert_wire_ok c" "frame_sized (sig_vk (id_public kp))"
    and "length (linkage_proof_encode (GroupingCert (id_public kp) c (id_sign P kp ctx))) < usize_limit"
  shows "backend_verify P now \<lparr>lc_predicate = LinkedToAccount (fingerprint P account), lc_context = ctx\<rparr>
      (linkage_proof_encode (ChainProof chain (id_sign P kp ctx))) = Pass \<and>
    list_all (\<lambda>l. backend_verify P now \<lparr>lc_predicate = DerivedFromNamed (fingerprint P (sc_issuer l)), lc_context = ctx\<rparr>
      (linkage_proof_encode (ChainProof chain (id_sign P kp ctx))) = Pass) (links chain) \<and>
    backend_verify P now \<lparr>lc_predicate = Grouping g, lc_context = ctx\<rparr>
      (linkage_proof_encode (GroupingCert (id_public kp) c (id_sign P kp ctx))) = Pass"
proof -
  have c: "linkage_proof_decode (linkage_proof_encode (ChainProof chain (id_sign P kp ctx))) = Some (ChainProof chain (id_sign P kp ctx))"
    using assms by (intro linkage_proof_roundtrip) (simp_all add: proof_ok_def)
  have g: "linkage_proof_decode (linkage_proof_encode (GroupingCert (id_public kp) c (id_sign P kp ctx))) =
      Some (GroupingCert (id_public kp) c (id_sign P kp ctx))"
    using assms by (intro linkage_proof_roundtrip) (simp_all add: proof_ok_def)
  have s: "id_verify P (id_public kp) ctx (id_sign P kp ctx) = Inr ()" using verify_signed[OF assms(1)] assms(3) by simp
  have "links chain \<noteq> []" "certified_path P now account (links chain) (id_public kp)"
    using assms(4) by (simp_all add: belongs_to_account_def chain_verify_path)
  then have a: "verify_chain_to_account P now chain (id_sign P kp ctx) ctx = Some (fingerprint P account)"
    using s chain_to_account_iff by blast
  show ?thesis
    using a c g s assms(7) by (auto simp: backend_verify_def list_all_iff list_ex_iff)
qed

lemma demo_lengths:
  "length (sig_vk (id_public (from_secret_bytes demo_prims seed))) = 2592" "length (id_sign demo_prims kp m) = 4627"
  by (simp_all add: from_secret_bytes_def id_sign_def demo_defs VK_LEN_def SIG_LEN_def)

lemmas wire_size_simps =
  frame_sized_def MAX_FRAME_def usize_limit_def linkage_proof_bytes chain_bytes signed_cert_bytes signed_bodies demo_lengths
  chain_ok_def cert_wire_ok_def signed_cert_ok_def cert_ok_def cert_sized_def

abbreviation demo_kp :: "byte \<Rightarrow> identity_key_pair" where
  "demo_kp b \<equiv> from_secret_bytes demo_prims [b]"

lemma honest_linkage_accepted_witness:
  "backend_verify demo_prims 5 \<lparr>lc_predicate = Grouping (sig_vk (id_public (demo_kp 4))), lc_context = [9]\<rparr>
     (linkage_proof_encode (GroupingCert (id_public (demo_kp 2)) (cert_issue demo_prims (demo_kp 4) (id_public (demo_kp 2)) [] 0 0)
        (id_sign demo_prims (demo_kp 2) [9]))) = Pass"
proof (rule honest_linkage_accepted[where seed = "[2]" and account = "id_public (demo_kp 1)" and
      chain = "chain_device demo_prims (demo_kp 1) (id_public (demo_kp 2)) [] 0 0", THEN conjunct2, THEN conjunct2])
  show "dsa_correct demo_prims" by (rule demo_prims_lawful)
  show "belongs_to_account demo_prims (id_public (demo_kp 1)) (chain_device demo_prims (demo_kp 1) (id_public (demo_kp 2)) [] 0 0)
      (id_public (demo_kp 2)) 5"
    by (rule demo_device)
  show "verify_grouping_cert demo_prims \<lparr>sig_vk = sig_vk (id_public (demo_kp 4))\<rparr>
      (cert_issue demo_prims (demo_kp 4) (id_public (demo_kp 2)) [] 0 0) (id_public (demo_kp 2)) 5"
    using verify_signed[OF demo_prims_lawful(6), of "[4]"] by (simp add: verify_grouping_cert_def verify_signature_def)
qed (simp_all add: wire_size_simps chain_device_def)

end
