(* ===== verification/Vouch.thy ===== *)
theory Vouch
  imports Linkage "HOL-Library.Multiset"
begin

text \<open>
  \<open>vouch.rs\<close>: vouches with their signed bytes and wire form, vouch policies, and the
  evaluation of a subject's vouches with the freshness decay and the reversal of clusters
  that are proven to be one operator. Scores are integers; the bounds below show that with
  fewer than \<open>2 ^ 24\<close> vouchers every intermediate value fits the machine types of the code.
\<close>

section \<open>Vouches\<close>

datatype vouch_target =
    VAccount bytes
  | VNameBinding bytes bytes
  | VLeaf bytes

definition target_encode :: "vouch_target \<Rightarrow> bytes" where
  "target_encode t =
     (case t of
        VAccount fp \<Rightarrow> into_vec (put_bytes (put_u8 writer_new 0) fp)
      | VNameBinding account name_tag \<Rightarrow> into_vec (put_bytes (put_bytes (put_u8 writer_new 1) account) name_tag)
      | VLeaf fp \<Rightarrow> into_vec (put_bytes (put_u8 writer_new 2) fp))"

definition fp8 :: "bytes \<Rightarrow> bytes option" where
  "fp8 b = (if length b = 8 then Some b else None)"

definition target_read :: "reader \<Rightarrow> (vouch_target \<times> reader) option" where
  "target_read r = do {
     (t, r) \<leftarrow> ok (get_u8 r);
     if t = 0 then do { (b, r) \<leftarrow> ok (get_bytes r); fp \<leftarrow> fp48 b; Some (VAccount fp, r) }
     else if t = 1 then do {
       (b, r) \<leftarrow> ok (get_bytes r);
       account \<leftarrow> fp48 b;
       (n, r) \<leftarrow> ok (get_bytes r);
       name_tag \<leftarrow> fp8 n;
       Some (VNameBinding account name_tag, r)
     }
     else if t = 2 then do { (b, r) \<leftarrow> ok (get_bytes r); fp \<leftarrow> fp48 b; Some (VLeaf fp, r) }
     else None
   }"

definition target_decode :: "bytes \<Rightarrow> vouch_target option" where
  "target_decode b = do {
     (t, r) \<leftarrow> target_read (reader_new b);
     _ \<leftarrow> ok (finish r);
     Some t
   }"

record vouch =
  vo_target :: vouch_target
  vo_context :: bytes
  vo_epoch :: u64
  vo_asserted_at :: u64
  vo_sig :: bytes
  vo_voucher :: identity_public

definition vouch_encode :: "vouch \<Rightarrow> bytes" where
  "vouch_encode v =
     (let w = put_bytes writer_new (target_encode (vo_target v));
          w = put_bytes w (vo_context v);
          w = put_u32 w (hi32 (vo_epoch v));
          w = put_u32 w (lo32 (vo_epoch v));
          w = put_u32 w (hi32 (vo_asserted_at v));
          w = put_u32 w (lo32 (vo_asserted_at v));
          w = put_bytes w (vo_sig v);
          w = put_bytes w (sig_vk (vo_voucher v))
      in into_vec w)"

definition vouch_decode :: "bytes \<Rightarrow> vouch option" where
  "vouch_decode b = do {
     (tb, r) \<leftarrow> ok (get_bytes (reader_new b));
     t \<leftarrow> target_decode tb;
     (cb, r) \<leftarrow> ok (get_bytes r);
     if length cb \<noteq> 32 then None
     else do {
       (eh, r) \<leftarrow> ok (get_u32 r);
       (el, r) \<leftarrow> ok (get_u32 r);
       (ah, r) \<leftarrow> ok (get_u32 r);
       (al, r) \<leftarrow> ok (get_u32 r);
       (sig, r) \<leftarrow> ok (get_vec r);
       (vk, r) \<leftarrow> ok (get_vec r);
       _ \<leftarrow> ok (finish r);
       Some \<lparr>vo_target = t, vo_context = cb, vo_epoch = join32 eh el, vo_asserted_at = join32 ah al,
             vo_sig = sig, vo_voucher = \<lparr>sig_vk = vk\<rparr>\<rparr>
     }
   }"

definition VOUCH_SIG_LABEL :: bytes where
  "VOUCH_SIG_LABEL = ascii ''talkrypt-vouch-v1''"

definition vouch_signed_bytes :: "vouch_target \<Rightarrow> bytes \<Rightarrow> u64 \<Rightarrow> u64 \<Rightarrow> bytes" where
  "vouch_signed_bytes t ctx epoch asserted_at =
     (let w = put_bytes writer_new VOUCH_SIG_LABEL;
          w = put_bytes w (target_encode t);
          w = put_bytes w ctx;
          w = put_u32 w (hi32 epoch);
          w = put_u32 w (lo32 epoch);
          w = put_u32 w (hi32 asserted_at);
          w = put_u32 w (lo32 asserted_at)
      in into_vec w)"

definition signed_bytes :: "vouch \<Rightarrow> bytes" where
  "signed_bytes v = vouch_signed_bytes (vo_target v) (vo_context v) (vo_epoch v) (vo_asserted_at v)"

definition vouch_verify :: "prims \<Rightarrow> vouch \<Rightarrow> bool" where
  "vouch_verify P v \<longleftrightarrow> id_verify P (vo_voucher v) (signed_bytes v) (vo_sig v) = Inr ()"

definition target_fp :: "vouch \<Rightarrow> bytes" where
  "target_fp v = (case vo_target v of VAccount fp \<Rightarrow> fp | VLeaf fp \<Rightarrow> fp | VNameBinding account _ \<Rightarrow> account)"

definition sign_vouch :: "prims \<Rightarrow> identity_key_pair \<Rightarrow> vouch_target \<Rightarrow> bytes \<Rightarrow> u64 \<Rightarrow> u64 \<Rightarrow> vouch" where
  "sign_vouch P voucher t ctx epoch asserted_at =
     \<lparr>vo_target = t, vo_context = ctx, vo_epoch = epoch, vo_asserted_at = asserted_at,
      vo_sig = id_sign P voucher (vouch_signed_bytes t ctx epoch asserted_at), vo_voucher = id_public voucher\<rparr>"

section \<open>Policies\<close>

datatype relationship = Friend | Contact | Stranger

record vouch_weighting =
  w_friend :: u32
  w_contact :: u32
  w_stranger :: u32

definition weighting_default :: vouch_weighting where
  "weighting_default = \<lparr>w_friend = 4, w_contact = 2, w_stranger = 1\<rparr>"

definition weight_for :: "vouch_weighting \<Rightarrow> relationship \<Rightarrow> u32" where
  "weight_for w r = (case r of Friend \<Rightarrow> w_friend w | Contact \<Rightarrow> w_contact w | Stranger \<Rightarrow> w_stranger w)"

datatype voucher_eligibility = AnyLinked | ContactsOfViewer | Transitive byte

datatype threshold = Count u32 | Percent byte

record vouch_policy =
  vp_eligibility :: voucher_eligibility
  vp_weighting :: vouch_weighting
  vp_threshold :: threshold
  vp_freshness :: u32

definition policy_default :: vouch_policy where
  "policy_default = \<lparr>vp_eligibility = AnyLinked, vp_weighting = weighting_default,
     vp_threshold = Count (- 1), vp_freshness = 64\<rparr>"

definition policy_encode :: "vouch_policy \<Rightarrow> bytes" where
  "policy_encode p =
     (let w = (case vp_eligibility p of
                 AnyLinked \<Rightarrow> put_u8 writer_new 0
               | ContactsOfViewer \<Rightarrow> put_u8 writer_new 1
               | Transitive depth \<Rightarrow> put_u8 (put_u8 writer_new 2) depth);
          w = put_u32 w (w_friend (vp_weighting p));
          w = put_u32 w (w_contact (vp_weighting p));
          w = put_u32 w (w_stranger (vp_weighting p));
          w = (case vp_threshold p of
                 Count c \<Rightarrow> put_u32 (put_u8 w 0) c
               | Percent c \<Rightarrow> put_u8 (put_u8 w 1) c);
          w = put_u32 w (vp_freshness p)
      in into_vec w)"

definition eligibility_read :: "reader \<Rightarrow> (voucher_eligibility \<times> reader) option" where
  "eligibility_read r = do {
     (t, r) \<leftarrow> ok (get_u8 r);
     if t = 0 then Some (AnyLinked, r)
     else if t = 1 then Some (ContactsOfViewer, r)
     else if t = 2 then do { (d, r) \<leftarrow> ok (get_u8 r); Some (Transitive d, r) }
     else None
   }"

definition threshold_read :: "reader \<Rightarrow> (threshold \<times> reader) option" where
  "threshold_read r = do {
     (t, r) \<leftarrow> ok (get_u8 r);
     if t = 0 then do { (c, r) \<leftarrow> ok (get_u32 r); Some (Count c, r) }
     else if t = 1 then do { (p, r) \<leftarrow> ok (get_u8 r); Some (Percent p, r) }
     else None
   }"

definition policy_decode :: "bytes \<Rightarrow> vouch_policy option" where
  "policy_decode b = do {
     (e, r) \<leftarrow> eligibility_read (reader_new b);
     (f, r) \<leftarrow> ok (get_u32 r);
     (c, r) \<leftarrow> ok (get_u32 r);
     (s, r) \<leftarrow> ok (get_u32 r);
     (t, r) \<leftarrow> threshold_read r;
     (i, r) \<leftarrow> ok (get_u32 r);
     _ \<leftarrow> ok (finish r);
     Some \<lparr>vp_eligibility = e, vp_weighting = \<lparr>w_friend = f, w_contact = c, w_stranger = s\<rparr>, vp_threshold = t, vp_freshness = i\<rparr>
   }"

section \<open>Evaluation\<close>

record voucher_view =
  vv_fp :: bytes
  vv_relationship :: relationship
  vv_rounds :: u32
  vv_grouping :: "bytes option"

record vouch_decision =
  weighted_score :: int
  vouched :: bool
  inflation_rejected :: bool
  flagged :: "bytes list"

definition age_decay :: "u32 \<Rightarrow> u32 \<Rightarrow> u32" where
  "age_decay rounds interval =
     (if interval = 0 \<or> rounds \<ge> interval then 0
      else ucast ((ucast (interval - rounds) * 1000 :: u64) div ucast interval))"

definition eligible :: "voucher_view \<Rightarrow> voucher_eligibility \<Rightarrow> bool" where
  "eligible v e =
     (case e of
        AnyLinked \<Rightarrow> True
      | ContactsOfViewer \<Rightarrow> vv_relationship v = Friend \<or> vv_relationship v = Contact
      | Transitive _ \<Rightarrow> True)"

definition max_weight :: "voucher_view list \<Rightarrow> vouch_policy \<Rightarrow> nat" where
  "max_weight vs policy =
     sum_list (map (\<lambda>v. unat (weight_for (vp_weighting policy) (vv_relationship v))) (filter (\<lambda>v. eligible v (vp_eligibility policy)) vs))"

definition meets_threshold :: "int \<Rightarrow> voucher_view list \<Rightarrow> vouch_policy \<Rightarrow> bool" where
  "meets_threshold score vs policy =
     (case vp_threshold policy of
        Count c \<Rightarrow> score \<ge> uint c
      | Percent p \<Rightarrow>
          let m = max_weight vs policy
          in if m = 0 then False else nat (max score 0) * 100 \<ge> unat p * m)"

definition is_vouched :: "int \<Rightarrow> bool \<Rightarrow> bool" where
  "is_vouched score threshold_met \<longleftrightarrow> score \<ge> 0 \<and> threshold_met"

definition decayed :: "vouch_policy \<Rightarrow> voucher_view \<Rightarrow> int" where
  "decayed policy v =
     (let base = ucast (weight_for (vp_weighting policy) (vv_relationship v)) :: u64;
          permille = ucast (age_decay (vv_rounds v) (vp_freshness policy)) :: u64
      in uint ((base * permille + 500) div 1000))"

definition split_view ::
    "voucher_view list \<times> (bytes \<times> voucher_view list) list \<Rightarrow> voucher_view \<Rightarrow> voucher_view list \<times> (bytes \<times> voucher_view list) list" where
  "split_view acc v =
     (case acc of (singletons, by_grouping) \<Rightarrow>
        (case vv_grouping v of
           Some g \<Rightarrow>
             (singletons, AList.update g ((case map_of by_grouping g of None \<Rightarrow> [] | Some ms \<Rightarrow> ms) @ [v]) by_grouping)
         | None \<Rightarrow> (singletons @ [v], by_grouping)))"

definition add_cluster ::
    "vouch_policy \<Rightarrow> int \<times> bool \<times> bytes list \<Rightarrow> bytes \<times> voucher_view list \<Rightarrow> int \<times> bool \<times> bytes list" where
  "add_cluster policy acc cl =
     (case (acc, cl) of ((score, rejected, fl), (_, members)) \<Rightarrow>
        let cluster = sum_list (map (decayed policy) members)
        in if length members \<ge> 2 then (score - cluster, True, fl @ map vv_fp members)
           else (score + cluster, rejected, fl))"

definition evaluate :: "voucher_view list \<Rightarrow> vouch_policy \<Rightarrow> vouch_decision" where
  "evaluate vs policy =
     (let (singletons, by_grouping) = foldl split_view ([], []) (filter (\<lambda>v. eligible v (vp_eligibility policy)) vs);
          score = foldl (\<lambda>s v. s + decayed policy v) 0 singletons;
          (score, rejected, fl) = foldl (add_cluster policy) (score, False, []) by_grouping
      in \<lparr>weighted_score = score, vouched = is_vouched score (meets_threshold score vs policy),
          inflation_rejected = rejected, flagged = fl\<rparr>)"

section \<open>The arithmetic of one vouch\<close>

lemma unat_scale: "w < 2 ^ 32 \<Longrightarrow> m \<le> 1000 \<Longrightarrow> unat (of_nat w * of_nat m + 500 :: u64) = w * m + 500"
proof -
  assume a: "w < 2 ^ 32" "m \<le> 1000"
  have "w * m \<le> 2 ^ 32 * 1000" using a by (intro mult_le_mono) simp_all
  then have "unat (of_nat (w * m + 500) :: u64) = w * m + 500" by (subst unsigned_of_nat) (simp add: take_bit_nat_eq_self)
  then show ?thesis by simp
qed

lemma unat_ucast32 [simp]: "unat (ucast (x :: u32) :: u64) = unat x"
  by (simp add: unsigned_ucast_eq take_bit_nat_eq_self order_less_trans[OF unsigned_less])

lemma unat_age_decay:
  "unat (age_decay r i) = (if i = 0 \<or> r \<ge> i then 0 else (unat i - unat r) * 1000 div unat i)"
proof (cases "i = 0 \<or> r \<ge> i")
  case False
  then have ri: "unat r < unat i" by (simp add: word_le_nat_alt)
  have d: "unat (i - r) = unat i - unat r" using ri by (simp add: unat_sub word_le_nat_alt)
  have le: "(unat i - unat r) * 1000 \<le> 2 ^ 32 * 1000" using unsigned_less[of i, where 'a = nat] by simp
  have "unat (ucast (i - r) * 1000 :: u64) = (unat i - unat r) * 1000"
    using le by (subst unat_mult_lem[THEN iffD1]) (simp_all add: d)
  then have q: "unat ((ucast (i - r) * 1000 :: u64) div ucast i) = (unat i - unat r) * 1000 div unat i"
    by (simp add: unat_div)
  have "(unat i - unat r) * 1000 div unat i \<le> 1000" 
    using ri div_le_mono[of "(unat i - unat r) * 1000" "unat i * 1000" "unat i"] by simp
  then show ?thesis using False q by (simp add: age_decay_def unsigned_ucast_eq take_bit_nat_eq_self)
qed (simp add: age_decay_def)

lemma age_decay_le: "unat (age_decay r i) \<le> 1000"
proof -
  have "(unat i - unat r) * 1000 div unat i \<le> unat i * 1000 div unat i" by (intro div_le_mono) simp
  also have "\<dots> \<le> 1000" by simp
  finally show ?thesis by (simp add: unat_age_decay)
qed

lemma decayed_eq:
  "decayed p v = int ((unat (weight_for (vp_weighting p) (vv_relationship v)) *
      unat (age_decay (vv_rounds v) (vp_freshness p)) + 500) div 1000)"
proof -
  let ?w = "weight_for (vp_weighting p) (vv_relationship v)" and ?m = "age_decay (vv_rounds v) (vp_freshness p)"
  have "ucast ?w = (of_nat (unat ?w) :: u64)" "ucast ?m = (of_nat (unat ?m) :: u64)" by simp_all
  then have "unat (ucast ?w * ucast ?m + 500 :: u64) = unat ?w * unat ?m + 500"
    using unat_scale[of "unat ?w" "unat ?m"] unsigned_less[of ?w, where 'a = nat] age_decay_le by simp
  then show ?thesis by (simp add: decayed_def Let_def uint_nat unat_div)
qed

lemma decayed_bounds: "0 \<le> decayed p v" "decayed p v \<le> int (unat (weight_for (vp_weighting p) (vv_relationship v)))"
proof -
  let ?w = "unat (weight_for (vp_weighting p) (vv_relationship v))" and ?m = "unat (age_decay (vv_rounds v) (vp_freshness p))"
  have "?w * ?m \<le> ?w * 1000" using age_decay_le by (rule mult_le_mono2)
  then have "(?w * ?m + 500) div 1000 \<le> ?w" by linarith
  then show "decayed p v \<le> int ?w" unfolding decayed_eq by (rule of_nat_mono)
qed (simp add: decayed_def)

section \<open>Clusters\<close>

text \<open>A voucher is caught when it shares a proven grouping with another voucher that counts.\<close>

definition caught :: "voucher_view list \<Rightarrow> voucher_view \<Rightarrow> bool" where
  "caught es v \<longleftrightarrow> vv_grouping v \<noteq> None \<and> 2 \<le> length (filter (\<lambda>u. vv_grouping u = vv_grouping v) es)"

definition counted :: "vouch_policy \<Rightarrow> voucher_view list \<Rightarrow> voucher_view list" where
  "counted p vs = filter (\<lambda>v. eligible v (vp_eligibility p)) vs"

definition contribution :: "vouch_policy \<Rightarrow> voucher_view list \<Rightarrow> voucher_view \<Rightarrow> int" where
  "contribution p es v = (if caught es v then - decayed p v else decayed p v)"

lemma split_views:
  assumes "foldl split_view ([], []) es = (ss, gs)"
  shows "ss = filter (\<lambda>v. vv_grouping v = None) es" "distinct (map fst gs)"
    and "map_of gs g = (let ms = filter (\<lambda>v. vv_grouping v = Some g) es in if ms = [] then None else Some ms)"
  using assms
proof (induction es arbitrary: ss gs g rule: rev_induct)
  case (snoc v es)
  obtain ss' gs' where f: "foldl split_view ([], []) es = (ss', gs')" by fastforce
  note IH = snoc.IH[OF f]
  { case 1 then show ?case using f IH(1) by (auto simp: split_view_def[of _ v] split: option.splits) }
  { case 2 then show ?case using f IH(2) by (auto simp: split_view_def[of _ v] distinct_update split: option.splits) }
  { case 3
    then show ?case using f IH(3)
      by (cases "vv_grouping v") (auto simp: split_view_def[of _ v] update_conv' Let_def split: if_splits) }
qed simp_all

lemma sum_update_int:
  "map_of gs g = Some ms \<Longrightarrow> (\<Sum>c\<leftarrow>AList.update g ms' gs. f (snd c)) = (\<Sum>c\<leftarrow>gs. f (snd c)) - f ms + (f ms' :: int)"
  by (induction gs) (auto split: if_splits)

lemma split_views_sum:
  assumes "foldl split_view ([], []) es = (ss, gs)"
  shows "sum_list (map h es) = sum_list (map h ss) + (\<Sum>c\<leftarrow>gs. sum_list (map h (snd c)) :: int)"
  using assms
proof (induction es arbitrary: ss gs rule: rev_induct)
  case (snoc v es)
  obtain ss' gs' where f: "foldl split_view ([], []) es = (ss', gs')" by fastforce
  show ?case
  proof (cases "vv_grouping v")
    case None
    then have "ss = ss' @ [v]" "gs = gs'" using f snoc.prems by (simp_all add: split_view_def[of _ v])
    then show ?thesis using snoc.IH[OF f] by simp
  next
    case (Some g)
    then have "ss = ss'" and g: "gs = AList.update g ((case map_of gs' g of None \<Rightarrow> [] | Some ms \<Rightarrow> ms) @ [v]) gs'"
      using f snoc.prems by (simp_all add: split_view_def[of _ v])
    then show ?thesis
      using snoc.IH[OF f] by (cases "map_of gs' g") (simp_all add: update_absent sum_update_int[of gs' g _ "\<lambda>ms. sum_list (map h ms)"])
  qed
qed simp

lemma add_clusters:
  "foldl (add_cluster p) (s, r, f) gs =
    (s + (\<Sum>c\<leftarrow>gs. if 2 \<le> length (snd c) then - sum_list (map (decayed p) (snd c)) else sum_list (map (decayed p) (snd c))),
     r \<or> list_ex (\<lambda>c. 2 \<le> length (snd c)) gs,
     f @ concat (map (\<lambda>c. if 2 \<le> length (snd c) then map vv_fp (snd c) else []) gs))"
  by (induction gs arbitrary: s r f) (auto simp: add_cluster_def Let_def)

lemma foldl_sum: "foldl (\<lambda>s x. s + f x) a xs = a + (sum_list (map f xs) :: int)"
  by (induction xs arbitrary: a) simp_all

lemma cluster_members:
  assumes "foldl split_view ([], []) es = (ss, gs)" "c \<in> set gs"
  shows "snd c = filter (\<lambda>v. vv_grouping v = Some (fst c)) es" "snd c \<noteq> []"
proof -
  have "map_of gs (fst c) = Some (snd c)" using split_views(2)[OF assms(1)] assms(2) by simp
  then show "snd c = filter (\<lambda>v. vv_grouping v = Some (fst c)) es" "snd c \<noteq> []"
    using split_views(3)[OF assms(1), of "fst c"] by (auto simp: Let_def split: if_splits)
qed

lemma caught_in_cluster:
  assumes "foldl split_view ([], []) es = (ss, gs)" "c \<in> set gs" "v \<in> set (snd c)"
  shows "caught es v \<longleftrightarrow> 2 \<le> length (snd c)"
  using cluster_members(1)[OF assms(1,2)] assms(3) by (auto simp: caught_def)

lemma caught_has_cluster:
  assumes "foldl split_view ([], []) es = (ss, gs)" "v \<in> set es" "vv_grouping v = Some g"
  obtains c where "c \<in> set gs" "v \<in> set (snd c)"
proof -
  have "map_of gs g = Some (filter (\<lambda>v. vv_grouping v = Some g) es)"
    using split_views(3)[OF assms(1), of g] assms(2,3) by (auto simp: Let_def filter_empty_conv)
  from map_of_SomeD[OF this] show thesis using that assms(2,3) by auto
qed

lemma evaluate_facts:
  shows "weighted_score (evaluate vs p) = sum_list (map (contribution p (counted p vs)) (counted p vs))"
    and "inflation_rejected (evaluate vs p) = list_ex (caught (counted p vs)) (counted p vs)"
    and "set (flagged (evaluate vs p)) = vv_fp ` set (filter (caught (counted p vs)) (counted p vs))"
    and "vouched (evaluate vs p) = (0 \<le> weighted_score (evaluate vs p) \<and> meets_threshold (weighted_score (evaluate vs p)) vs p)"
proof -
  let ?es = "counted p vs"
  obtain ss gs where f: "foldl split_view ([], []) ?es = (ss, gs)" by fastforce
  note cl = caught_in_cluster[OF f]
  have singles: "foldl (\<lambda>s v. s + decayed p v) 0 ss = sum_list (map (contribution p ?es) ss)"
    unfolding foldl_sum split_views(1)[OF f]
    by (auto simp: contribution_def caught_def intro!: arg_cong[of _ _ sum_list])
  have clusters: "(if 2 \<le> length (snd c) then - sum_list (map (decayed p) (snd c)) else sum_list (map (decayed p) (snd c))) =
      sum_list (map (contribution p ?es) (snd c))" if "c \<in> set gs" for c
    using cl[OF that] by (simp add: contribution_def uminus_sum_list_map comp_def cong: map_cong)
  have score: "weighted_score (evaluate vs p) = sum_list (map (contribution p ?es) ?es)"
    using f singles clusters split_views_sum[OF f, of "contribution p ?es"]
    by (simp add: evaluate_def counted_def Let_def add_clusters cong: map_cong)
  have grouped: "caught ?es v \<Longrightarrow> v \<in> set ?es \<Longrightarrow> \<exists>c\<in>set gs. v \<in> set (snd c) \<and> 2 \<le> length (snd c)" for v
    using caught_has_cluster[OF f, of v] cl by (metis caught_def option.exhaust)
  have member: "c \<in> set gs \<Longrightarrow> v \<in> set (snd c) \<Longrightarrow> v \<in> set ?es" for c v
    using cluster_members(1)[OF f] by simp
  have "inflation_rejected (evaluate vs p) = list_ex (\<lambda>c. 2 \<le> length (snd c)) gs"
    using f by (simp add: evaluate_def counted_def Let_def add_clusters)
  also have "\<dots> = list_ex (caught ?es) ?es"
    unfolding list_ex_iff using grouped member cl cluster_members(2)[OF f] by (metis last_in_set)
  finally have rejected: "inflation_rejected (evaluate vs p) = list_ex (caught ?es) ?es" .
  have "set (flagged (evaluate vs p)) = (\<Union>c\<in>{c \<in> set gs. 2 \<le> length (snd c)}. vv_fp ` set (snd c))"
    using f by (auto simp: evaluate_def counted_def Let_def add_clusters split: if_splits)
  also have "\<dots> = vv_fp ` set (filter (caught ?es) ?es)" using grouped member cl by fastforce
  finally show "set (flagged (evaluate vs p)) = vv_fp ` set (filter (caught ?es) ?es)" .
  show "weighted_score (evaluate vs p) = sum_list (map (contribution p ?es) ?es)" by (rule score)
  show "inflation_rejected (evaluate vs p) = list_ex (caught ?es) ?es" by (rule rejected)
  show "vouched (evaluate vs p) = (0 \<le> weighted_score (evaluate vs p) \<and> meets_threshold (weighted_score (evaluate vs p)) vs p)"
    by (simp add: Let_def evaluate_def is_vouched_def split: prod.split)
qed

text \<open>
  C12. The evaluation is exactly the signed sum it is meant to be: every voucher that counts
  adds its decayed weight, except that vouchers who share a proven grouping with another
  voucher subtract theirs; precisely those are flagged, inflation is reported exactly when
  there are any, and a subject is vouched only with a non-negative score that meets the
  policy's threshold, whatever order the groupings are visited in.
\<close>

theorem evaluate_exact:
  "let es = counted p vs; d = evaluate vs p in
     weighted_score d = (\<Sum>v\<leftarrow>es. if caught es v then - decayed p v else decayed p v) \<and>
     inflation_rejected d = list_ex (caught es) es \<and>
     set (flagged d) = vv_fp ` set (filter (caught es) es) \<and>
     vouched d = (0 \<le> weighted_score d \<and> meets_threshold (weighted_score d) vs p)"
  unfolding Let_def evaluate_facts(1-3) by (simp add: evaluate_facts contribution_def[abs_def])

lemma length_filter_grouping: "u \<in> set es \<Longrightarrow> vv_grouping u = g \<Longrightarrow> 1 \<le> length (filter (\<lambda>w. vv_grouping w = g) es)"
  by (induction es) auto

text \<open>
  C29. Puppets never help: another voucher who shares a proven grouping with one that already
  counts can only lower the score, is flagged together with it, and makes the evaluation
  report inflation, whatever weights and freshness the policy uses.
\<close>

theorem puppets_never_help:
  assumes "eligible v (vp_eligibility p)" "vv_grouping v = Some g"
    and "u \<in> set vs" "eligible u (vp_eligibility p)" "vv_grouping u = Some g"
  shows "weighted_score (evaluate (vs @ [v]) p) \<le> weighted_score (evaluate vs p) - decayed p v \<and>
    {vv_fp u, vv_fp v} \<subseteq> set (flagged (evaluate (vs @ [v]) p)) \<and> inflation_rejected (evaluate (vs @ [v]) p)"
proof -
  let ?es = "counted p vs"
  have es: "counted p (vs @ [v]) = ?es @ [v]" using assms(1) by (simp add: counted_def)
  have u: "u \<in> set ?es" using assms by (simp add: counted_def)
  have two: "2 \<le> length (filter (\<lambda>w. vv_grouping w = Some g) (?es @ [v]))"
    using length_filter_grouping[OF u assms(5)] assms(2) by simp
  then have c: "caught (?es @ [v]) v" "caught (?es @ [v]) u" using assms by (simp_all add: caught_def)
  have mono: "caught ?es w \<Longrightarrow> caught (?es @ [v]) w" for w by (auto simp: caught_def)
  have "contribution p (?es @ [v]) w \<le> contribution p ?es w" for w
    using mono[of w] decayed_bounds(1)[of p w] by (auto simp: contribution_def)
  then have "sum_list (map (contribution p (?es @ [v])) ?es) \<le> sum_list (map (contribution p ?es) ?es)"
    by (intro sum_list_mono)
  moreover have "contribution p (?es @ [v]) v = - decayed p v" using c by (simp add: contribution_def)
  ultimately show ?thesis using c u unfolding evaluate_facts es by (auto simp: list_ex_iff)
qed

definition demo_view :: "byte \<Rightarrow> voucher_view" where
  "demo_view b = \<lparr>vv_fp = [b], vv_relationship = Stranger, vv_rounds = 0, vv_grouping = Some [7]\<rparr>"

theorem puppets_never_help_witness:
  "weighted_score (evaluate [demo_view 1, demo_view 2] policy_default) \<le>
     weighted_score (evaluate [demo_view 1] policy_default) - decayed policy_default (demo_view 2) \<and>
   inflation_rejected (evaluate [demo_view 1, demo_view 2] policy_default)"
  using puppets_never_help[of "demo_view 2" policy_default "[7]" "demo_view 1" "[demo_view 1]"]
  by (simp add: demo_view_def policy_default_def eligible_def)

text \<open>The result does not depend on the order in which the ledger hands out the vouchers.\<close>

lemma caught_cong: "mset es = mset fs \<Longrightarrow> caught es v = caught fs v"
  unfolding caught_def by (metis mset_filter size_mset)

lemma evaluate_perm:
  assumes "mset vs = mset ws"
  shows "weighted_score (evaluate vs p) = weighted_score (evaluate ws p)"
    and "inflation_rejected (evaluate vs p) = inflation_rejected (evaluate ws p)"
    and "set (flagged (evaluate vs p)) = set (flagged (evaluate ws p))"
    and "vouched (evaluate vs p) = vouched (evaluate ws p)"
proof -
  have m: "mset (counted p vs) = mset (counted p ws)" using assms by (simp add: counted_def)
  then have s: "set (counted p vs) = set (counted p ws)" by (rule mset_eq_setD)
  have c: "contribution p (counted p vs) = contribution p (counted p ws)"
    using caught_cong[OF m] by (auto simp: contribution_def)
  have sum: "mset xs = mset ys \<Longrightarrow> sum_list (map f xs) = sum_list (map f ys)" for xs ys :: "'a list" and f :: "'a \<Rightarrow> 'b :: comm_monoid_add"
    by (metis mset_map sum_mset_sum_list)
  show w: "weighted_score (evaluate vs p) = weighted_score (evaluate ws p)"
    unfolding evaluate_facts c using m by (rule sum)
  show "inflation_rejected (evaluate vs p) = inflation_rejected (evaluate ws p)"
    "set (flagged (evaluate vs p)) = set (flagged (evaluate ws p))"
    unfolding evaluate_facts using caught_cong[OF m] s by (auto simp: list_ex_iff)
  have "max_weight vs p = max_weight ws p" unfolding max_weight_def using m by (intro sum) (simp add: counted_def)
  then show "vouched (evaluate vs p) = vouched (evaluate ws p)"
    unfolding evaluate_facts(4) w meets_threshold_def by (cases "vp_threshold p") simp_all
qed

text \<open>The machine integers of the evaluation never overflow.\<close>

lemma evaluate_bounds:
  assumes "length vs < 2 ^ 24"
  shows "\<bar>weighted_score (evaluate vs p)\<bar> < 2 ^ 56" "max_weight vs p < 2 ^ 56"
    and "nat (max (weighted_score (evaluate vs p)) 0) * 100 < 2 ^ 64" "unat (q :: byte) * max_weight vs p < 2 ^ 64"
proof -
  have le: "unat (weight_for w r) \<le> 2 ^ 32 - 1" for w r using unsigned_less[of "weight_for w r", where 'a = nat] by simp
  have c: "\<bar>contribution p es v\<bar> \<le> 2 ^ 32 - 1" for es v
    using decayed_bounds[of p v] of_nat_mono[OF le, of "vp_weighting p" "vv_relationship v", where 'a = int]
    unfolding contribution_def by (simp add: of_nat_diff)
  have "\<bar>sum_list (map f xs)\<bar> \<le> int (length xs) * (2 ^ 32 - 1)" if "\<And>x. \<bar>f x\<bar> \<le> 2 ^ 32 - 1" for f :: "voucher_view \<Rightarrow> int" and xs
  proof (induction xs)
    case (Cons x xs)
    then show ?case using that[of x] by (simp add: algebra_simps)
  qed simp
  from this[of "contribution p (counted p vs)", OF c]
  have "\<bar>weighted_score (evaluate vs p)\<bar> \<le> int (length (counted p vs)) * (2 ^ 32 - 1)"
    unfolding evaluate_facts(1) by blast
  moreover have l: "length (counted p vs) < 2 ^ 24" using assms length_filter_le le_less_trans unfolding counted_def by blast
  ultimately show b: "\<bar>weighted_score (evaluate vs p)\<bar> < 2 ^ 56" by simp
  then show "nat (max (weighted_score (evaluate vs p)) 0) * 100 < 2 ^ 64" by simp
  have "sum_list (map (\<lambda>v. unat (weight_for (vp_weighting p) (vv_relationship v))) xs) \<le> length xs * (2 ^ 32 - 1)" for xs
    using le by (induction xs) (simp_all add: add_mono)
  from this[of "counted p vs"] l show m: "max_weight vs p < 2 ^ 56" unfolding max_weight_def counted_def by simp
  have "unat q < 2 ^ 8" using unsigned_less[of q, where 'a = nat] by simp
  then have "unat q * max_weight vs p \<le> 2 ^ 8 * max_weight vs p" by (rule mult_le_mono1[OF less_imp_le])
  also have "\<dots> < 2 ^ 8 * 2 ^ 56" using m by (intro mult_strict_left_mono) simp_all
  finally show "unat q * max_weight vs p < 2 ^ 64" by simp
qed

section \<open>Round trips and signatures\<close>

lemma frame_sized_fp: "length b \<le> 48 \<Longrightarrow> frame_sized b"
  by (simp add: frame_sized_def MAX_FRAME_def)

definition target_ok :: "vouch_target \<Rightarrow> bool" where
  "target_ok t \<longleftrightarrow> (case t of VAccount fp \<Rightarrow> length fp = 48 | VLeaf fp \<Rightarrow> length fp = 48 | VNameBinding a n \<Rightarrow> length a = 48 \<and> length n = 8)"

lemma target_bytes:
  "target_encode (VAccount fp) = [0] @ bytes_enc fp @ []" "target_encode (VLeaf fp) = [2] @ bytes_enc fp @ []"
  "target_encode (VNameBinding a n) = [1] @ bytes_enc a @ bytes_enc n @ []"
  by (simp_all add: target_encode_def into_vec_def codec_simps)

lemma target_roundtrip:
  assumes "target_ok t"
  shows "target_decode (target_encode t) = Some t" "length (target_encode t) \<le> 65"
proof -
  have "scans target_read (target_encode t) t"
  proof (cases t)
    case (VAccount fp)
    then have "frame_sized fp" "fp48 fp = Some fp" using assms by (simp_all add: target_ok_def fp48_def frame_sized_fp)
    then show ?thesis unfolding target_read_def VAccount target_bytes
      by - ((simp; fail) | rule scan_rules reads_intros | assumption)+
  next
    case (VNameBinding a n)
    then have "frame_sized a" "fp48 a = Some a" "frame_sized n" "fp8 n = Some n"
      using assms by (simp_all add: target_ok_def fp48_def fp8_def frame_sized_fp)
    then show ?thesis unfolding target_read_def VNameBinding target_bytes
      by - ((simp; fail) | rule scan_rules reads_intros | assumption)+
  next
    case (VLeaf fp)
    then have "frame_sized fp" "fp48 fp = Some fp" using assms by (simp_all add: target_ok_def fp48_def frame_sized_fp)
    then show ?thesis unfolding target_read_def VLeaf target_bytes
      by - ((simp; fail) | rule scan_rules reads_intros | assumption)+
  qed
  moreover show l: "length (target_encode t) \<le> 65" using assms by (cases t) (simp_all add: target_bytes target_ok_def)
  ultimately show "target_decode (target_encode t) = Some t"
    unfolding target_decode_def by (intro scan_all) (simp_all add: usize_limit_def)
qed

definition vouch_ok :: "vouch \<Rightarrow> bool" where
  "vouch_ok v \<longleftrightarrow> target_ok (vo_target v) \<and> length (vo_context v) = 32 \<and> frame_sized (vo_sig v) \<and> frame_sized (sig_vk (vo_voucher v))"

lemma vouch_roundtrip:
  assumes "vouch_ok v" "length (vouch_encode v) < usize_limit"
  shows "vouch_decode (vouch_encode v) = Some v"
proof -
  let ?t = "target_encode (vo_target v)"
  have t: "target_decode ?t = Some (vo_target v)" "frame_sized ?t"
    using target_roundtrip[of "vo_target v"] assms(1) by (auto simp: vouch_ok_def frame_sized_def MAX_FRAME_def)
  have a: "frame_sized (vo_context v)" "frame_sized (vo_sig v)" "frame_sized (sig_vk (vo_voucher v))" "length (vo_context v) = 32"
    using assms(1) frame_sized_fp by (simp_all add: vouch_ok_def)
  have e: "vouch_encode v = bytes_enc ?t @ bytes_enc (vo_context v) @ u32_be (hi32 (vo_epoch v)) @ u32_be (lo32 (vo_epoch v)) @
      u32_be (hi32 (vo_asserted_at v)) @ u32_be (lo32 (vo_asserted_at v)) @ bytes_enc (vo_sig v) @ bytes_enc (sig_vk (vo_voucher v)) @ []"
    by (simp add: vouch_encode_def into_vec_def codec_simps)
  have "vouch_decode (vouch_encode v) =
      Some \<lparr>vo_target = vo_target v, vo_context = vo_context v, vo_epoch = join32 (hi32 (vo_epoch v)) (lo32 (vo_epoch v)),
        vo_asserted_at = join32 (hi32 (vo_asserted_at v)) (lo32 (vo_asserted_at v)), vo_sig = vo_sig v,
        vo_voucher = \<lparr>sig_vk = sig_vk (vo_voucher v)\<rparr>\<rparr>"
    using assms(2) unfolding vouch_decode_def e
    by - (rule decodes_start, ((simp add: a(4); fail) | rule decode_rules reads_intros a t)+)
  then show ?thesis by simp
qed

lemma u32_be_inj [simp]: "u32_be x = u32_be y \<longleftrightarrow> x = y"
  by (metis u32_from_be_be)

lemma u32_be_append: "u32_be x @ p = u32_be y @ q \<longleftrightarrow> x = y \<and> p = q"
  by (simp add: append_eq_append_conv)

lemma vouch_signed_bytes_inj:
  assumes "target_ok t" "target_ok u" "length c = 32" "length d = 32"
  shows "vouch_signed_bytes t c e a = vouch_signed_bytes u d f b \<longleftrightarrow> t = u \<and> c = d \<and> e = f \<and> a = b"
proof -
  have f: "frame_sized (target_encode t)" "frame_sized (target_encode u)" "frame_sized c" "frame_sized d"
    using assms target_roundtrip(2)[of t] target_roundtrip(2)[of u] by (auto simp: frame_sized_def MAX_FRAME_def)
  have t: "target_encode t = target_encode u \<longleftrightarrow> t = u"
    using target_roundtrip(1)[OF assms(1)] target_roundtrip(1)[OF assms(2)] by (metis option.inject)
  have w: "frame_sized VOUCH_SIG_LABEL" by (simp add: VOUCH_SIG_LABEL_def ascii_def frame_sized_def MAX_FRAME_def)
  have "vouch_signed_bytes t c e a = vouch_signed_bytes u d f b \<longleftrightarrow>
      t = u \<and> c = d \<and> (hi32 e = hi32 f \<and> lo32 e = lo32 f) \<and> hi32 a = hi32 b \<and> lo32 a = lo32 b"
    using f t w by (simp add: vouch_signed_bytes_def into_vec_def codec_simps lpc.enc_append_iff lpc.enc_eq_iff u32_be_append)
  then show ?thesis unfolding halves_eq_iff .
qed

lemma sign_vouch_verifies:
  assumes "dsa_correct P"
  shows "vouch_verify P (sign_vouch P (from_secret_bytes P seed) t ctx e a)"
  using verify_signed[OF assms] by (simp add: vouch_verify_def sign_vouch_def signed_bytes_def)

lemma policy_roundtrip: "policy_decode (policy_encode p) = Some p"
proof -
  let ?w = "vp_weighting p"
  let ?e = "case vp_eligibility p of AnyLinked \<Rightarrow> [0] @ [] | ContactsOfViewer \<Rightarrow> [1] @ [] | Transitive d \<Rightarrow> [2] @ [d] @ []"
  let ?t = "case vp_threshold p of Count c \<Rightarrow> [0] @ u32_be c @ [] | Percent c \<Rightarrow> [1] @ [c] @ []"
  have el: "scans eligibility_read ?e (vp_eligibility p)"
    unfolding eligibility_read_def
    by (cases "vp_eligibility p"; simp only: voucher_eligibility.case) ((simp; fail) | rule scan_rules reads_intros)+
  have th: "scans threshold_read ?t (vp_threshold p)"
    unfolding threshold_read_def
    by (cases "vp_threshold p"; simp only: threshold.case) ((simp; fail) | rule scan_rules reads_intros)+
  have e: "policy_encode p = ?e @ u32_be (w_friend ?w) @ u32_be (w_contact ?w) @ u32_be (w_stranger ?w) @ ?t @ u32_be (vp_freshness p) @ []"
    by (simp add: policy_encode_def into_vec_def codec_simps split: voucher_eligibility.split threshold.split)
  have l: "length (policy_encode p) < usize_limit"
    by (simp add: e usize_limit_def split: voucher_eligibility.split threshold.split)
  have "policy_decode (policy_encode p) = Some \<lparr>vp_eligibility = vp_eligibility p,
      vp_weighting = \<lparr>w_friend = w_friend ?w, w_contact = w_contact ?w, w_stranger = w_stranger ?w\<rparr>,
      vp_threshold = vp_threshold p, vp_freshness = vp_freshness p\<rparr>"
    unfolding policy_decode_def e
    by (rule decodes_start[OF _ l[unfolded e]]) (rule el th decodes_scan decodes_finish scans_ok reads_u32)+
  then show ?thesis by simp
qed

end
