(* ===== verification/Presence.thy ===== *)
theory Presence
  imports Account
begin

text \<open>
  \<open>presence.rs\<close>: announcements of self-declared names, unauthenticated or linked to an
  account by a device signature over the name and the chat; the name book; the tags that
  outgoing messages carry; the announcement cadence. The tier type is that of
  \<open>nametrust.rs\<close>, whose rendering is in the theory \<open>NameTrust\<close>.
\<close>

section \<open>Words over the wire\<close>

abbreviation cmal :: "string \<Rightarrow> 'e + 'a \<Rightarrow> core_error + 'a" where
  "cmal s m \<equiv> map_err (\<lambda>_. CMalformed (ascii s)) m"

definition put_u64p :: "writer \<Rightarrow> u64 \<Rightarrow> writer" where
  "put_u64p w v = put_u32 (put_u32 w (hi32 v)) (lo32 v)"

definition get_u64p :: "reader \<Rightarrow> core_error + u64 \<times> reader" where
  "get_u64p r =
     bind_result (cmal ''u64 hi'' (get_u32 r)) (\<lambda>(hi, r).
     bind_result (cmal ''u64 lo'' (get_u32 r)) (\<lambda>(lo, r). Inr (join32 hi lo, r)))"

section \<open>Announcements\<close>

datatype name_tier = Bare | Linked | RegistryConfirmed

datatype name_presence =
    BareName u64 str
  | LinkedName u64 presentation bytes bytes

definition np_seq :: "name_presence \<Rightarrow> u64" where
  "np_seq np = (case np of BareName s _ \<Rightarrow> s | LinkedName s _ _ _ \<Rightarrow> s)"

definition np_label :: "name_presence \<Rightarrow> str" where
  "np_label np = (case np of BareName _ l \<Rightarrow> l | LinkedName _ p _ _ \<Rightarrow> (case ps_username p of Some u \<Rightarrow> u | None \<Rightarrow> []))"

definition chat_context :: "prims \<Rightarrow> bytes \<Rightarrow> str \<Rightarrow> bytes" where
  "chat_context P invite_token channel = sha256 P (invite_token @ channel)"

definition sign_input :: "u64 \<Rightarrow> str \<Rightarrow> bytes \<Rightarrow> bytes" where
  "sign_input s label ctx = into_vec (put_bytes (put_bytes (put_u64p writer_new s) label) ctx)"

definition np_linked :: "prims \<Rightarrow> u64 \<Rightarrow> identity_chain \<Rightarrow> str \<Rightarrow> bytes \<Rightarrow> identity_key_pair \<Rightarrow> name_presence" where
  "np_linked P s chain label ctx signer =
     (let sig = id_sign P signer (sign_input s label ctx)
      in LinkedName s \<lparr>ps_chain = chain, ps_username = Some label\<rparr> ctx sig)"

record verified_name =
  vn_account_fp :: bytes
  vn_device_fp :: bytes
  vn_label :: str
  vn_seq :: u64

definition verify_linked :: "prims \<Rightarrow> name_presence \<Rightarrow> u64 \<Rightarrow> verified_name option" where
  "verify_linked P np now =
     (case np of
        BareName _ _ \<Rightarrow> None
      | LinkedName s p ctx sig \<Rightarrow> do {
          leaf \<leftarrow> chain_leaf (ps_chain p);
          account \<leftarrow> (case links (ps_chain p) of [] \<Rightarrow> None | l # _ \<Rightarrow> Some (sc_issuer l));
          _ \<leftarrow> ok (chain_verify P (ps_chain p) account leaf now);
          label \<leftarrow> ps_username p;
          _ \<leftarrow> ok (id_verify P leaf (sign_input s label ctx) sig);
          Some \<lparr>vn_account_fp = fingerprint P account, vn_device_fp = fingerprint P leaf, vn_label = label, vn_seq = s\<rparr>
        })"

definition np_encode :: "name_presence \<Rightarrow> bytes" where
  "np_encode np =
     (case np of
        BareName s label \<Rightarrow> into_vec (put_bytes (put_u64p (put_u8 writer_new 0) s) label)
      | LinkedName s p ctx sig \<Rightarrow>
          into_vec (put_bytes (put_bytes (put_bytes (put_u64p (put_u8 writer_new 1) s) (presentation_encode p)) ctx) sig))"

definition np_read :: "reader \<Rightarrow> core_error + name_presence \<times> reader" where
  "np_read r =
     bind_result (cmal ''presence tag'' (get_u8 r)) (\<lambda>(t, r).
       if t = 0 then
         bind_result (get_u64p r) (\<lambda>(s, r).
         bind_result (cmal ''bare label'' (get_vec r)) (\<lambda>(b, r).
         bind_result (ok_or (CMalformed (ascii ''bare label utf-8'')) (from_utf8 b)) (\<lambda>label.
           Inr (BareName s label, r))))
       else if t = 1 then
         bind_result (get_u64p r) (\<lambda>(s, r).
         bind_result (cmal ''linked presentation'' (get_bytes r)) (\<lambda>(b, r).
         bind_result (presentation_decode b) (\<lambda>p.
         bind_result (cmal ''linked context'' (get_bytes r)) (\<lambda>(ctx, r).
           if length ctx \<noteq> 32 then cmalformed ''context len''
           else bind_result (cmal ''linked sig'' (get_vec r)) (\<lambda>(sig, r).
             Inr (LinkedName s p ctx sig, r))))))
       else cmalformed ''presence variant'')"

definition np_decode :: "bytes \<Rightarrow> core_error + name_presence" where
  "np_decode b =
     bind_result (np_read (reader_new b)) (\<lambda>(np, r).
     bind_result (cmal ''presence trailing'' (finish r)) (\<lambda>_. Inr np))"

section \<open>Tags\<close>

definition name_tag :: "prims \<Rightarrow> str \<Rightarrow> bytes \<Rightarrow> u64 \<Rightarrow> bytes" where
  "name_tag P label ctx s = take 8 (sha256 P (ctx @ u64_be s @ label))"

definition name_id_tag :: "prims \<Rightarrow> str \<Rightarrow> bytes \<Rightarrow> bytes" where
  "name_id_tag P label ctx = take 8 (sha256 P (u32_be (of_nat (length label)) @ label @ ctx))"

section \<open>The name book\<close>

datatype name_backing = BareBacking | AccountBacking identity_chain

record name_entry =
  ne_id :: str
  ne_label :: str
  ne_backing :: name_backing

record name_book =
  nb_entries :: "name_entry list"
  nb_default :: "str option"

definition book_get :: "name_book \<Rightarrow> str \<Rightarrow> name_entry option" where
  "book_get b i = find (\<lambda>e. ne_id e = i) (nb_entries b)"

definition book_upsert :: "name_book \<Rightarrow> name_entry \<Rightarrow> name_book" where
  "book_upsert b entry =
     (if list_ex (\<lambda>e. ne_id e = ne_id entry) (nb_entries b)
      then b\<lparr>nb_entries := update_first (\<lambda>e. ne_id e = ne_id entry) (\<lambda>_. entry) (nb_entries b)\<rparr>
      else b\<lparr>nb_entries := nb_entries b @ [entry]\<rparr>)"

definition book_remove :: "name_book \<Rightarrow> str \<Rightarrow> bool \<times> name_book" where
  "book_remove b i =
     (let before = length (nb_entries b);
          b = b\<lparr>nb_entries := filter (\<lambda>e. ne_id e \<noteq> i) (nb_entries b)\<rparr>;
          b = (if nb_default b = Some i then b\<lparr>nb_default := None\<rparr> else b)
      in (length (nb_entries b) \<noteq> before, b))"

definition put_entry :: "writer \<Rightarrow> name_entry \<Rightarrow> writer" where
  "put_entry w e =
     (let w = put_bytes w (ne_id e);
          w = put_bytes w (ne_label e)
      in case ne_backing e of
           BareBacking \<Rightarrow> put_u8 w 0
         | AccountBacking chain \<Rightarrow> put_bytes (put_u8 w 1) (chain_encode chain))"

definition book_encode :: "name_book \<Rightarrow> bytes" where
  "book_encode b =
     (let w = put_u32 writer_new (of_nat (length (nb_entries b)));
          w = foldl put_entry w (nb_entries b);
          w = (case nb_default b of Some d \<Rightarrow> put_bytes (put_u8 w 1) d | None \<Rightarrow> put_u8 w 0)
      in into_vec w)"

definition read_text :: "string \<Rightarrow> string \<Rightarrow> reader \<Rightarrow> core_error + str \<times> reader" where
  "read_text what utf r =
     bind_result (cmal what (get_vec r)) (\<lambda>(b, r).
     bind_result (ok_or (CMalformed (ascii utf)) (from_utf8 b)) (\<lambda>s. Inr (s, r)))"

definition backing_read :: "reader \<Rightarrow> core_error + name_backing \<times> reader" where
  "backing_read r =
     bind_result (cmal ''backing tag'' (get_u8 r)) (\<lambda>(t, r).
       if t = 0 then Inr (BareBacking, r)
       else if t = 1 then
         bind_result (cmal ''chain'' (get_bytes r)) (\<lambda>(b, r).
         bind_result (map_err CryptoErr (chain_decode b)) (\<lambda>chain. Inr (AccountBacking chain, r)))
       else cmalformed ''backing variant'')"

definition entry_read :: "reader \<Rightarrow> core_error + name_entry \<times> reader" where
  "entry_read r =
     bind_result (read_text ''id'' ''id utf-8'' r) (\<lambda>(i, r).
     bind_result (read_text ''label'' ''label utf-8'' r) (\<lambda>(label, r).
     bind_result (backing_read r) (\<lambda>(backing, r).
       Inr (\<lparr>ne_id = i, ne_label = label, ne_backing = backing\<rparr>, r))))"

definition default_read :: "reader \<Rightarrow> core_error + str option \<times> reader" where
  "default_read r =
     bind_result (cmal ''default tag'' (get_u8 r)) (\<lambda>(t, r).
       if t = 0 then Inr (None, r)
       else if t = 1 then bind_result (read_text ''default'' ''default utf-8'' r) (\<lambda>(d, r). Inr (Some d, r))
       else cmalformed ''default variant'')"

definition book_decode :: "bytes \<Rightarrow> core_error + name_book" where
  "book_decode b =
     bind_result (cmal ''book len'' (get_u32 (reader_new b))) (\<lambda>(n, r).
       if unat n > 4096 then cmalformed ''too many names''
       else bind_result (read_n (unat n) entry_read r) (\<lambda>(entries, r).
            bind_result (default_read r) (\<lambda>(dflt, r).
            bind_result (cmal ''book trailing'' (finish r)) (\<lambda>_.
              Inr \<lparr>nb_entries = entries, nb_default = dflt\<rparr>))))"

section \<open>Cached names and cadence\<close>

record name_record =
  nr_label :: str
  nr_tier :: name_tier
  nr_seq :: u64
  nr_account_fp :: "bytes option"

definition MIN_PERIODIC_SECS :: u64 where
  "MIN_PERIODIC_SECS = 60"

record presence_cadence =
  periodic_secs :: "u64 option"
  on_message_id :: bool

definition effective_periodic :: "presence_cadence \<Rightarrow> u64 option" where
  "effective_periodic c = map_option (\<lambda>s. max s MIN_PERIODIC_SECS) (periodic_secs c)"

section \<open>What a verified name means\<close>

lemma verify_linked_iff:
  "verify_linked P (LinkedName s p ctx sig) now = Some v \<longleftrightarrow>
     (\<exists>a leaf. links (ps_chain p) \<noteq> [] \<and> certified_path P now a (links (ps_chain p)) leaf \<and> ps_username p = Some (vn_label v) \<and>
        id_verify P leaf (sign_input s (vn_label v) ctx) sig = Inr () \<and> vn_account_fp v = fingerprint P a \<and>
        vn_device_fp v = fingerprint P leaf \<and> vn_seq v = s)"
proof (cases "links (ps_chain p)")
  case (Cons l ls)
  let ?leaf = "ce_subject (sc_cert (last (l # ls)))"
  have "verify_linked P (LinkedName s p ctx sig) now = Some v \<longleftrightarrow>
      (certified_path P now (sc_issuer l) (l # ls) ?leaf \<and> ps_username p = Some (vn_label v) \<and>
       id_verify P ?leaf (sign_input s (vn_label v) ctx) sig = Inr () \<and> vn_account_fp v = fingerprint P (sc_issuer l) \<and>
       vn_device_fp v = fingerprint P ?leaf \<and> vn_seq v = s)"
    using Cons chain_verify_path[of P "ps_chain p" "sc_issuer l" ?leaf now]
    by (cases v) (auto simp: verify_linked_def chain_leaf_def bind_eq_Some_conv ok_def split: sum.splits simp del: certified_path.simps)
  moreover have "certified_path P now a (l # ls) leaf \<Longrightarrow> a = sc_issuer l \<and> leaf = ?leaf" for a leaf
    using certified_path_leaf[of "l # ls" P now a leaf] by simp
  ultimately show ?thesis unfolding Cons by (metis list.distinct(1))
qed (simp add: verify_linked_def chain_leaf_def)

lemma linked_verifies:
  assumes "dsa_correct P" "belongs_to_account P account chain (id_public (from_secret_bytes P seed)) now"
  shows "verify_linked P (np_linked P s chain label ctx (from_secret_bytes P seed)) now =
    Some \<lparr>vn_account_fp = fingerprint P account, vn_device_fp = fingerprint P (id_public (from_secret_bytes P seed)),
          vn_label = label, vn_seq = s\<rparr>"
  using assms(2) verify_signed[OF assms(1)]
  by (auto simp: np_linked_def verify_linked_iff belongs_to_account_def chain_verify_path Let_def)

section \<open>Round trips\<close>

lemma reads_u64p [reads_intros]: "reads get_u64p (u32_be (hi32 v) @ u32_be (lo32 v)) v"
proof -
  have "reads get_u64p (u32_be (hi32 v) @ u32_be (lo32 v) @ []) (join32 (hi32 v) (lo32 v))"
    unfolding get_u64p_def by (rule reads_intros)+
  then show ?thesis by simp
qed

definition presentation_ok :: "presentation \<Rightarrow> bool" where
  "presentation_ok p \<longleftrightarrow> chain_ok (ps_chain p) \<and> username_ok (ps_username p) \<and> frame_sized (presentation_encode p)"

definition np_ok :: "name_presence \<Rightarrow> bool" where
  "np_ok np \<longleftrightarrow>
     (case np of
        BareName s l \<Rightarrow> frame_sized l \<and> utf8_valid l
      | LinkedName s p ctx sig \<Rightarrow> presentation_ok p \<and> length ctx = 32 \<and> frame_sized sig)"

lemma np_bytes:
  "np_encode (BareName s l) = [0] @ (u32_be (hi32 s) @ u32_be (lo32 s)) @ bytes_enc l @ []"
  "np_encode (LinkedName s p ctx sig) =
     [1] @ (u32_be (hi32 s) @ u32_be (lo32 s)) @ bytes_enc (presentation_encode p) @ bytes_enc ctx @ bytes_enc sig @ []"
  by (simp_all add: np_encode_def put_u64p_def into_vec_def codec_simps)

lemma reads_np:
  assumes "np_ok np"
  shows "reads np_read (np_encode np) np"
proof (cases np)
  case (BareName s l)
  then have a: "frame_sized l" "utf8_valid l" using assms by (simp_all add: np_ok_def)
  show ?thesis
    unfolding np_read_def BareName np_bytes
    by (rule reads_bind[OF reads_err[OF reads_u8]], simp only: refl if_True)
      (rule reads_intros a)+
next
  case (LinkedName s p ctx sig)
  then have a: "frame_sized (presentation_encode p)" "presentation_decode (presentation_encode p) = Inr p" "frame_sized ctx"
    "frame_sized sig" "\<not> length ctx \<noteq> 32"
    using assms presentation_decodes frame_limit by (auto simp: np_ok_def presentation_ok_def frame_sized_def MAX_FRAME_def)
  show ?thesis
    unfolding np_read_def LinkedName np_bytes
    by (rule reads_bind[OF reads_err[OF reads_u8]], simp only: one_neq_zero refl if_False if_True)
      (rule reads_intros a)+
qed

lemma np_roundtrip:
  assumes "np_ok np" "length (np_encode np) < usize_limit"
  shows "np_decode (np_encode np) = Inr np"
  using reads_start[OF reads_np[OF assms(1)] assms(2)] by (simp add: np_decode_def codec_simps)

definition entry_ok :: "name_entry \<Rightarrow> bool" where
  "entry_ok e \<longleftrightarrow> frame_sized (ne_id e) \<and> utf8_valid (ne_id e) \<and> frame_sized (ne_label e) \<and> utf8_valid (ne_label e) \<and>
     (case ne_backing e of BareBacking \<Rightarrow> True | AccountBacking c \<Rightarrow> chain_ok c)"

definition backing_enc :: "name_backing \<Rightarrow> bytes" where
  "backing_enc b = (case b of BareBacking \<Rightarrow> [0] @ [] | AccountBacking c \<Rightarrow> [1] @ bytes_enc (chain_encode c) @ [])"

definition entry_enc :: "name_entry \<Rightarrow> bytes" where
  "entry_enc e = bytes_enc (ne_id e) @ bytes_enc (ne_label e) @ backing_enc (ne_backing e) @ []"

lemma put_entry_bytes: "wbuf (put_entry w e) = wbuf w @ entry_enc e"
  by (simp add: put_entry_def entry_enc_def backing_enc_def codec_simps split: name_backing.split)

lemma put_entries_bytes: "wbuf (foldl put_entry w es) = wbuf w @ concat (map entry_enc es)"
  by (induction es arbitrary: w) (simp_all add: put_entry_bytes)

lemma reads_text [reads_intros]: "frame_sized t \<Longrightarrow> utf8_valid t \<Longrightarrow> reads (read_text a b) (bytes_enc t) t"
proof -
  assume a: "frame_sized t" "utf8_valid t"
  have "reads (read_text a b) (bytes_enc t @ []) t" unfolding read_text_def by (rule reads_intros a)+
  then show ?thesis by simp
qed

lemma reads_backing:
  assumes "case k of BareBacking \<Rightarrow> True | AccountBacking c \<Rightarrow> chain_ok c"
  shows "reads backing_read (backing_enc k) k"
proof (cases k)
  case BareBacking
  show ?thesis unfolding backing_read_def BareBacking backing_enc_def name_backing.case
    by (rule reads_bind[OF reads_err[OF reads_u8]], simp only: refl if_True) (rule reads_return)
next
  case (AccountBacking c)
  then have a: "frame_sized (chain_encode c)" "map_err CryptoErr (chain_decode (chain_encode c)) = Inr c"
    using assms chain_decode_encode[of c] by (simp_all add: chain_ok_def)
  show ?thesis unfolding backing_read_def AccountBacking backing_enc_def name_backing.case
    by (rule reads_bind[OF reads_err[OF reads_u8]], simp only: one_neq_zero refl if_False if_True) (rule reads_intros a)+
qed

lemma reads_entry:
  assumes "entry_ok e"
  shows "reads entry_read (entry_enc e) e"
proof -
  have a: "frame_sized (ne_id e)" "utf8_valid (ne_id e)" "frame_sized (ne_label e)" "utf8_valid (ne_label e)"
    "reads backing_read (backing_enc (ne_backing e)) (ne_backing e)"
    using assms reads_backing by (simp_all add: entry_ok_def)
  have "reads entry_read (entry_enc e) \<lparr>ne_id = ne_id e, ne_label = ne_label e, ne_backing = ne_backing e\<rparr>"
    unfolding entry_read_def entry_enc_def by (rule reads_bind a reads_text reads_return)+
  then show ?thesis by (cases e) simp
qed

definition default_enc :: "str option \<Rightarrow> bytes" where
  "default_enc d = (case d of None \<Rightarrow> [0] @ [] | Some t \<Rightarrow> [1] @ bytes_enc t @ [])"

lemma reads_default:
  assumes "username_ok d"
  shows "reads default_read (default_enc d) d"
proof (cases d)
  case None
  show ?thesis unfolding default_read_def None default_enc_def option.case
    by (rule reads_bind[OF reads_err[OF reads_u8]], simp only: refl if_True) (rule reads_return)
next
  case (Some t)
  then have a: "frame_sized t" "utf8_valid t" using assms by (simp_all add: username_ok_def)
  show ?thesis unfolding default_read_def Some default_enc_def option.case
    by (rule reads_bind[OF reads_err[OF reads_u8]], simp only: one_neq_zero refl if_False if_True) (rule reads_intros a)+
qed

lemma book_roundtrip:
  assumes "list_all entry_ok (nb_entries b)" "length (nb_entries b) \<le> 4096" "username_ok (nb_default b)"
    and "length (book_encode b) < usize_limit"
  shows "book_decode (book_encode b) = Inr b"
proof -
  let ?n = "of_nat (length (nb_entries b)) :: u32" and ?es = "concat (map entry_enc (nb_entries b))"
  have n: "unat ?n = length (nb_entries b)"
    using assms(2) by (subst unsigned_of_nat) (simp add: take_bit_nat_eq_self)
  have r: "reads (read_n (unat ?n) entry_read) ?es (nb_entries b)"
    unfolding n using assms(1) by (intro reads_list reads_entry) (auto simp: list_all_iff)
  have g: "\<not> 4096 < unat ?n" using assms(2) n by simp
  have e: "book_encode b = u32_be ?n @ ?es @ default_enc (nb_default b) @ []"
    by (simp add: book_encode_def into_vec_def default_enc_def put_entries_bytes codec_simps split: option.split)
  have "ends (\<lambda>r. bind_result (cmal ''book len'' (get_u32 r)) (\<lambda>(n, r).
       if unat n > 4096 then cmalformed ''too many names''
       else bind_result (read_n (unat n) entry_read r) (\<lambda>(entries, r).
            bind_result (default_read r) (\<lambda>(dflt, r).
            bind_result (cmal ''book trailing'' (finish r)) (\<lambda>_.
              Inr \<lparr>nb_entries = entries, nb_default = dflt\<rparr>))))) (book_encode b) \<lparr>nb_entries = nb_entries b, nb_default = nb_default b\<rparr>"
    unfolding e
    by (rule ends_bind[OF reads_err[OF reads_u32]], simp only: g if_False)
      (rule ends_bind[OF r], rule ends_bind[OF reads_default[OF assms(3)]], rule ends_finish)
  from ends_start[OF this assms(4)] show ?thesis by (simp add: book_decode_def)
qed

lemma book_get_upsert: "book_get (book_upsert b e) i = (if i = ne_id e then Some e else book_get b i)"
proof -
  have f: "find (\<lambda>x. ne_id x = i) (update_first (\<lambda>x. ne_id x = ne_id e) (\<lambda>_. e) es) =
      (if i = ne_id e then Some e else find (\<lambda>x. ne_id x = i) es)" if "list_ex (\<lambda>x. ne_id x = ne_id e) es" for es :: "name_entry list"
    using that by (induction es) auto
  have "find (\<lambda>x. ne_id x = i) (es @ [e]) = (if i = ne_id e then Some e else find (\<lambda>x. ne_id x = i) es)"
    if "\<not> list_ex (\<lambda>x. ne_id x = ne_id e) es" for es :: "name_entry list"
    using that by (induction es) auto
  with f show ?thesis by (cases "i = ne_id e") (simp_all add: book_get_def book_upsert_def)
qed

lemma length_filter_conv: "length (filter q xs) = length xs \<longleftrightarrow> (\<forall>x\<in>set xs. q x)"
  using length_filter_less[of _ xs q] by (metis filter_True less_irrefl)

lemma book_get_remove: "book_get (snd (book_remove b j)) i = (if i = j then None else book_get b i)"
  "nb_default (snd (book_remove b j)) \<noteq> Some j" "fst (book_remove b j) \<longleftrightarrow> book_get b j \<noteq> None"
proof -
  have "find (\<lambda>x. ne_id x = i) (filter (\<lambda>x. ne_id x \<noteq> j) es) = (if i = j then None else find (\<lambda>x. ne_id x = i) es)" for es :: "name_entry list"
    by (induction es) auto
  then show "book_get (snd (book_remove b j)) i = (if i = j then None else book_get b i)"
    by (cases "i = j") (simp_all add: book_get_def book_remove_def Let_def)
  show "nb_default (snd (book_remove b j)) \<noteq> Some j" by (simp add: book_remove_def Let_def)
  have "length (filter (\<lambda>x. ne_id x \<noteq> j) es) \<noteq> length es \<longleftrightarrow> find (\<lambda>x. ne_id x = j) es \<noteq> None" for es :: "name_entry list"
    by (auto simp: find_None_iff length_filter_conv)
  then show "fst (book_remove b j) \<longleftrightarrow> book_get b j \<noteq> None" by (simp add: book_get_def book_remove_def Let_def)
qed

end
