(* ===== verification/NameTrust.thy ===== *)
theory NameTrust
  imports Presence
begin

text \<open>
  \<open>nametrust.rs\<close>: trust tiers, the per-chat policy for names that collide with a verified
  one, the fold that finds look-alike names, and the rendering of a peer's name. The
  normalisation crate and the Unicode lower-case table are the parameters \<open>nfkc\<close> and
  \<open>lower\<close>; texts are compared as sequences of code points.
\<close>

type_synonym code_points = "nat list"

section \<open>Tiers and policies\<close>

fun rank :: "name_tier \<Rightarrow> byte" where
  "rank Bare = 0"
| "rank Linked = 1"
| "rank RegistryConfirmed = 2"

fun tier_badge :: "name_tier \<Rightarrow> str" where
  "tier_badge Bare = []"
| "tier_badge Linked = [0xF0, 0x9F, 0x94, 0x97]"
| "tier_badge RegistryConfirmed = [0xE2, 0x9C, 0x93]"

datatype name_trust_policy = SignalStyle | WarnOnCollision | SuppressColliding

definition trust_default :: name_trust_policy where
  "trust_default = SignalStyle"

fun trust_tag :: "name_trust_policy \<Rightarrow> byte" where
  "trust_tag SignalStyle = 0"
| "trust_tag WarnOnCollision = 1"
| "trust_tag SuppressColliding = 2"

definition trust_from_tag :: "byte \<Rightarrow> name_trust_policy option" where
  "trust_from_tag t =
     (if t = 0 then Some SignalStyle else if t = 1 then Some WarnOnCollision
      else if t = 2 then Some SuppressColliding else None)"

definition strictness :: "name_trust_policy \<Rightarrow> byte" where
  "strictness p = trust_tag p"

definition max_strictness :: "name_trust_policy \<Rightarrow> name_trust_policy \<Rightarrow> name_trust_policy" where
  "max_strictness p q = (if strictness q > strictness p then q else p)"

datatype tint = TDefault | TVerified | TIsolated | TVouched

record name_render =
  rn_label :: "str option"
  rn_tier :: name_tier
  rn_badge :: str
  rn_tint :: tint
  rn_caveat :: "str option"
  rn_safety_number :: str

section \<open>Look-alikes\<close>

definition homoglyphs :: "(nat \<times> nat) list" where
  "homoglyphs =
     [(0x430, 0x61), (0x435, 0x65), (0x43E, 0x6F), (0x440, 0x70), (0x441, 0x63), (0x445, 0x78), (0x443, 0x79),
      (0x455, 0x73), (0x456, 0x69), (0x458, 0x6A), (0x501, 0x64), (0x3BF, 0x6F), (0x3B1, 0x61), (0x3C1, 0x70)]"

definition homoglyph_to_ascii :: "nat \<Rightarrow> nat option" where
  "homoglyph_to_ascii c =
     (if 0x300 \<le> c \<and> c \<le> 0x36F then None
      else Some (case map_of homoglyphs c of Some a \<Rightarrow> a | None \<Rightarrow> c))"

definition confusable_fold :: "(str \<Rightarrow> code_points) \<Rightarrow> (code_points \<Rightarrow> code_points) \<Rightarrow> str \<Rightarrow> code_points" where
  "confusable_fold nfkc lower s = List.map_filter homoglyph_to_ascii (lower (nfkc s))"

section \<open>Rendering\<close>

text \<open>\<open>max_by_key\<close> returns the last of several maximal elements.\<close>

fun max_by_rank :: "name_record list \<Rightarrow> name_record option" where
  "max_by_rank [] = None"
| "max_by_rank (o1 # os) =
     (case max_by_rank os of
        None \<Rightarrow> Some o1
      | Some b \<Rightarrow> if rank (nr_tier b) \<ge> rank (nr_tier o1) then Some b else Some o1)"

abbreviation ldq :: str where "ldq \<equiv> [0xE2, 0x80, 0x9C]"
abbreviation rdq :: str where "rdq \<equiv> [0xE2, 0x80, 0x9D]"
abbreviation dash :: str where "dash \<equiv> [0xE2, 0x80, 0x94]"

definition collision_warning :: "str \<Rightarrow> str \<Rightarrow> str" where
  "collision_warning label verified =
     ascii ''claims to be '' @ ldq @ label @ rdq @ ascii '' '' @ dash @ ascii '' unverified, does not match the verified '' @
     ldq @ verified @ rdq"

definition suppressed_note :: "str \<Rightarrow> str" where
  "suppressed_note label =
     ascii ''a peer tried to use the name '' @ ldq @ label @ rdq @ ascii '' (suppressed '' @ dash @ ascii '' not verified)''"

definition isolated_note :: str where
  "isolated_note = ascii ''unverified '' @ dash @ ascii '' no linkage to a known identity''"

definition collides_with :: "(str \<Rightarrow> code_points) \<Rightarrow> (code_points \<Rightarrow> code_points) \<Rightarrow> bytes \<Rightarrow> name_record \<Rightarrow> bytes \<times> name_record \<Rightarrow> bool" where
  "collides_with nfkc lower subject_fp rec other \<longleftrightarrow>
     fst other \<noteq> subject_fp \<and> rank (nr_tier (snd other)) > rank (nr_tier rec) \<and>
     confusable_fold nfkc lower (nr_label (snd other)) = confusable_fold nfkc lower (nr_label rec)"

definition resolve_render ::
    "(str \<Rightarrow> code_points) \<Rightarrow> (code_points \<Rightarrow> code_points) \<Rightarrow> bytes \<Rightarrow> name_record \<Rightarrow> (bytes \<times> name_record) list \<Rightarrow> name_trust_policy \<Rightarrow> str \<Rightarrow>
     bool \<Rightarrow> bool \<Rightarrow> bool \<Rightarrow> str option \<Rightarrow> name_render" where
  "resolve_render nfkc lower subject_fp rec others policy safety_number isolated amplify_isolated vouched vouch_badge =
     (let collision = max_by_rank (map snd (filter (collides_with nfkc lower subject_fp rec) others));
          collides = (collision \<noteq> None);
          tnt = (case nr_tier rec of
                   Linked \<Rightarrow> TVerified
                 | RegistryConfirmed \<Rightarrow> TVerified
                 | Bare \<Rightarrow> if isolated then TIsolated else TDefault);
          (label, caveat) =
            (if \<not> collides then (Some (nr_label rec), None)
             else case policy of
                    SignalStyle \<Rightarrow> (Some (nr_label rec), None)
                  | WarnOnCollision \<Rightarrow>
                      let verified = (case collision of Some c \<Rightarrow> nr_label c | None \<Rightarrow> nr_label rec)
                      in (Some (nr_label rec), Some (collision_warning (nr_label rec) verified))
                  | SuppressColliding \<Rightarrow> (None, Some (suppressed_note (nr_label rec))));
          caveat = (case caveat of
                      Some c \<Rightarrow> Some c
                    | None \<Rightarrow> if tnt = TIsolated \<and> amplify_isolated then Some isolated_note else None);
          tnt' = (if vouched then TVouched else tnt);
          caveat = (if vouched then (case vouch_badge of Some b \<Rightarrow> Some b | None \<Rightarrow> caveat) else caveat)
      in \<lparr>rn_label = label, rn_tier = nr_tier rec, rn_badge = tier_badge (nr_tier rec), rn_tint = tnt',
          rn_caveat = caveat, rn_safety_number = safety_number\<rparr>)"

section \<open>Properties\<close>

lemma trust_from_tag [simp]: "trust_from_tag (trust_tag p) = Some p"
  by (cases p) (simp_all add: trust_from_tag_def)

text \<open>The stricter of two policies is their join.\<close>

lemma max_strictness_laws:
  "max_strictness p p = p" "max_strictness p q = max_strictness q p"
  "max_strictness (max_strictness p q) r = max_strictness p (max_strictness q r)"
  "strictness p \<le> strictness (max_strictness p q)" "strictness q \<le> strictness (max_strictness p q)"
  by (cases p; cases q; cases r; simp add: max_strictness_def strictness_def)+

lemma max_by_rank_None [simp]: "max_by_rank os = None \<longleftrightarrow> os = []"
  by (cases os) (auto split: option.splits if_splits)

lemma max_by_rank_Some:
  "max_by_rank os = Some b \<Longrightarrow> b \<in> set os \<and> list_all (\<lambda>o1. rank (nr_tier o1) \<le> rank (nr_tier b)) os"
proof (induction os arbitrary: b)
  case (Cons o1 os)
  show ?case
  proof (cases "max_by_rank os")
    case (Some c)
    then show ?thesis using Cons.prems Cons.IH[OF Some] by (auto simp: list_all_iff split: if_splits)
  qed (use Cons.prems in auto)
qed simp

lemma fold_combining:
  "0x300 \<le> c \<Longrightarrow> c \<le> 0x36F \<Longrightarrow> List.map_filter homoglyph_to_ascii (xs @ c # ys) = List.map_filter homoglyph_to_ascii (xs @ ys)"
  by (simp add: homoglyph_to_ascii_def List.map_filter_def)

lemma max_by_rank_rival:
  assumes "rivals \<noteq> []"
  shows "\<exists>h\<in>set rivals. max_by_rank (map snd rivals) = Some (snd h) \<and>
    (\<forall>k\<in>set rivals. rank (nr_tier (snd k)) \<le> rank (nr_tier (snd h)))"
proof -
  obtain b where b: "max_by_rank (map snd rivals) = Some b"
    using max_by_rank_None[of "map snd rivals"] assms by (metis map_is_Nil_conv option.exhaust)
  from max_by_rank_Some[OF b] show ?thesis using b by (auto simp: list_all_iff)
qed

text \<open>
  C16. The rendered name is exactly the one the policy asks for. The label is hidden when the policy
  suppresses collisions and another peer holds a higher-tier name that folds to the same text, and
  is shown unchanged in every other case. The tint is that of a vouch when there is one, else of
  the verified tier, else of the isolation of a bare name. The caveat is the badge of a vouched
  peer whenever it has one, which takes the place of every warning; else the suppression note or a
  warning that names a genuine holder of the highest tier among the colliding ones, when there is
  a collision and the policy suppresses or warns; else the isolation note of an isolated bare name
  when isolation is amplified; and there is no caveat otherwise.
\<close>

theorem render_collisions:
  "let r = resolve_render nfkc lower fp rec others policy sn isolated amplify vouched badge;
       rivals = filter (collides_with nfkc lower fp rec) others
   in rn_label r = (if rivals \<noteq> [] \<and> policy = SuppressColliding then None else Some (nr_label rec)) \<and>
    rn_tint r = (if vouched then TVouched else if nr_tier rec \<noteq> Bare then TVerified
      else if isolated then TIsolated else TDefault) \<and>
    (if vouched \<and> badge \<noteq> None then rn_caveat r = badge
     else if rivals = [] \<or> policy = SignalStyle then
       rn_caveat r = (if nr_tier rec = Bare \<and> isolated \<and> amplify then Some isolated_note else None)
     else if policy = SuppressColliding then rn_caveat r = Some (suppressed_note (nr_label rec))
     else \<exists>h\<in>set rivals. rn_caveat r = Some (collision_warning (nr_label rec) (nr_label (snd h))) \<and>
       (\<forall>k\<in>set rivals. rank (nr_tier (snd k)) \<le> rank (nr_tier (snd h))))"
  (is "let r = ?r; rivals = ?rivals in _")
proof -
  have label: "rn_label ?r = (if ?rivals \<noteq> [] \<and> policy = SuppressColliding then None else Some (nr_label rec))"
    by (cases policy) (simp_all add: resolve_render_def Let_def)
  have tint: "rn_tint ?r = (if vouched then TVouched else if nr_tier rec \<noteq> Bare then TVerified
      else if isolated then TIsolated else TDefault)"
    by (cases "nr_tier rec") (simp_all add: resolve_render_def split_beta Let_def)
  have badge: "rn_caveat ?r = badge" if "vouched" "badge \<noteq> None"
    using that by (auto simp: resolve_render_def split_beta Let_def)
  have quiet: "rn_caveat ?r = (if nr_tier rec = Bare \<and> isolated \<and> amplify then Some isolated_note else None)"
    if "\<not> (vouched \<and> badge \<noteq> None)" "?rivals = [] \<or> policy = SignalStyle"
    using that by (cases "nr_tier rec"; cases policy) (auto simp: resolve_render_def)
  have suppressed: "rn_caveat ?r = Some (suppressed_note (nr_label rec))"
    if "\<not> (vouched \<and> badge \<noteq> None)" "?rivals \<noteq> []" "policy = SuppressColliding"
    using that by (auto simp: resolve_render_def)
  have warned: "\<exists>h\<in>set ?rivals. rn_caveat ?r = Some (collision_warning (nr_label rec) (nr_label (snd h))) \<and>
      (\<forall>k\<in>set ?rivals. rank (nr_tier (snd k)) \<le> rank (nr_tier (snd h)))"
    if a: "\<not> (vouched \<and> badge \<noteq> None)" "?rivals \<noteq> []" "policy = WarnOnCollision"
  proof -
    obtain h where h: "h \<in> set ?rivals" "max_by_rank (map snd ?rivals) = Some (snd h)"
      "\<forall>k\<in>set ?rivals. rank (nr_tier (snd k)) \<le> rank (nr_tier (snd h))"
      using max_by_rank_rival[OF a(2)] by blast
    have "rn_caveat ?r = Some (collision_warning (nr_label rec) (nr_label (snd h)))"
      using a h(2) by (auto simp: resolve_render_def)
    then show ?thesis using h(1,3) by blast
  qed
  show ?thesis unfolding Let_def
    using label tint badge quiet suppressed warned by (cases policy) simp_all
qed

theorem render_collisions_witness:
  "rn_caveat (resolve_render (map unat) (\<lambda>x. x) [1] \<lparr>nr_label = [0x61], nr_tier = Bare, nr_seq = 0, nr_account_fp = None\<rparr>
      [([2], \<lparr>nr_label = [0x61], nr_tier = Linked, nr_seq = 0, nr_account_fp = Some [5]\<rparr>)] WarnOnCollision [] True True False None)
   = Some (collision_warning [0x61] [0x61])"
  using render_collisions[where nfkc = "map unat" and lower = "\<lambda>x. x" and fp = "[1]" and
      rec = "\<lparr>nr_label = [0x61], nr_tier = Bare, nr_seq = 0, nr_account_fp = None\<rparr>" and
      others = "[([2], \<lparr>nr_label = [0x61], nr_tier = Linked, nr_seq = 0, nr_account_fp = Some [5]\<rparr>)]" and
      policy = WarnOnCollision and sn = "[]" and isolated = True and amplify = True and vouched = False and badge = None]
  by (simp add: collides_with_def Let_def)

end
