(* ===== verification/Descriptor.thy ===== *)
theory Descriptor
  imports Base32 Marking Vouch NameTrust
begin

text \<open>
  \<open>descriptor.rs\<close>: the chat descriptor, its versioned byte form, the \<open>talkrypt://\<close> invite
  and the session root derived from it. Argon2id and SHA3-256 are the parameters \<open>argon2id\<close>
  and \<open>sha3_256\<close>; the fresh invite token is an argument of the constructor.
\<close>

section \<open>The descriptor\<close>

definition URI_SCHEME :: str where
  "URI_SCHEME = ascii ''talkrypt://''"

definition DESCRIPTOR_VERSION :: u16 where
  "DESCRIPTOR_VERSION = 7"

definition ROOT_SALT :: bytes where
  "ROOT_SALT = ascii ''talkrypt-root-v1''"

definition PW_ROOT_SALT :: bytes where
  "PW_ROOT_SALT = ascii ''talkrypt-pw-root-v1''"

definition ANON_ROOT_SALT :: bytes where
  "ANON_ROOT_SALT = ascii ''talkrypt-anon-root-v1''"

definition DEFAULT_SUITE_ID :: str where
  "DEFAULT_SUITE_ID = ascii ''tk.dr.mlkem1024+pad.aes256gcm.sha3-384.mldsa87''"

record promotion_meta =
  pm_tier :: byte
  pm_onion :: str

datatype topology_kind = P2P | Hub | Hybrid

fun topology_tag :: "topology_kind \<Rightarrow> byte" where
  "topology_tag P2P = 0"
| "topology_tag Hub = 1"
| "topology_tag Hybrid = 2"

definition topology_from_tag :: "byte \<Rightarrow> core_error + topology_kind" where
  "topology_from_tag t =
     (if t = 0 then Inr P2P else if t = 1 then Inr Hub else if t = 2 then Inr Hybrid else cmalformed ''topology tag'')"

datatype persistence = Ephemeral | Persistent

fun persistence_tag :: "persistence \<Rightarrow> byte" where
  "persistence_tag Ephemeral = 0"
| "persistence_tag Persistent = 1"

definition persistence_from_tag :: "byte \<Rightarrow> core_error + persistence" where
  "persistence_from_tag t = (if t = 0 then Inr Ephemeral else if t = 1 then Inr Persistent else cmalformed ''persistence tag'')"

record chat_descriptor =
  cd_version :: u16
  cd_topology :: topology_kind
  cd_persistence :: persistence
  cd_suite_id :: str
  cd_suite_params :: bytes
  cd_endpoints :: "str list"
  cd_invite_token :: bytes
  cd_channel :: str
  cd_group :: bool
  cd_channel_marking :: "marking option"
  cd_name_trust_policy :: name_trust_policy
  cd_amplify_isolated :: bool
  cd_access_predicate :: "predicate option"
  cd_message_padding :: "u32 option"
  cd_vouch_policy :: vouch_policy
  cd_promotion :: "promotion_meta option"
  cd_require_anon :: bool
  cd_password :: "str option"

definition descriptor_new :: "bytes \<Rightarrow> topology_kind \<Rightarrow> persistence \<Rightarrow> str \<Rightarrow> str list \<Rightarrow> str \<Rightarrow> chat_descriptor" where
  "descriptor_new token topology persist suite_id endpoints channel =
     \<lparr>cd_version = DESCRIPTOR_VERSION, cd_topology = topology, cd_persistence = persist, cd_suite_id = suite_id,
      cd_suite_params = [], cd_endpoints = endpoints, cd_invite_token = token, cd_channel = channel, cd_group = False,
      cd_channel_marking = None, cd_name_trust_policy = trust_default, cd_amplify_isolated = False,
      cd_access_predicate = None, cd_message_padding = None, cd_vouch_policy = policy_default, cd_promotion = None,
      cd_require_anon = False, cd_password = None\<rparr>"

definition with_require_anon :: "chat_descriptor \<Rightarrow> bool \<Rightarrow> chat_descriptor" where
  "with_require_anon d b = d\<lparr>cd_require_anon := b\<rparr>"

definition with_password :: "chat_descriptor \<Rightarrow> str option \<Rightarrow> chat_descriptor" where
  "with_password d p = d\<lparr>cd_password := p\<rparr>"

section \<open>The session root\<close>

definition resolved_suite_id :: "chat_descriptor \<Rightarrow> str" where
  "resolved_suite_id d = (if cd_suite_id d = [] then DEFAULT_SUITE_ID else cd_suite_id d)"

definition scheme_hash :: "(bytes \<Rightarrow> bytes) \<Rightarrow> str \<Rightarrow> bytes \<Rightarrow> bytes" where
  "scheme_hash sha3_256 suite_id params =
     sha3_256 (u32_be (of_nat (length suite_id)) @ suite_id @ u32_be (of_nat (length params)) @ params)"

definition descriptor_scheme_hash :: "(bytes \<Rightarrow> bytes) \<Rightarrow> chat_descriptor \<Rightarrow> bytes" where
  "descriptor_scheme_hash sha3_256 d = scheme_hash sha3_256 (resolved_suite_id d) (cd_suite_params d)"

text \<open>
  The outcome of \<open>hash_password_into\<close> is the result of the parameter \<open>argon2id\<close>; its error, such as
  a salt below the minimum length, makes \<open>expect\<close> panic. A panic is the value None.
\<close>

definition argon2id_key :: "(bytes \<Rightarrow> bytes \<Rightarrow> 'e + bytes) \<Rightarrow> bytes \<Rightarrow> bytes \<Rightarrow> bytes option" where
  "argon2id_key argon2id password salt = (case argon2id password salt of Inr out \<Rightarrow> Some out | Inl _ \<Rightarrow> None)"

definition derive_root :: "prims \<Rightarrow> (bytes \<Rightarrow> bytes \<Rightarrow> 'e + bytes) \<Rightarrow> chat_descriptor \<Rightarrow> bytes option" where
  "derive_root P argon2id d =
     (let base = mac_kdf P (cd_invite_token d) ROOT_SALT (resolved_suite_id d) 32;
          base = (if cd_require_anon d then mac_kdf P base ANON_ROOT_SALT (ascii ''require-anon'') 32 else base)
      in case cd_password d of
           None \<Rightarrow> Some base
         | Some pw \<Rightarrow>
             (case argon2id_key argon2id pw (cd_invite_token d) of
                None \<Rightarrow> None
              | Some pw_key \<Rightarrow> Some (mac_kdf P pw_key PW_ROOT_SALT base 32)))"

section \<open>The byte form\<close>

definition bool_byte :: "bool \<Rightarrow> byte" where
  "bool_byte b = (if b then 1 else 0)"

definition encode_bytes :: "chat_descriptor \<Rightarrow> bytes" where
  "encode_bytes d =
     (let w = put_u32 writer_new (ucast (cd_version d));
          w = put_u8 w (topology_tag (cd_topology d));
          w = put_u8 w (persistence_tag (cd_persistence d));
          w = put_bytes w (cd_suite_id d);
          w = put_bytes w (cd_suite_params d);
          w = put_u32 w (of_nat (length (cd_endpoints d)));
          w = foldl put_bytes w (cd_endpoints d);
          w = put_bytes w (cd_invite_token d);
          w = put_bytes w (cd_channel d);
          w = put_u8 w (bool_byte (cd_group d));
          w = put_opt w (cd_channel_marking d);
          w = (if cd_version d \<ge> 2 then put_u8 w (trust_tag (cd_name_trust_policy d)) else w);
          w = (if cd_version d \<ge> 3 then
                 let w = put_u8 w (bool_byte (cd_amplify_isolated d))
                 in case cd_access_predicate d of
                      Some pr \<Rightarrow> put_bytes (put_u8 w 1) (predicate_encode pr)
                    | None \<Rightarrow> put_u8 w 0
               else w);
          w = (if cd_version d \<ge> 4 then put_u32 w (case cd_message_padding d of Some s \<Rightarrow> s | None \<Rightarrow> 0) else w);
          w = (if cd_version d \<ge> 5 then put_bytes w (policy_encode (cd_vouch_policy d)) else w);
          w = (if cd_version d \<ge> 6 then
                 (case cd_promotion d of
                    None \<Rightarrow> put_u8 w 0
                  | Some m \<Rightarrow> put_bytes (put_u8 (put_u8 w 1) (pm_tier m)) (pm_onion m))
               else w);
          w = (if cd_version d \<ge> 7 then put_u8 w (bool_byte (cd_require_anon d)) else w)
      in into_vec w)"

definition as_string :: "bytes \<Rightarrow> core_error + str" where
  "as_string b = ok_or (CMalformed (ascii ''invalid utf-8'')) (from_utf8 b)"

definition get_string :: "reader \<Rightarrow> core_error + str \<times> reader" where
  "get_string r = bind_result (cwire (get_bytes r)) (\<lambda>(b, r). bind_result (as_string b) (\<lambda>s. Inr (s, r)))"

definition get_endpoints :: "reader \<Rightarrow> core_error + str list \<times> reader" where
  "get_endpoints r =
     bind_result (cwire (get_u32 r)) (\<lambda>(n, r).
       if unat n > 1024 then cmalformed ''too many endpoints'' else read_n (unat n) get_string r)"

definition get_flag :: "reader \<Rightarrow> core_error + bool \<times> reader" where
  "get_flag r = bind_result (cwire (get_u8 r)) (\<lambda>(b, r). Inr (b \<noteq> 0, r))"

definition get_trust :: "u16 \<Rightarrow> reader \<Rightarrow> core_error + name_trust_policy \<times> reader" where
  "get_trust version r =
     (if version \<ge> 2 then
        bind_result (cwire (get_u8 r)) (\<lambda>(t, r).
        bind_result (ok_or (CMalformed (ascii ''name trust policy tag'')) (trust_from_tag t)) (\<lambda>p. Inr (p, r)))
      else Inr (trust_default, r))"

definition get_predicate :: "reader \<Rightarrow> core_error + predicate option \<times> reader" where
  "get_predicate r =
     bind_result (cwire (get_u8 r)) (\<lambda>(t, r).
       if t = 0 then Inr (None, r)
       else if t = 1 then
         bind_result (cwire (get_bytes r)) (\<lambda>(b, r).
         bind_result (ok_or (CMalformed (ascii ''access predicate'')) (predicate_decode b)) (\<lambda>p. Inr (Some p, r)))
       else cmalformed ''access predicate flag'')"

definition get_display :: "u16 \<Rightarrow> reader \<Rightarrow> core_error + (bool \<times> predicate option) \<times> reader" where
  "get_display version r =
     (if version \<ge> 3 then
        bind_result (get_flag r) (\<lambda>(amplify, r).
        bind_result (get_predicate r) (\<lambda>(pred, r). Inr ((amplify, pred), r)))
      else Inr ((False, None), r))"

definition get_padding :: "u16 \<Rightarrow> reader \<Rightarrow> core_error + u32 option \<times> reader" where
  "get_padding version r =
     (if version \<ge> 4 then
        bind_result (cwire (get_u32 r)) (\<lambda>(step, r). Inr (if step = 0 then None else Some step, r))
      else Inr (None, r))"

definition get_vouch_policy :: "u16 \<Rightarrow> reader \<Rightarrow> core_error + vouch_policy \<times> reader" where
  "get_vouch_policy version r =
     (if version \<ge> 5 then
        bind_result (cwire (get_bytes r)) (\<lambda>(b, r).
        bind_result (ok_or (CMalformed (ascii ''vouch policy'')) (policy_decode b)) (\<lambda>p. Inr (p, r)))
      else Inr (policy_default, r))"

definition get_promotion :: "u16 \<Rightarrow> reader \<Rightarrow> core_error + promotion_meta option \<times> reader" where
  "get_promotion version r =
     (if version \<ge> 6 then
        bind_result (cwire (get_u8 r)) (\<lambda>(t, r).
          if t = 0 then Inr (None, r)
          else if t = 1 then
            bind_result (cwire (get_u8 r)) (\<lambda>(tier, r).
            bind_result (get_string r) (\<lambda>(onion, r). Inr (Some \<lparr>pm_tier = tier, pm_onion = onion\<rparr>, r)))
          else cmalformed ''promotion flag'')
      else Inr (None, r))"

definition get_anon :: "u16 \<Rightarrow> reader \<Rightarrow> core_error + bool \<times> reader" where
  "get_anon version r = (if version \<ge> 7 then get_flag r else Inr (False, r))"

definition read_descriptor :: "reader \<Rightarrow> core_error + chat_descriptor" where
  "read_descriptor r =
     bind_result (cwire (get_u32 r)) (\<lambda>(v, r).
       let version = ucast v :: u16
       in if version = 0 \<or> version > DESCRIPTOR_VERSION then Inl (UnsupportedVersion version)
          else
            bind_result (cwire (get_u8 r)) (\<lambda>(t, r).
            bind_result (topology_from_tag t) (\<lambda>topology.
            bind_result (cwire (get_u8 r)) (\<lambda>(t, r).
            bind_result (persistence_from_tag t) (\<lambda>persist.
            bind_result (get_string r) (\<lambda>(suite_id, r).
            bind_result (cwire (get_vec r)) (\<lambda>(suite_params, r).
            bind_result (get_endpoints r) (\<lambda>(endpoints, r).
            bind_result (cwire (get_vec r)) (\<lambda>(invite_token, r).
            bind_result (get_string r) (\<lambda>(channel, r).
            bind_result (get_flag r) (\<lambda>(grp, r).
            bind_result (get_opt r) (\<lambda>(channel_marking, r).
            bind_result (get_trust version r) (\<lambda>(trust, r).
            bind_result (get_display version r) (\<lambda>(display, r).
            bind_result (get_padding version r) (\<lambda>(padding, r).
            bind_result (get_vouch_policy version r) (\<lambda>(vouch_policy, r).
            bind_result (get_promotion version r) (\<lambda>(promotion, r).
            bind_result (get_anon version r) (\<lambda>(require_anon, r).
            bind_result (cmal ''trailing descriptor bytes'' (finish r)) (\<lambda>_.
              Inr \<lparr>cd_version = version, cd_topology = topology, cd_persistence = persist, cd_suite_id = suite_id,
                   cd_suite_params = suite_params, cd_endpoints = endpoints, cd_invite_token = invite_token,
                   cd_channel = channel, cd_group = grp, cd_channel_marking = channel_marking,
                   cd_name_trust_policy = trust, cd_amplify_isolated = fst display,
                   cd_access_predicate = snd display, cd_message_padding = padding, cd_vouch_policy = vouch_policy,
                   cd_promotion = promotion, cd_require_anon = require_anon, cd_password = None\<rparr>)))))))))))))))))))"

definition decode_bytes :: "bytes \<Rightarrow> core_error + chat_descriptor" where
  "decode_bytes b = read_descriptor (reader_new b)"

section \<open>The invite\<close>

text \<open>
  \<open>str::trim\<close>: the white space of Unicode, in UTF-8, at the start of a text; at the end the
  same encodings are met from the last byte on.
\<close>

definition white_space :: "bytes list" where
  "white_space =
     map (\<lambda>b. [b]) [0x09, 0x0A, 0x0B, 0x0C, 0x0D, 0x20] @
     [[0xC2, 0x85], [0xC2, 0xA0], [0xE1, 0x9A, 0x80], [0xE2, 0x80, 0xA8], [0xE2, 0x80, 0xA9], [0xE2, 0x80, 0xAF],
      [0xE2, 0x81, 0x9F], [0xE3, 0x80, 0x80]] @
     map (\<lambda>b. [0xE2, 0x80, b]) [0x80, 0x81, 0x82, 0x83, 0x84, 0x85, 0x86, 0x87, 0x88, 0x89, 0x8A]"

definition strip_one :: "bytes list \<Rightarrow> bytes \<Rightarrow> bytes option" where
  "strip_one ws s = map_option (\<lambda>w. drop (length w) s) (find (\<lambda>w. w \<noteq> [] \<and> take (length w) s = w) ws)"

lemma strip_one_shorter: "strip_one ws s = Some t \<Longrightarrow> length t < length s"
  by (auto simp: strip_one_def find_Some_iff dest!: arg_cong[of "take _ s" _ length] intro!: diff_less)

function trim_start :: "bytes list \<Rightarrow> bytes \<Rightarrow> bytes" where
  "trim_start ws s = (case strip_one ws s of None \<Rightarrow> s | Some t \<Rightarrow> trim_start ws t)"
  by pat_completeness auto
termination
  by (relation "measure (\<lambda>(ws, s). length s)") (auto dest: strip_one_shorter)

declare trim_start.simps [simp del]

definition trim :: "str \<Rightarrow> str" where
  "trim s = rev (trim_start (map rev white_space) (rev (trim_start white_space s)))"

definition to_uri :: "chat_descriptor \<Rightarrow> str" where
  "to_uri d = URI_SCHEME @ b32_encode (encode_bytes d)"

definition strip_prefix :: "bytes \<Rightarrow> bytes \<Rightarrow> bytes option" where
  "strip_prefix p s = (if take (length p) s = p then Some (drop (length p) s) else None)"

definition from_uri :: "str \<Rightarrow> core_error + chat_descriptor" where
  "from_uri uri =
     bind_result (ok_or (CMalformed (ascii ''missing talkrypt:// scheme'')) (strip_prefix URI_SCHEME uri)) (\<lambda>body.
     bind_result (ok_or (CMalformed (ascii ''bad base32'')) (b32_decode (trim body))) (\<lambda>b. decode_bytes b))"

section \<open>Reading back what was written\<close>

definition pred_ok :: "predicate \<Rightarrow> bool" where
  "pred_ok p \<longleftrightarrow> frame_sized (predicate_encode p) \<and>
     (case p of Grouping g \<Rightarrow> frame_sized g | LinkedToAccount fp \<Rightarrow> length fp = 48 | DerivedFromNamed fp \<Rightarrow> length fp = 48)"

text \<open>
  A descriptor of version 1 to 7 whose texts are valid and within the frame limit, and whose
  fields newer than its version have their defaults.
\<close>

definition descriptor_ok :: "chat_descriptor \<Rightarrow> bool" where
  "descriptor_ok d \<longleftrightarrow>
     1 \<le> cd_version d \<and> cd_version d \<le> 7 \<and> text_ok (cd_suite_id d) \<and> frame_sized (cd_suite_params d) \<and>
     length (cd_endpoints d) \<le> 1024 \<and> list_all text_ok (cd_endpoints d) \<and> frame_sized (cd_invite_token d) \<and>
     text_ok (cd_channel d) \<and> pred_option marking_ok (cd_channel_marking d) \<and>
     (cd_version d \<ge> 2 \<or> cd_name_trust_policy d = trust_default) \<and>
     (cd_version d \<ge> 3 \<or> \<not> cd_amplify_isolated d \<and> cd_access_predicate d = None) \<and>
     pred_option pred_ok (cd_access_predicate d) \<and>
     (cd_version d \<ge> 4 \<or> cd_message_padding d = None) \<and> cd_message_padding d \<noteq> Some 0 \<and>
     (cd_version d \<ge> 5 \<or> cd_vouch_policy d = policy_default) \<and>
     (cd_version d \<ge> 6 \<or> cd_promotion d = None) \<and> pred_option (\<lambda>m. text_ok (pm_onion m)) (cd_promotion d) \<and>
     (cd_version d \<ge> 7 \<or> \<not> cd_require_anon d) \<and> length (encode_bytes d) < usize_limit"

lemma topology_from_tag [simp]: "topology_from_tag (topology_tag t) = Inr t"
  by (cases t) (simp_all add: topology_from_tag_def)

lemma persistence_from_tag [simp]: "persistence_from_tag (persistence_tag t) = Inr t"
  by (cases t) (simp_all add: persistence_from_tag_def)

lemma reads_get_string:
  assumes "text_ok s"
  shows "reads get_string (bytes_enc s) s"
proof -
  have a: "frame_sized s" "utf8_valid s" using assms by (simp_all add: text_ok_def)
  have "reads get_string (bytes_enc s @ []) s" unfolding get_string_def as_string_def by (rule reads_intros a)+
  then show ?thesis by simp
qed

lemma reads_endpoints:
  assumes "length es \<le> 1024" "list_all text_ok es"
  shows "reads get_endpoints (u32_be (of_nat (length es)) @ concat (map bytes_enc es)) es"
proof -
  let ?n = "of_nat (length es) :: u32"
  have n: "unat ?n = length es" using assms(1) by (subst unsigned_of_nat) (simp add: take_bit_nat_eq_self)
  have g: "\<not> 1024 < unat ?n" using assms(1) n by simp
  have "reads (read_n (unat ?n) get_string) (concat (map bytes_enc es)) es"
    unfolding n using assms(2) by (intro reads_list reads_get_string) (simp add: list_all_iff)
  then show ?thesis unfolding get_endpoints_def
    by - (rule reads_bind[OF reads_err[OF reads_u32]], rule reads_guard[OF g])
qed

lemma reads_flag: "reads get_flag [bool_byte b] b"
proof -
  have "reads get_flag ([bool_byte b] @ []) (bool_byte b \<noteq> 0)" unfolding get_flag_def by (rule reads_intros)+
  then show ?thesis by (simp add: bool_byte_def split: if_splits)
qed

abbreviation enc_if :: "bool \<Rightarrow> bytes \<Rightarrow> bytes" where
  "enc_if b e \<equiv> if b then e else []"

lemma reads_since:
  assumes "b \<Longrightarrow> reads f e x" "\<not> b \<Longrightarrow> x = y"
  shows "reads (\<lambda>r. if b then f r else Inr (y, r)) (enc_if b e) x"
  using assms reads_return[of x] by (cases b) simp_all

lemma reads_trust:
  assumes "v \<ge> 2 \<or> p = trust_default"
  shows "reads (get_trust v) (enc_if (v \<ge> 2) ([trust_tag p] @ [])) p"
proof -
  have "ok_or e (trust_from_tag (trust_tag p)) = Inr p" for e :: core_error by (simp add: ok_or_def)
  then show ?thesis unfolding get_trust_def using assms
    by (intro reads_since reads_bind[OF reads_err[OF reads_u8]] reads_check[OF _ reads_return]) auto
qed

definition predicate_field :: "predicate option \<Rightarrow> bytes" where
  "predicate_field p = (case p of None \<Rightarrow> [0] @ [] | Some q \<Rightarrow> [1] @ bytes_enc (predicate_encode q) @ [])"

lemma reads_predicate:
  assumes "pred_option pred_ok p"
  shows "reads get_predicate (predicate_field p) p"
proof (cases p)
  case None
  show ?thesis unfolding get_predicate_def None predicate_field_def option.case
    by (rule reads_bind[OF reads_err[OF reads_u8]], simp only: refl if_True) (rule reads_return)
next
  case (Some q)
  then have a: "frame_sized (predicate_encode q)" "ok_or e (predicate_decode (predicate_encode q)) = Inr q" for e :: core_error
    using assms predicate_roundtrip[of q] by (simp_all add: pred_ok_def ok_or_def)
  show ?thesis unfolding get_predicate_def Some predicate_field_def option.case
    by (rule reads_bind[OF reads_err[OF reads_u8]], simp only: one_neq_zero refl if_False if_True) (rule reads_intros a)+
qed

lemma reads_display:
  assumes "v \<ge> 3 \<or> \<not> a \<and> p = None" "pred_option pred_ok p"
  shows "reads (get_display v) (enc_if (v \<ge> 3) ([bool_byte a] @ predicate_field p @ [])) (a, p)"
  unfolding get_display_def using assms
  by (intro reads_since reads_bind[OF reads_flag] reads_bind[OF reads_predicate] reads_return) auto

lemma reads_padding:
  assumes "v \<ge> 4 \<or> p = None" "p \<noteq> Some 0"
  shows "reads (get_padding v) (enc_if (v \<ge> 4) (u32_be (case p of Some s \<Rightarrow> s | None \<Rightarrow> 0) @ [])) p"
proof -
  let ?s = "case p of Some s \<Rightarrow> s | None \<Rightarrow> 0"
  have p: "(if ?s = 0 then None else Some ?s) = p" using assms(2) by (cases p) auto
  have "reads (\<lambda>r. bind_result (cwire (get_u32 r)) (\<lambda>(step, r). Inr (if step = 0 then None else Some step, r)))
      (u32_be ?s @ []) (if ?s = 0 then None else Some ?s)"
    by (rule reads_bind[OF reads_err[OF reads_u32] reads_return])
  then show ?thesis unfolding get_padding_def p using assms(1) by (intro reads_since) auto
qed

lemma reads_vouch_policy:
  assumes "v \<ge> 5 \<or> p = policy_default"
  shows "reads (get_vouch_policy v) (enc_if (v \<ge> 5) (bytes_enc (policy_encode p) @ [])) p"
proof -
  have "length (policy_encode p) \<le> 100"
    by (simp add: policy_encode_def into_vec_def Let_def codec_simps split: voucher_eligibility.split threshold.split)
  then have "frame_sized (policy_encode p)" by (simp add: frame_sized_def MAX_FRAME_def)
  moreover have "ok_or e (policy_decode (policy_encode p)) = Inr p" for e :: core_error by (simp add: policy_roundtrip ok_or_def)
  ultimately show ?thesis unfolding get_vouch_policy_def using assms
    by (intro reads_since reads_bind[OF reads_err[OF reads_bytes]] reads_check[OF _ reads_return]) auto
qed

definition promotion_field :: "promotion_meta option \<Rightarrow> bytes" where
  "promotion_field p = (case p of None \<Rightarrow> [0] @ [] | Some m \<Rightarrow> [1] @ [pm_tier m] @ bytes_enc (pm_onion m) @ [])"

lemma reads_promotion:
  assumes "v \<ge> 6 \<or> p = None" "pred_option (\<lambda>m. text_ok (pm_onion m)) p"
  shows "reads (get_promotion v) (enc_if (v \<ge> 6) (promotion_field p)) p"
proof -
  have "reads (\<lambda>r. bind_result (cwire (get_u8 r)) (\<lambda>(t, r).
      if t = 0 then Inr (None, r)
      else if t = 1 then
        bind_result (cwire (get_u8 r)) (\<lambda>(tier, r).
        bind_result (get_string r) (\<lambda>(onion, r). Inr (Some \<lparr>pm_tier = tier, pm_onion = onion\<rparr>, r)))
      else cmalformed ''promotion flag'')) (promotion_field p) p"
  proof (cases p)
    case None
    show ?thesis unfolding None promotion_field_def option.case
      by (rule reads_bind[OF reads_err[OF reads_u8]], simp only: refl if_True) (rule reads_return)
  next
    case (Some m)
    have "reads get_string (bytes_enc (pm_onion m)) (pm_onion m)" using assms(2) Some by (simp add: reads_get_string)
    then have "reads (\<lambda>r. bind_result (cwire (get_u8 r)) (\<lambda>(tier, r).
        bind_result (get_string r) (\<lambda>(onion, r). Inr (Some \<lparr>pm_tier = tier, pm_onion = onion\<rparr>, r))))
        ([pm_tier m] @ bytes_enc (pm_onion m) @ []) (Some \<lparr>pm_tier = pm_tier m, pm_onion = pm_onion m\<rparr>)"
      by (intro reads_bind[OF reads_err[OF reads_u8]] reads_bind[OF _ reads_return])
    then show ?thesis unfolding Some promotion_field_def option.case
      by - (rule reads_bind[OF reads_err[OF reads_u8]], cases m, simp)
  qed
  then show ?thesis unfolding get_promotion_def using assms(1) by (intro reads_since) auto
qed

lemma reads_anon: "v \<ge> 7 \<or> \<not> b \<Longrightarrow> reads (get_anon v) (enc_if (v \<ge> 7) [bool_byte b]) b"
  unfolding get_anon_def by (intro reads_since reads_flag) auto

lemma descriptor_bytes:
  "encode_bytes d = u32_be (ucast (cd_version d)) @ [topology_tag (cd_topology d)] @ [persistence_tag (cd_persistence d)] @
     bytes_enc (cd_suite_id d) @ bytes_enc (cd_suite_params d) @
     (u32_be (of_nat (length (cd_endpoints d))) @ concat (map bytes_enc (cd_endpoints d))) @
     bytes_enc (cd_invite_token d) @ bytes_enc (cd_channel d) @ [bool_byte (cd_group d)] @ opt_enc (cd_channel_marking d) @
     enc_if (cd_version d \<ge> 2) ([trust_tag (cd_name_trust_policy d)] @ []) @
     enc_if (cd_version d \<ge> 3) ([bool_byte (cd_amplify_isolated d)] @ predicate_field (cd_access_predicate d) @ []) @
     enc_if (cd_version d \<ge> 4) (u32_be (case cd_message_padding d of Some s \<Rightarrow> s | None \<Rightarrow> 0) @ []) @
     enc_if (cd_version d \<ge> 5) (bytes_enc (policy_encode (cd_vouch_policy d)) @ []) @
     enc_if (cd_version d \<ge> 6) (promotion_field (cd_promotion d)) @
     enc_if (cd_version d \<ge> 7) [bool_byte (cd_require_anon d)] @ []"
proof -
  have c: "wbuf (if b then w else v) = (if b then wbuf w else wbuf v)" for b w v by simp
  show ?thesis
    unfolding encode_bytes_def Let_def into_vec_def c
    by (simp add: codec_simps wbuf_put_list predicate_field_def promotion_field_def c split: option.split)
qed

lemma decode_encode_bytes:
  assumes "descriptor_ok d"
  shows "decode_bytes (encode_bytes d) = Inr (d\<lparr>cd_password := None\<rparr>)"
proof -
  note ok = assms[unfolded descriptor_ok_def]
  have v: "ucast (ucast (cd_version d) :: u32) = cd_version d" by (rule bit_word_eqI) (simp add: bit_simps)
  have a: "text_ok (cd_suite_id d)" "frame_sized (cd_suite_params d)" "length (cd_endpoints d) \<le> 1024"
    "list_all text_ok (cd_endpoints d)" "frame_sized (cd_invite_token d)" "text_ok (cd_channel d)"
    "pred_option marking_ok (cd_channel_marking d)" "length (encode_bytes d) < usize_limit"
    using ok by simp_all
  have o: "cd_version d \<ge> 2 \<or> cd_name_trust_policy d = trust_default"
    "cd_version d \<ge> 3 \<or> \<not> cd_amplify_isolated d \<and> cd_access_predicate d = None" "pred_option pred_ok (cd_access_predicate d)"
    "cd_version d \<ge> 4 \<or> cd_message_padding d = None" "cd_message_padding d \<noteq> Some 0"
    "cd_version d \<ge> 5 \<or> cd_vouch_policy d = policy_default" "cd_version d \<ge> 6 \<or> cd_promotion d = None"
    "pred_option (\<lambda>m. text_ok (pm_onion m)) (cd_promotion d)" "cd_version d \<ge> 7 \<or> \<not> cd_require_anon d"
    using ok by simp_all
  have g: "\<not> (cd_version d = 0 \<or> cd_version d > DESCRIPTOR_VERSION)"
    using ok by (auto simp: DESCRIPTOR_VERSION_def)
  have f: "reads (get_trust (cd_version d)) (enc_if (cd_version d \<ge> 2) ([trust_tag (cd_name_trust_policy d)] @ [])) (cd_name_trust_policy d)"
    "reads (get_display (cd_version d)) (enc_if (cd_version d \<ge> 3) ([bool_byte (cd_amplify_isolated d)] @ predicate_field (cd_access_predicate d) @ []))
      (cd_amplify_isolated d, cd_access_predicate d)"
    "reads (get_padding (cd_version d)) (enc_if (cd_version d \<ge> 4) (u32_be (case cd_message_padding d of Some s \<Rightarrow> s | None \<Rightarrow> 0) @ [])) (cd_message_padding d)"
    "reads (get_vouch_policy (cd_version d)) (enc_if (cd_version d \<ge> 5) (bytes_enc (policy_encode (cd_vouch_policy d)) @ [])) (cd_vouch_policy d)"
    "reads (get_promotion (cd_version d)) (enc_if (cd_version d \<ge> 6) (promotion_field (cd_promotion d))) (cd_promotion d)"
    "reads (get_anon (cd_version d)) (enc_if (cd_version d \<ge> 7) [bool_byte (cd_require_anon d)]) (cd_require_anon d)"
    by (rule reads_trust[OF o(1)] reads_display[OF o(2,3)] reads_padding[OF o(4,5)] reads_vouch_policy[OF o(6)]
        reads_promotion[OF o(7,8)] reads_anon[OF o(9)])+
  have "ends read_descriptor (encode_bytes d)
     \<lparr>cd_version = cd_version d, cd_topology = cd_topology d, cd_persistence = cd_persistence d, cd_suite_id = cd_suite_id d,
      cd_suite_params = cd_suite_params d, cd_endpoints = cd_endpoints d, cd_invite_token = cd_invite_token d,
      cd_channel = cd_channel d, cd_group = cd_group d, cd_channel_marking = cd_channel_marking d,
      cd_name_trust_policy = cd_name_trust_policy d, cd_amplify_isolated = fst (cd_amplify_isolated d, cd_access_predicate d),
      cd_access_predicate = snd (cd_amplify_isolated d, cd_access_predicate d), cd_message_padding = cd_message_padding d,
      cd_vouch_policy = cd_vouch_policy d, cd_promotion = cd_promotion d, cd_require_anon = cd_require_anon d, cd_password = None\<rparr>"
    unfolding read_descriptor_def descriptor_bytes
    by (rule ends_bind[OF reads_err[OF reads_u32]], unfold Let_def v if_not_P[OF g])
      (rule f ends_finish reads_endpoints[OF a(3,4)] reads_get_string[OF a(1)] reads_get_string[OF a(6)] reads_flag
        reads_opt[OF a(7)] reads_err[OF reads_vec[OF a(2)]] reads_err[OF reads_vec[OF a(5)]] reads_err[OF reads_u8]
        topology_from_tag persistence_from_tag ends_bind ends_check)+
  from ends_start[OF this a(8)] show ?thesis by (cases d) (simp add: decode_bytes_def)
qed

lemma b32_letters: "b32_decode s = Some x \<Longrightarrow> c \<in> set s \<Longrightarrow> b32_val c \<noteq> None"
proof -
  have "b32_decode_loop s buffer bits out = Some x \<Longrightarrow> c \<in> set s \<Longrightarrow> b32_val c \<noteq> None" for buffer bits out
    by (induction s arbitrary: buffer bits out) (auto simp: Let_def split: option.splits if_splits)
  then show "b32_decode s = Some x \<Longrightarrow> c \<in> set s \<Longrightarrow> b32_val c \<noteq> None" by (simp add: b32_decode_def)
qed

lemma trim_start_letters:
  assumes "\<forall>c\<in>set s. b32_val c \<noteq> None" "list_all (\<lambda>w. w \<noteq> [] \<and> b32_val (hd w) = None) ws"
  shows "trim_start ws s = s"
proof -
  have "\<not> (w \<noteq> [] \<and> take (length w) s = w)" if "w \<in> set ws" for w
  proof
    assume w: "w \<noteq> [] \<and> take (length w) s = w"
    then have "hd w \<in> set s" by (metis hd_in_set in_set_takeD)
    then show False using assms that by (auto simp: list_all_iff)
  qed
  then have "strip_one ws s = None" by (simp add: strip_one_def find_None_iff)
  then show ?thesis by (simp add: trim_start.simps)
qed

lemma trim_letters: "\<forall>c\<in>set s. b32_val c \<noteq> None \<Longrightarrow> trim s = s"
proof -
  assume s: "\<forall>c\<in>set s. b32_val c \<noteq> None"
  have "list_all (\<lambda>w. w \<noteq> [] \<and> b32_val (hd w) = None) white_space"
    "list_all (\<lambda>w. w \<noteq> [] \<and> b32_val (hd w) = None) (map rev white_space)"
    by (simp_all add: white_space_def b32_val_def word_le_nat_alt)
  then show "trim s = s" using s by (simp add: trim_def trim_start_letters)
qed

lemma uri_decodes:
  assumes "descriptor_ok d"
  shows "from_uri (to_uri d) = Inr (d\<lparr>cd_password := None\<rparr>)"
proof -
  have "trim (b32_encode (encode_bytes d)) = b32_encode (encode_bytes d)"
    using b32_letters[OF b32_roundtrip] by (intro trim_letters) blast
  then have "from_uri (to_uri d) = decode_bytes (encode_bytes d)"
    by (simp add: from_uri_def to_uri_def strip_prefix_def b32_roundtrip ok_or_def)
  then show ?thesis using decode_encode_bytes[OF assms] by simp
qed

text \<open>
  C14. Invites survive sharing: the \<open>talkrypt://\<close> text of any descriptor of version 1 to 7
  parses back to the same descriptor, field by field, and carries everything but the
  out-of-band password, which is never in it.
\<close>

theorem invite_roundtrip:
  assumes "descriptor_ok d"
  shows "from_uri (to_uri d) = Inr (d\<lparr>cd_password := None\<rparr>) \<and> to_uri (d\<lparr>cd_password := p\<rparr>) = to_uri d"
proof -
  have "encode_bytes (d\<lparr>cd_password := p\<rparr>) = encode_bytes d" by (simp add: descriptor_bytes)
  then show ?thesis using uri_decodes[OF assms] by (simp add: to_uri_def)
qed

definition demo_descriptor :: "str list \<Rightarrow> chat_descriptor" where
  "demo_descriptor es = with_require_anon (descriptor_new [1, 2, 3] Hub Persistent [] es [0x62]) True"

lemma demo_descriptor_ok: "descriptor_ok (demo_descriptor [[0x63]])"
proof -
  have "length (encode_bytes (demo_descriptor [[0x63]])) < usize_limit"
    by (simp add: descriptor_bytes demo_descriptor_def with_require_anon_def descriptor_new_def predicate_field_def
        promotion_field_def usize_limit_def policy_encode_def policy_default_def into_vec_def codec_simps)
  then show ?thesis
    by (simp add: descriptor_ok_def demo_descriptor_def with_require_anon_def descriptor_new_def DESCRIPTOR_VERSION_def text_ok_def
        frame_sized_def MAX_FRAME_def word_le_nat_alt)
qed

theorem invite_roundtrip_witness: "from_uri (to_uri (demo_descriptor [[0x63]])) = Inr (demo_descriptor [[0x63]])"
  using invite_roundtrip[OF demo_descriptor_ok] by (simp add: demo_descriptor_def with_require_anon_def descriptor_new_def)

text \<open>
  An invite whose token is below the minimum salt length parses, and a member that then sets a
  channel password on it panics in place of deriving a root.
\<close>

lemma short_token_panics:
  assumes "descriptor_ok d" "length (cd_invite_token d) < 8"
    and "\<And>pw salt. length salt < 8 \<Longrightarrow> \<exists>e. argon2id pw salt = Inl e"
  shows "\<exists>e. from_uri (to_uri d) = Inr e \<and> derive_root P argon2id (with_password e (Some pw)) = None"
proof -
  obtain x where "argon2id pw (cd_invite_token d) = Inl x" using assms(2,3) by blast
  then show ?thesis using uri_decodes[OF assms(1)] by (simp add: derive_root_def argon2id_key_def with_password_def Let_def)
qed

definition demo_argon2id :: "bytes \<Rightarrow> bytes \<Rightarrow> unit + bytes" where
  "demo_argon2id pw salt = (if length salt < 8 then Inl () else Inr (pw @ salt))"

text \<open>
  C28. What the session root binds: it is determined by the invite token, the resolved suite,
  the anonymity flag and the password. In particular two invites that differ only in their
  endpoints give the same root, also after both went through the invite text, so replacing
  the onion address of an invite that requires an anonymising transport is not detected by
  the handshake root.
\<close>

theorem root_ignores_endpoints:
  assumes "descriptor_ok (d\<lparr>cd_endpoints := es\<rparr>)"
  shows "\<exists>e. from_uri (to_uri (d\<lparr>cd_endpoints := es\<rparr>)) = Inr e \<and> cd_endpoints e = es \<and>
    derive_root P argon2id (with_password e (cd_password d)) = derive_root P argon2id d"
  using uri_decodes[OF assms]
  by (cases "cd_password d") (simp_all add: derive_root_def with_password_def resolved_suite_id_def Let_def split: option.split)

theorem root_ignores_endpoints_witness:
  "\<exists>e. from_uri (to_uri (demo_descriptor [[0x63]])) = Inr e \<and> cd_endpoints e = [[0x63]] \<and>
     derive_root demo_prims demo_argon2id (with_password e None) = derive_root demo_prims demo_argon2id (demo_descriptor [[0x61]])"
proof -
  have d: "(demo_descriptor [[0x61]])\<lparr>cd_endpoints := [[0x63]]\<rparr> = demo_descriptor [[0x63]]"
    "cd_password (demo_descriptor [[0x61]]) = None"
    by (simp_all add: demo_descriptor_def with_require_anon_def descriptor_new_def)
  show ?thesis
    using root_ignores_endpoints[where d = "demo_descriptor [[0x61]]" and es = "[[0x63]]" and P = demo_prims and argon2id = demo_argon2id] demo_descriptor_ok
    unfolding d by blast
qed

end
