(* ===== verification/Trust.thy ===== *)
theory Trust
  imports Descriptor
begin

text \<open>
  The trust state of the engine (\<open>engine.rs\<close>, the part of \<open>Inner\<close> behind identities,
  names, linkage and vouches) and its handlers: presented identities and the access policy,
  revocations, name announcements with their rate limit, grouping disclosures, the vouch
  ledger with its gossip clock, and the viewer's estimates. A handler takes the state, the
  authenticated sender and the bytes, and returns the events it emits and the new state; the
  clock is an argument. Locks, channels and the network are not modelled.
\<close>

section \<open>State\<close>

datatype access_policy = Open | Accounts "bytes set" | Contacts | Friends

definition is_open :: "access_policy \<Rightarrow> bool" where
  "is_open p = (case p of Open \<Rightarrow> True | _ \<Rightarrow> False)"

definition admits :: "access_policy \<Rightarrow> bytes \<Rightarrow> bool \<Rightarrow> bool \<Rightarrow> bool" where
  "admits p account_fingerprint contact friend =
     (case p of Open \<Rightarrow> True | Accounts s \<Rightarrow> account_fingerprint \<in> s | Contacts \<Rightarrow> contact | Friends \<Rightarrow> friend)"

datatype identity_outcome = Allowed | Rejected | Ignored

record vouch_record =
  vr_epoch :: u64
  vr_voucher :: identity_public
  vr_sender_fp :: bytes

record trust_state =
  ts_descriptor :: chat_descriptor
  ts_contacts :: contact_store
  ts_access :: access_policy
  ts_revocations :: "(bytes \<times> bytes) set"
  ts_seen_accounts :: "(bytes \<times> identity_public) list"
  ts_admitted :: "bytes set"
  ts_names :: "(bytes \<times> name_record) list"
  ts_presence_rate :: "(bytes \<times> u64 \<times> u32) list"
  ts_name_override :: "name_trust_policy option"
  ts_groupings_seen :: "(bytes \<times> bytes list) list"
  ts_linkage_seq :: "(bytes \<times> u64) list"
  ts_vouches :: "(bytes \<times> (bytes \<times> vouch_record) list) list"
  ts_user_weighting :: "vouch_weighting option"
  ts_user_threshold :: "threshold option"
  ts_my_vouches :: "vouch_target list"
  ts_round :: u64
  ts_voucher_round :: "(bytes \<times> u64) list"
  ts_last_advancer :: "bytes option"

datatype event =
    EvIdentity bytes bytes "str option" bool bool
  | EvName bytes "bytes option" "str option" name_tier u64 "str option" str
  | EvLinkage bytes bytes bool
  | EvVouch bytes int bool bool
  | EvError str

definition hex_digit :: "nat \<Rightarrow> byte" where
  "hex_digit n = (if n < 10 then of_nat (48 + n) else of_nat (87 + n))"

definition short_hex6 :: "bytes \<Rightarrow> str" where
  "short_hex6 fp = concat (map (\<lambda>b. [hex_digit (unat b div 16), hex_digit (unat b mod 16)]) (take 6 fp))"

definition ts_context :: "prims \<Rightarrow> trust_state \<Rightarrow> bytes" where
  "ts_context P st = chat_context P (cd_invite_token (ts_descriptor st)) (cd_channel (ts_descriptor st))"

section \<open>Access\<close>

definition restrict_to_accounts :: "trust_state \<Rightarrow> bytes set \<Rightarrow> trust_state" where
  "restrict_to_accounts st accounts = st\<lparr>ts_access := Accounts accounts\<rparr>"

definition restrict_to_contacts :: "trust_state \<Rightarrow> trust_state" where
  "restrict_to_contacts st = st\<lparr>ts_access := Contacts\<rparr>"

definition restrict_to_friends :: "trust_state \<Rightarrow> trust_state" where
  "restrict_to_friends st = st\<lparr>ts_access := Friends\<rparr>"

definition allow_account :: "trust_state \<Rightarrow> bytes \<Rightarrow> trust_state" where
  "allow_account st fp =
     (case ts_access st of
        Accounts s \<Rightarrow> st\<lparr>ts_access := Accounts (insert fp s)\<rparr>
      | _ \<Rightarrow> st\<lparr>ts_access := Accounts {fp}\<rparr>)"

definition deny_account :: "trust_state \<Rightarrow> bytes \<Rightarrow> trust_state" where
  "deny_account st fp = (case ts_access st of Accounts s \<Rightarrow> st\<lparr>ts_access := Accounts (s - {fp})\<rparr> | _ \<Rightarrow> st)"

definition set_access_policy :: "trust_state \<Rightarrow> access_policy \<Rightarrow> trust_state" where
  "set_access_policy st p = st\<lparr>ts_access := p\<rparr>"

definition open_access :: "trust_state \<Rightarrow> trust_state" where
  "open_access st = st\<lparr>ts_access := Open\<rparr>"

definition seen_account :: "trust_state \<Rightarrow> bytes \<Rightarrow> identity_public option" where
  "seen_account st fp = map_of (ts_seen_accounts st) fp"

definition add_revocation :: "prims \<Rightarrow> trust_state \<Rightarrow> revocation \<Rightarrow> bool \<times> trust_state" where
  "add_revocation P st v =
     (if revocation_verify P v \<noteq> Inr () then (False, st)
      else (True, st\<lparr>ts_revocations := insert (fingerprint P (rv_account v), rv_subject_fp v) (ts_revocations st)\<rparr>))"

definition handle_revocation :: "prims \<Rightarrow> trust_state \<Rightarrow> bytes \<Rightarrow> trust_state" where
  "handle_revocation P st b =
     (case revocation_decode b of
        Inl _ \<Rightarrow> st
      | Inr v \<Rightarrow>
          if revocation_verify P v = Inr ()
          then st\<lparr>ts_revocations := insert (fingerprint P (rv_account v), rv_subject_fp v) (ts_revocations st)\<rparr>
          else st)"

definition chain_revoked :: "prims \<Rightarrow> trust_state \<Rightarrow> bytes \<Rightarrow> identity_chain \<Rightarrow> bool" where
  "chain_revoked P st account_fp chain \<longleftrightarrow>
     list_ex (\<lambda>l. (account_fp, fingerprint P (ce_subject (sc_cert l))) \<in> ts_revocations st) (links chain)"

definition check_predicate :: "prims \<Rightarrow> trust_state \<Rightarrow> resolved \<Rightarrow> identity_chain \<Rightarrow> str option" where
  "check_predicate P st res chain =
     (case cd_access_predicate (ts_descriptor st) of
        None \<Rightarrow> None
      | Some (LinkedToAccount account_fp) \<Rightarrow>
          if rs_account_fp res \<noteq> account_fp
          then Some (ascii ''account does not satisfy the channel access predicate'') else None
      | Some (DerivedFromNamed ancestor_fp) \<Rightarrow>
          if \<not> list_ex (\<lambda>l. fingerprint P (sc_issuer l) = ancestor_fp) (links chain)
          then Some (ascii ''identity does not satisfy the channel access predicate'') else None
      | Some _ \<Rightarrow> Some (ascii ''channel requires a proof this build cannot present''))"

definition handle_identity ::
    "prims \<Rightarrow> u64 \<Rightarrow> trust_state \<Rightarrow> bytes \<Rightarrow> bytes \<Rightarrow> identity_outcome \<times> event list \<times> trust_state" where
  "handle_identity P now st peer_fp b =
     (case presentation_decode b of
        Inl _ \<Rightarrow> (Ignored, [EvError (ascii ''malformed identity presentation'')], st)
      | Inr p \<Rightarrow>
          (case resolve_chain P (ts_contacts st) (ps_chain p) peer_fp now of
             None \<Rightarrow> (Ignored, [EvError (ascii ''identity chain did not bind to peer'')], st)
           | Some res \<Rightarrow>
               if chain_revoked P st (rs_account_fp res) (ps_chain p)
               then (Ignored, [EvError (ascii ''peer presented a revoked device'')], st)
               else if \<not> admits (ts_access st) (rs_account_fp res) (rs_contact res) (rs_friend res)
               then (Rejected, [EvError (ascii ''rejected non-member account '' @ short_hex6 (rs_account_fp res))], st)
               else
                 let st = st\<lparr>ts_seen_accounts := AList.update (rs_account_fp res) (rs_account res) (ts_seen_accounts st)\<rparr>
                 in (case check_predicate P st res (ps_chain p) of
                       Some err \<Rightarrow> (Rejected, [EvError err], st)
                     | None \<Rightarrow>
                         (Allowed, [EvIdentity peer_fp (rs_account_fp res) (ps_username p) (rs_contact res) (rs_friend res)], st))))"

definition handle_group_member_identity ::
    "prims \<Rightarrow> u64 \<Rightarrow> trust_state \<Rightarrow> bytes \<Rightarrow> bytes \<Rightarrow> event list \<times> trust_state" where
  "handle_group_member_identity P now st from b =
     (case presentation_decode b of
        Inl _ \<Rightarrow> ([], st)
      | Inr p \<Rightarrow>
          (case resolve_chain P (ts_contacts st) (ps_chain p) from now of
             None \<Rightarrow> ([], st)
           | Some res \<Rightarrow>
               if chain_revoked P st (rs_account_fp res) (ps_chain p)
               then ([EvError (ascii ''group joiner presented a revoked device'')], st)
               else
                 let st = st\<lparr>ts_seen_accounts := AList.update (rs_account_fp res) (rs_account res) (ts_seen_accounts st)\<rparr>;
                     st = (if admits (ts_access st) (rs_account_fp res) (rs_contact res) (rs_friend res)
                           then st\<lparr>ts_admitted := insert from (ts_admitted st)\<rparr> else st)
                 in ([EvIdentity from (rs_account_fp res) (ps_username p) (rs_contact res) (rs_friend res)], st)))"

text \<open>The gate of \<open>handle_keypackage\<close>: whether a join request is honoured at all.\<close>

definition keypackage_admitted :: "trust_state \<Rightarrow> bytes \<Rightarrow> bool" where
  "keypackage_admitted st from \<longleftrightarrow> is_open (ts_access st) \<or> from \<in> ts_admitted st"

text \<open>The initial value of \<open>approved\<close> in the reader loop of a pairwise chat.\<close>

definition approved_at_start :: "trust_state \<Rightarrow> bool" where
  "approved_at_start st \<longleftrightarrow> is_open (ts_access st) \<and> cd_access_predicate (ts_descriptor st) = None"

section \<open>The gossip clock and linkage\<close>

definition witness_gossip_round :: "trust_state \<Rightarrow> bytes \<Rightarrow> trust_state" where
  "witness_gossip_round st member_fp =
     (if ts_last_advancer st \<noteq> Some member_fp
      then st\<lparr>ts_round := ts_round st + 1, ts_last_advancer := Some member_fp\<rparr> else st)"

definition handle_linkage :: "prims \<Rightarrow> u64 \<Rightarrow> trust_state \<Rightarrow> bytes \<Rightarrow> bytes \<Rightarrow> event list \<times> trust_state" where
  "handle_linkage P now st sender_fp b =
     (let st = witness_gossip_round st sender_fp
      in case linkage_payload_decode b of
           None \<Rightarrow> ([], st)
         | Some lp \<Rightarrow>
             if (case map_of (ts_linkage_seq st) sender_fp of Some prev \<Rightarrow> lp_seq lp \<le> prev | None \<Rightarrow> False) then ([], st)
             else
               let st = st\<lparr>ts_linkage_seq := AList.update sender_fp (lp_seq lp) (ts_linkage_seq st)\<rparr>;
                   subject = ce_subject (sc_cert (lp_cert lp));
                   subject_ok = (fingerprint P subject = sender_fp);
                   claim = \<lparr>lc_predicate = Grouping (lp_grouping_pub lp), lc_context = ts_context P st\<rparr>;
                   prf = linkage_proof_encode (GroupingCert subject (lp_cert lp) (lp_ctx_sig lp));
                   verdict = (subject_ok \<and> backend_verify P now claim prf = Pass);
                   st = (if verdict
                         then st\<lparr>ts_groupings_seen :=
                                AList.update (lp_grouping_pub lp)
                                  (List.insert sender_fp (case map_of (ts_groupings_seen st) (lp_grouping_pub lp) of
                                     None \<Rightarrow> [] | Some ls \<Rightarrow> ls))
                                  (ts_groupings_seen st)\<rparr>
                         else st)
               in ([EvLinkage sender_fp (lp_grouping_pub lp) verdict], st))"

definition sybil_estimate :: "trust_state \<Rightarrow> sybil_count" where
  "sybil_estimate st =
     (let grouped = set (concat (map snd (ts_groupings_seen st)));
          accounts = set (List.map_filter (\<lambda>(_, rec). nr_account_fp rec) (ts_names st));
          isolated = length (filter (\<lambda>(fp, rec). nr_account_fp rec = None \<and> fp \<notin> grouped) (ts_names st));
          distinct_accounts = card accounts;
          distinct_groupings = length (ts_groupings_seen st)
      in \<lparr>distinct_accounts = distinct_accounts, distinct_groupings = distinct_groupings, isolated = isolated,
          min_distinct_people = distinct_accounts + distinct_groupings + isolated\<rparr>)"

section \<open>Vouches\<close>

definition effective_policy :: "trust_state \<Rightarrow> vouch_policy" where
  "effective_policy st =
     (let p = cd_vouch_policy (ts_descriptor st);
          p = (case ts_user_weighting st of Some w \<Rightarrow> p\<lparr>vp_weighting := w\<rparr> | None \<Rightarrow> p)
      in case ts_user_threshold st of
           None \<Rightarrow> p
         | Some t \<Rightarrow>
             p\<lparr>vp_threshold :=
                 (case (vp_threshold p, t) of
                    (Count a, Count b) \<Rightarrow> if a = - 1 then t else Count (max a b)
                  | (Count a, Percent b) \<Rightarrow> t
                  | (Percent a, Percent b) \<Rightarrow> Percent (max a b)
                  | (Percent a, Count b) \<Rightarrow> t)\<rparr>)"

definition grouping_index :: "trust_state \<Rightarrow> (bytes \<times> bytes) list" where
  "grouping_index st =
     foldl (\<lambda>out (gp, leaves). foldl (\<lambda>out leaf. AList.update leaf gp out) out leaves) [] (ts_groupings_seen st)"

definition relationship_of :: "trust_state \<Rightarrow> identity_public \<Rightarrow> relationship" where
  "relationship_of st voucher =
     (if is_friend (ts_contacts st) voucher then Friend
      else if is_contact (ts_contacts st) voucher then Contact else Stranger)"

definition saturating_sub64 :: "u64 \<Rightarrow> u64 \<Rightarrow> u64" where
  "saturating_sub64 a b = (if b \<le> a then a - b else 0)"

definition voucher_views :: "trust_state \<Rightarrow> bytes \<Rightarrow> voucher_view list" where
  "voucher_views st subject =
     (let cur = ts_round st; gidx = grouping_index st
      in case map_of (ts_vouches st) subject of
           None \<Rightarrow> []
         | Some per \<Rightarrow>
             map (\<lambda>(vf, rec).
                    let prev = (case map_of (ts_voucher_round st) vf of Some r \<Rightarrow> r | None \<Rightarrow> 0)
                    in \<lparr>vv_fp = vf, vv_relationship = relationship_of st (vr_voucher rec),
                        vv_rounds = ucast (saturating_sub64 cur prev),
                        vv_grouping = map_of gidx (vr_sender_fp rec)\<rparr>) per)"

definition compute_vouch_decision :: "trust_state \<Rightarrow> bytes \<Rightarrow> vouch_decision" where
  "compute_vouch_decision st subject = evaluate (voucher_views st subject) (effective_policy st)"

definition record_vouch :: "trust_state \<Rightarrow> bytes \<Rightarrow> bytes \<Rightarrow> vouch_record \<Rightarrow> trust_state option" where
  "record_vouch st subject voucher_fp rec =
     (let per = (case map_of (ts_vouches st) subject of None \<Rightarrow> [] | Some p \<Rightarrow> p)
      in if (case map_of per voucher_fp of Some existing \<Rightarrow> vr_epoch rec \<le> vr_epoch existing | None \<Rightarrow> False)
         then None
         else Some (st\<lparr>ts_vouches := AList.update subject (AList.update voucher_fp rec per) (ts_vouches st)\<rparr>))"

definition handle_vouch :: "prims \<Rightarrow> trust_state \<Rightarrow> bytes \<Rightarrow> bytes \<Rightarrow> event list \<times> trust_state" where
  "handle_vouch P st sender_fp b =
     (let st = witness_gossip_round st sender_fp
      in case vouch_decode b of
           None \<Rightarrow> ([], st)
         | Some v \<Rightarrow>
             if vo_context v \<noteq> ts_context P st then ([], st)
             else if \<not> vouch_verify P v then ([], st)
             else
               let voucher_fp = fingerprint P (vo_voucher v);
                   subject = target_fp v
               in if voucher_fp = subject then ([], st)
                  else
                    (case record_vouch st subject voucher_fp
                            \<lparr>vr_epoch = vo_epoch v, vr_voucher = vo_voucher v, vr_sender_fp = sender_fp\<rparr> of
                       None \<Rightarrow> ([], st)
                     | Some st \<Rightarrow>
                         let st = st\<lparr>ts_voucher_round := AList.update voucher_fp (ts_round st) (ts_voucher_round st)\<rparr>;
                             d = compute_vouch_decision st subject
                         in ([EvVouch subject (weighted_score d) (vouched d) (inflation_rejected d)], st)))"

definition vouch_for :: "prims \<Rightarrow> u64 \<Rightarrow> identity_key_pair \<Rightarrow> trust_state \<Rightarrow> vouch_target \<Rightarrow> bytes \<times> trust_state" where
  "vouch_for P now identity st target =
     (let v = sign_vouch P identity target (ts_context P st) now now;
          st = (if target \<in> set (ts_my_vouches st) then st else st\<lparr>ts_my_vouches := ts_my_vouches st @ [target]\<rparr>)
      in (vouch_encode v, st))"

definition revoke_vouch :: "prims \<Rightarrow> u64 \<Rightarrow> identity_key_pair \<Rightarrow> trust_state \<Rightarrow> vouch_target \<Rightarrow> bytes \<times> trust_state" where
  "revoke_vouch P now identity st target =
     (let st = st\<lparr>ts_my_vouches := filter (\<lambda>t. t \<noteq> target) (ts_my_vouches st)\<rparr>;
          v = sign_vouch P identity target (ts_context P st) (now + 1) now
      in (vouch_encode v, st))"

definition reassert_my_vouches :: "prims \<Rightarrow> u64 \<Rightarrow> identity_key_pair \<Rightarrow> trust_state \<Rightarrow> bytes list" where
  "reassert_my_vouches P now identity st =
     map (\<lambda>target. vouch_encode (sign_vouch P identity target (ts_context P st) now now)) (ts_my_vouches st)"

section \<open>Names\<close>

definition PRESENCE_RATE_WINDOW_SECS :: u64 where
  "PRESENCE_RATE_WINDOW_SECS = 2"

definition PRESENCE_RATE_BURST :: u32 where
  "PRESENCE_RATE_BURST = 3"

definition presence_record :: "prims \<Rightarrow> u64 \<Rightarrow> trust_state \<Rightarrow> bytes \<Rightarrow> name_presence \<Rightarrow> (name_record \<times> bytes) option" where
  "presence_record P now st attributed_fp np =
     (case np of
        BareName s label \<Rightarrow>
          Some (\<lparr>nr_label = label, nr_tier = Bare, nr_seq = s, nr_account_fp = None\<rparr>, attributed_fp)
      | LinkedName _ _ ctx _ \<Rightarrow>
          (case verify_linked P np now of
             None \<Rightarrow> None
           | Some v \<Rightarrow>
               if ctx \<noteq> ts_context P st then None
               else if (vn_account_fp v, vn_device_fp v) \<in> ts_revocations st then None
               else Some (\<lparr>nr_label = vn_label v, nr_tier = Linked, nr_seq = vn_seq v, nr_account_fp = Some (vn_account_fp v)\<rparr>,
                          vn_device_fp v)))"

definition rate_admit :: "u64 \<Rightarrow> trust_state \<Rightarrow> bytes \<Rightarrow> bool \<times> trust_state" where
  "rate_admit now st key =
     (let e = (case map_of (ts_presence_rate st) key of None \<Rightarrow> (now, 0) | Some e \<Rightarrow> e);
          e = (if saturating_sub64 now (fst e) \<ge> PRESENCE_RATE_WINDOW_SECS then (now, 0) else e)
      in if snd e \<ge> PRESENCE_RATE_BURST
         then (False, st\<lparr>ts_presence_rate := AList.update key e (ts_presence_rate st)\<rparr>)
         else (True, st\<lparr>ts_presence_rate := AList.update key (fst e, snd e + 1) (ts_presence_rate st)\<rparr>))"

text \<open>Decimal digits of a score, with the sign of a negative one.\<close>

fun decimal :: "nat \<Rightarrow> str" where
  "decimal n = (if n < 10 then [of_nat (48 + n)] else decimal (n div 10) @ [of_nat (48 + n mod 10)])"

declare decimal.simps [simp del]

definition show_int :: "int \<Rightarrow> str" where
  "show_int i = (if i < 0 then 0x2D # decimal (nat (- i)) else decimal (nat i))"

definition vouch_badge_text :: "int \<Rightarrow> str" where
  "vouch_badge_text score = [0xE2, 0x9C, 0xB3] @ ascii '' vouched '' @ [0xC2, 0xB7] @ ascii '' '' @ show_int score"

definition vouch_standing :: "trust_state \<Rightarrow> bytes \<Rightarrow> name_record \<Rightarrow> bool \<times> str option" where
  "vouch_standing st key rec =
     (let d = compute_vouch_decision st key;
          d = (if \<not> vouched d
               then (case nr_account_fp rec of
                       Some acct \<Rightarrow> let da = compute_vouch_decision st acct in if vouched da then da else d
                     | None \<Rightarrow> d)
               else d)
      in if vouched d then (True, Some (vouch_badge_text (weighted_score d))) else (False, None))"

definition effective_trust :: "trust_state \<Rightarrow> name_trust_policy" where
  "effective_trust st =
     (case ts_name_override st of
        Some local \<Rightarrow> max_strictness (cd_name_trust_policy (ts_descriptor st)) local
      | None \<Rightarrow> cd_name_trust_policy (ts_descriptor st))"

definition handle_presence ::
    "(str \<Rightarrow> code_points) \<Rightarrow> (code_points \<Rightarrow> code_points) \<Rightarrow> prims \<Rightarrow> u64 \<Rightarrow> trust_state \<Rightarrow> bytes \<Rightarrow> bytes \<Rightarrow> event list \<times> trust_state" where
  "handle_presence nfkc lower P now st attributed_fp b =
     (case np_decode b of
        Inl _ \<Rightarrow> ([], st)
      | Inr np \<Rightarrow>
          (case presence_record P now st attributed_fp np of
             None \<Rightarrow> ([], st)
           | Some (rec, key) \<Rightarrow>
               if (case map_of (ts_names st) key of Some existing \<Rightarrow> nr_seq rec \<le> nr_seq existing | None \<Rightarrow> False) then ([], st)
               else
                 (case rate_admit now st key of
                    (False, st) \<Rightarrow> ([], st)
                  | (True, st) \<Rightarrow>
                      let st = st\<lparr>ts_names := AList.update key rec (ts_names st)\<rparr>;
                          isolated = (nr_account_fp rec = None \<and> \<not> list_ex (\<lambda>(_, s). key \<in> set s) (ts_groupings_seen st));
                          (vouched, badge) = vouch_standing st key rec;
                          r = resolve_render nfkc lower key rec (ts_names st) (effective_trust st) (short_hex6 key) isolated
                                (cd_amplify_isolated (ts_descriptor st)) vouched badge
                      in ([EvName key (nr_account_fp rec) (rn_label r) (rn_tier r) (nr_seq rec) (rn_caveat r) (rn_safety_number r)], st))))"

definition name_changed_note :: str where
  "name_changed_note = ascii ''this peer'' @ [0x27] @ ascii ''s name changed '' @ [0xE2, 0x80, 0x94] @ ascii '' awaiting confirmation''"

definition reconcile_name_tag :: "prims \<Rightarrow> trust_state \<Rightarrow> bytes \<Rightarrow> bytes \<Rightarrow> event list \<times> trust_state" where
  "reconcile_name_tag P st sender tag =
     (case map_of (ts_names st) sender of
        None \<Rightarrow> ([], st)
      | Some rec \<Rightarrow>
          if name_id_tag P (nr_label rec) (ts_context P st) = tag then ([], st)
          else ([EvName sender (nr_account_fp rec) None (nr_tier rec) (nr_seq rec) (Some name_changed_note) (short_hex6 sender)],
                st\<lparr>ts_names := AList.delete sender (ts_names st)\<rparr>))"

end
