(* ===== verification/TrustRun.thy ===== *)
theory TrustRun
  imports Trust
begin

text \<open>
  What the trust handlers guarantee: which identities are admitted, and that everything the
  trust state records is backed by evidence that was received and verified. The last section
  states where admission, revocation and the vouch ledger fall short of their documentation.
\<close>

section \<open>Admission\<close>

definition satisfies :: "prims \<Rightarrow> predicate option \<Rightarrow> identity_public \<Rightarrow> identity_chain \<Rightarrow> bool" where
  "satisfies P p account chain \<longleftrightarrow>
     (case p of
        None \<Rightarrow> True
      | Some (LinkedToAccount fp) \<Rightarrow> fingerprint P account = fp
      | Some (DerivedFromNamed fp) \<Rightarrow> (\<exists>l\<in>set (links chain). fingerprint P (sc_issuer l) = fp)
      | Some _ \<Rightarrow> False)"

text \<open>The account a peer is admitted as: the evidence the pairwise access gate asks for.\<close>

definition admitted_as :: "prims \<Rightarrow> u64 \<Rightarrow> trust_state \<Rightarrow> bytes \<Rightarrow> identity_chain \<Rightarrow> identity_public \<Rightarrow> bool" where
  "admitted_as P now st fp chain account \<longleftrightarrow>
     (\<exists>leaf. links chain \<noteq> [] \<and> certified_path P now account (links chain) leaf \<and> fingerprint P leaf = fp) \<and>
     (\<forall>l\<in>set (links chain). (fingerprint P account, fingerprint P (ce_subject (sc_cert l))) \<notin> ts_revocations st) \<and>
     admits (ts_access st) (fingerprint P account) (is_contact (ts_contacts st) account) (is_friend (ts_contacts st) account)"

lemma chain_revoked_iff:
  "chain_revoked P st a chain \<longleftrightarrow> (\<exists>l\<in>set (links chain). (a, fingerprint P (ce_subject (sc_cert l))) \<in> ts_revocations st)"
  by (simp add: chain_revoked_def list_ex_iff)

lemma check_predicate_iff:
  "rs_account_fp res = fingerprint P (rs_account res) \<Longrightarrow>
     check_predicate P st res chain = None \<longleftrightarrow> satisfies P (cd_access_predicate (ts_descriptor st)) (rs_account res) chain"
  by (auto simp: check_predicate_def satisfies_def list_ex_iff split: option.splits predicate.splits)

lemma resolved_admitted:
  assumes "resolve_chain P (ts_contacts st) chain fp now = Some res"
  shows "admitted_as P now st fp chain a \<longleftrightarrow>
    a = rs_account res \<and> \<not> chain_revoked P st (rs_account_fp res) chain \<and>
    admits (ts_access st) (rs_account_fp res) (rs_contact res) (rs_friend res)"
proof -
  obtain leaf where *: "links chain \<noteq> []" "certified_path P now (rs_account res) (links chain) leaf" "fingerprint P leaf = fp"
      "rs_account_fp res = fingerprint P (rs_account res)" "rs_contact res = is_contact (ts_contacts st) (rs_account res)"
      "rs_friend res = is_friend (ts_contacts st) (rs_account res)"
    using iffD1[OF resolve_chain_exact assms] by blast
  have root: "b = rs_account res" if "certified_path P now b (links chain) x" for b x
    using that *(1,2) certified_path_root by (cases "links chain") (blast, metis)
  have "admitted_as P now st fp chain a \<longleftrightarrow> a = rs_account res \<and> admitted_as P now st fp chain (rs_account res)"
    unfolding admitted_as_def using root by blast
  also have "admitted_as P now st fp chain (rs_account res) \<longleftrightarrow>
      (\<forall>l\<in>set (links chain). (rs_account_fp res, fingerprint P (ce_subject (sc_cert l))) \<notin> ts_revocations st) \<and>
      admits (ts_access st) (rs_account_fp res) (rs_contact res) (rs_friend res)"
    unfolding admitted_as_def *(4-6) using *(1-3) by blast
  finally show ?thesis unfolding chain_revoked_iff by simp
qed

lemma unresolved_not_admitted:
  assumes "resolve_chain P (ts_contacts st) chain fp now = None"
  shows "\<not> admitted_as P now st fp chain a"
proof
  assume "admitted_as P now st fp chain a"
  then obtain leaf where "links chain \<noteq> []" "certified_path P now a (links chain) leaf" "fingerprint P leaf = fp"
    unfolding admitted_as_def by blast
  then have "resolve_chain P (ts_contacts st) chain fp now =
      Some \<lparr>rs_account = a, rs_account_fp = fingerprint P a, rs_leaf_fp = fp,
            rs_contact = is_contact (ts_contacts st) a, rs_friend = is_friend (ts_contacts st) a\<rparr>"
    by (intro iffD2[OF resolve_chain_exact]) (simp del: certified_path.simps, blast)
  with assms show False by simp
qed

text \<open>
  C7. The pairwise gate: a presented identity opens the channel exactly when it parses, its
  chain certifies the very device the handshake authenticated, no link of it is revoked by its
  account, the access policy admits that account and the access predicate of the chat holds.
\<close>

theorem identity_allowed_exact:
  "fst (handle_identity P now st peer_fp b) = Allowed \<longleftrightarrow>
     (\<exists>p a. presentation_decode b = Inr p \<and> admitted_as P now st peer_fp (ps_chain p) a \<and>
        satisfies P (cd_access_predicate (ts_descriptor st)) a (ps_chain p))"
proof (cases "presentation_decode b")
  case (Inr p)
  show ?thesis
  proof (cases "resolve_chain P (ts_contacts st) (ps_chain p) peer_fp now")
    case None
    then show ?thesis using Inr unresolved_not_admitted[OF None] by (simp add: handle_identity_def)
  next
    case (Some res)
    have "rs_account_fp res = fingerprint P (rs_account res)" using iffD1[OF resolve_chain_exact Some] by blast
    then show ?thesis using Inr Some
      by (auto simp: handle_identity_def resolved_admitted[OF Some] Let_def check_predicate_iff[symmetric] check_predicate_def
          split: option.splits if_splits predicate.splits)
  qed
qed (simp add: handle_identity_def)

text \<open>
  C30. The group gate does not look at the access predicate: whatever the predicate of the
  chat, the same joiners are recorded as admitted and the same join requests are honoured, and
  with an open access policy every join request is honoured, also from a peer that presented
  nothing.
\<close>

theorem group_gate_ignores_predicate:
  "let st' = st\<lparr>ts_descriptor := (ts_descriptor st)\<lparr>cd_access_predicate := p\<rparr>\<rparr>
   in ts_admitted (snd (handle_group_member_identity P now st' from b)) =
        ts_admitted (snd (handle_group_member_identity P now st from b)) \<and>
      keypackage_admitted st' from = keypackage_admitted st from \<and>
      keypackage_admitted (open_access st') from"
  by (simp add: handle_group_member_identity_def keypackage_admitted_def open_access_def is_open_def chain_revoked_def
      Let_def split: sum.splits option.splits)

section \<open>Everything recorded is backed by received evidence\<close>

datatype trust_frame = FIdentity | FGroupIdentity | FRevocation | FLinkage | FVouch | FPresence | FNameTag

text \<open>A received frame: the time, its kind, the authenticated sender and the payload.\<close>

type_synonym trust_input = "u64 \<times> trust_frame \<times> bytes \<times> bytes"

fun trust_step ::
    "(str \<Rightarrow> code_points) \<Rightarrow> (code_points \<Rightarrow> code_points) \<Rightarrow> prims \<Rightarrow> trust_state \<Rightarrow> trust_input \<Rightarrow> trust_state" where
  "trust_step nfkc lower P st (now, FIdentity, from, b) = snd (snd (handle_identity P now st from b))"
| "trust_step nfkc lower P st (now, FGroupIdentity, from, b) = snd (handle_group_member_identity P now st from b)"
| "trust_step nfkc lower P st (now, FRevocation, from, b) = handle_revocation P st b"
| "trust_step nfkc lower P st (now, FLinkage, from, b) = snd (handle_linkage P now st from b)"
| "trust_step nfkc lower P st (now, FVouch, from, b) = snd (handle_vouch P st from b)"
| "trust_step nfkc lower P st (now, FPresence, from, b) = snd (handle_presence nfkc lower P now st from b)"
| "trust_step nfkc lower P st (now, FNameTag, from, b) = snd (reconcile_name_tag P st from b)"

text \<open>Frames from the network in any order, interleaved with the user's changes of the access policy and the contacts.\<close>

inductive trust_run ::
    "(str \<Rightarrow> code_points) \<Rightarrow> (code_points \<Rightarrow> code_points) \<Rightarrow> prims \<Rightarrow> trust_state \<Rightarrow> trust_input set \<Rightarrow> trust_state \<Rightarrow> bool"
  for nfkc lower P st0 where
  run_start: "trust_run nfkc lower P st0 {} st0"
| run_frame: "trust_run nfkc lower P st0 H st \<Longrightarrow> trust_run nfkc lower P st0 (insert i H) (trust_step nfkc lower P st i)"
| run_policy: "trust_run nfkc lower P st0 H st \<Longrightarrow> trust_run nfkc lower P st0 H (set_access_policy st p)"
| run_contacts: "trust_run nfkc lower P st0 H st \<Longrightarrow> trust_run nfkc lower P st0 H (st\<lparr>ts_contacts := cs\<rparr>)"

definition fresh :: "trust_state \<Rightarrow> bool" where
  "fresh st \<longleftrightarrow> ts_revocations st = {} \<and> ts_seen_accounts st = [] \<and> ts_admitted st = {} \<and> ts_names st = [] \<and>
     ts_groupings_seen st = [] \<and> ts_vouches st = []"

definition revocation_evidence :: "prims \<Rightarrow> trust_input set \<Rightarrow> bytes \<Rightarrow> bytes \<Rightarrow> bool" where
  "revocation_evidence P H a s \<longleftrightarrow>
     (\<exists>now from b v. (now, FRevocation, from, b) \<in> H \<and> revocation_decode b = Inr v \<and> revocation_verify P v = Inr () \<and>
        fingerprint P (rv_account v) = a \<and> rv_subject_fp v = s)"

definition member_evidence :: "prims \<Rightarrow> trust_input set \<Rightarrow> bytes \<Rightarrow> bool" where
  "member_evidence P H fp \<longleftrightarrow>
     (\<exists>now b p a leaf. (now, FGroupIdentity, fp, b) \<in> H \<and> presentation_decode b = Inr p \<and> links (ps_chain p) \<noteq> [] \<and>
        certified_path P now a (links (ps_chain p)) leaf \<and> fingerprint P leaf = fp)"

definition grouping_evidence :: "prims \<Rightarrow> bytes \<Rightarrow> trust_input set \<Rightarrow> bytes \<Rightarrow> bytes \<Rightarrow> bool" where
  "grouping_evidence P ctx H g leaf \<longleftrightarrow>
     (\<exists>now b lp. (now, FLinkage, leaf, b) \<in> H \<and> linkage_payload_decode b = Some lp \<and> lp_grouping_pub lp = g \<and>
        fingerprint P (ce_subject (sc_cert (lp_cert lp))) = leaf \<and>
        backend_verify P now \<lparr>lc_predicate = Grouping g, lc_context = ctx\<rparr>
          (linkage_proof_encode (GroupingCert (ce_subject (sc_cert (lp_cert lp))) (lp_cert lp) (lp_ctx_sig lp))) = Pass)"

definition vouch_evidence :: "prims \<Rightarrow> bytes \<Rightarrow> trust_input set \<Rightarrow> bytes \<Rightarrow> bytes \<Rightarrow> vouch_record \<Rightarrow> bool" where
  "vouch_evidence P ctx H subject vf rec \<longleftrightarrow>
     (\<exists>now b v. (now, FVouch, vr_sender_fp rec, b) \<in> H \<and> vouch_decode b = Some v \<and> vouch_verify P v \<and> vo_context v = ctx \<and>
        target_fp v = subject \<and> fingerprint P (vo_voucher v) = vf \<and> vf \<noteq> subject \<and>
        vr_voucher rec = vo_voucher v \<and> vr_epoch rec = vo_epoch v)"

definition name_evidence :: "prims \<Rightarrow> bytes \<Rightarrow> trust_input set \<Rightarrow> bytes \<Rightarrow> name_record \<Rightarrow> bool" where
  "name_evidence P ctx H key rec \<longleftrightarrow>
     (\<exists>now from b s p sig a leaf. (now, FPresence, from, b) \<in> H \<and> np_decode b = Inr (LinkedName s p ctx sig) \<and> nr_tier rec = Linked \<and>
        links (ps_chain p) \<noteq> [] \<and> certified_path P now a (links (ps_chain p)) leaf \<and> ps_username p = Some (nr_label rec) \<and>
        id_verify P leaf (sign_input s (nr_label rec) ctx) sig = Inr () \<and> nr_account_fp rec = Some (fingerprint P a) \<and>
        key = fingerprint P leaf \<and> nr_seq rec = s) \<or>
     (\<exists>now b. (now, FPresence, key, b) \<in> H \<and> np_decode b = Inr (BareName (nr_seq rec) (nr_label rec)) \<and>
        nr_tier rec = Bare \<and> nr_account_fp rec = None)"

definition backed :: "prims \<Rightarrow> trust_input set \<Rightarrow> trust_state \<Rightarrow> bool" where
  "backed P H st \<longleftrightarrow>
     (\<forall>(a, s) \<in> ts_revocations st. revocation_evidence P H a s) \<and>
     (\<forall>fp k. map_of (ts_seen_accounts st) fp = Some k \<longrightarrow> fingerprint P k = fp) \<and>
     (\<forall>fp \<in> ts_admitted st. member_evidence P H fp) \<and>
     (\<forall>g ls. map_of (ts_groupings_seen st) g = Some ls \<longrightarrow> (\<forall>leaf\<in>set ls. grouping_evidence P (ts_context P st) H g leaf)) \<and>
     (\<forall>subject per vf rec. map_of (ts_vouches st) subject = Some per \<longrightarrow> map_of per vf = Some rec \<longrightarrow>
        vouch_evidence P (ts_context P st) H subject vf rec) \<and>
     (\<forall>key rec. map_of (ts_names st) key = Some rec \<longrightarrow> name_evidence P (ts_context P st) H key rec)"

lemma ts_context_updates [simp]:
  "ts_context P (st\<lparr>ts_contacts := cs\<rparr>) = ts_context P st"
  "ts_context P (st\<lparr>ts_access := a\<rparr>) = ts_context P st"
  "ts_context P (st\<lparr>ts_revocations := r\<rparr>) = ts_context P st"
  "ts_context P (st\<lparr>ts_seen_accounts := sa\<rparr>) = ts_context P st"
  "ts_context P (st\<lparr>ts_admitted := ad\<rparr>) = ts_context P st"
  "ts_context P (st\<lparr>ts_names := ns\<rparr>) = ts_context P st"
  "ts_context P (st\<lparr>ts_presence_rate := pr\<rparr>) = ts_context P st"
  "ts_context P (st\<lparr>ts_groupings_seen := gs\<rparr>) = ts_context P st"
  "ts_context P (st\<lparr>ts_linkage_seq := q\<rparr>) = ts_context P st"
  "ts_context P (st\<lparr>ts_vouches := vs\<rparr>) = ts_context P st"
  "ts_context P (st\<lparr>ts_round := n\<rparr>) = ts_context P st"
  "ts_context P (st\<lparr>ts_voucher_round := vr\<rparr>) = ts_context P st"
  "ts_context P (st\<lparr>ts_last_advancer := la\<rparr>) = ts_context P st"
  by (simp_all add: ts_context_def)

lemma backed_unrelated [simp]:
  "backed P H (st\<lparr>ts_contacts := cs\<rparr>) = backed P H st"
  "backed P H (st\<lparr>ts_access := a\<rparr>) = backed P H st"
  "backed P H (st\<lparr>ts_presence_rate := pr\<rparr>) = backed P H st"
  "backed P H (st\<lparr>ts_linkage_seq := q\<rparr>) = backed P H st"
  "backed P H (st\<lparr>ts_round := n\<rparr>) = backed P H st"
  "backed P H (st\<lparr>ts_voucher_round := vr\<rparr>) = backed P H st"
  "backed P H (st\<lparr>ts_last_advancer := la\<rparr>) = backed P H st"
  by (simp_all add: backed_def)

lemma backed_updates:
  "backed P H st \<Longrightarrow> revocation_evidence P H a s \<Longrightarrow> backed P H (st\<lparr>ts_revocations := insert (a, s) (ts_revocations st)\<rparr>)"
  "backed P H st \<Longrightarrow> fingerprint P k = fp \<Longrightarrow> backed P H (st\<lparr>ts_seen_accounts := AList.update fp k (ts_seen_accounts st)\<rparr>)"
  "backed P H st \<Longrightarrow> member_evidence P H fp \<Longrightarrow> backed P H (st\<lparr>ts_admitted := insert fp (ts_admitted st)\<rparr>)"
  "backed P H st \<Longrightarrow> name_evidence P (ts_context P st) H key rec \<Longrightarrow>
     backed P H (st\<lparr>ts_names := AList.update key rec (ts_names st)\<rparr>)"
  "backed P H st \<Longrightarrow> backed P H (st\<lparr>ts_names := AList.delete key (ts_names st)\<rparr>)"
  by (simp_all add: backed_def update_conv' delete_conv' restrict_map_def)

lemma backed_grouping:
  assumes "backed P H st" "grouping_evidence P (ts_context P st) H g leaf"
  shows "backed P H (st\<lparr>ts_groupings_seen := AList.update g (List.insert leaf
    (case map_of (ts_groupings_seen st) g of None \<Rightarrow> [] | Some ls \<Rightarrow> ls)) (ts_groupings_seen st)\<rparr>)"
  using assms by (cases "map_of (ts_groupings_seen st) g") (auto simp: backed_def update_conv')

lemma backed_vouch:
  assumes "backed P H st" "vouch_evidence P (ts_context P st) H subject vf rec" "record_vouch st subject vf rec = Some st'"
  shows "backed P H st'"
  using assms by (auto simp: backed_def record_vouch_def update_conv' Let_def split: option.splits if_splits)

lemma backed_mono:
  assumes "backed P H st" "H \<subseteq> H'"
  shows "backed P H' st"
proof -
  have "revocation_evidence P H a s \<Longrightarrow> revocation_evidence P H' a s"
    "member_evidence P H fp \<Longrightarrow> member_evidence P H' fp"
    "grouping_evidence P ctx H g leaf \<Longrightarrow> grouping_evidence P ctx H' g leaf"
    "vouch_evidence P ctx H subject vf vr \<Longrightarrow> vouch_evidence P ctx H' subject vf vr"
    "name_evidence P ctx H key rec \<Longrightarrow> name_evidence P ctx H' key rec" for a s fp ctx g leaf subject vf vr key rec
    unfolding revocation_evidence_def member_evidence_def grouping_evidence_def vouch_evidence_def name_evidence_def
    using subsetD[OF assms(2)] by blast+
  then show ?thesis using assms(1) unfolding backed_def by (simp add: split_beta)
qed

lemma resolved_fingerprint: "resolve_chain P cs chain fp now = Some res \<Longrightarrow> rs_account_fp res = fingerprint P (rs_account res)"
  unfolding resolve_chain_exact by blast

lemma identity_backed:
  assumes "backed P H st"
  shows "backed P H (snd (snd (handle_identity P now st from b)))"
  using assms by (auto simp: handle_identity_def Let_def backed_updates resolved_fingerprint split: sum.split option.split)

lemma group_identity_backed:
  assumes "backed P H st" "(now, FGroupIdentity, from, b) \<in> H"
  shows "backed P H (snd (handle_group_member_identity P now st from b))"
proof -
  have ev: "member_evidence P H from"
    if "presentation_decode b = Inr p" "resolve_chain P (ts_contacts st) (ps_chain p) from now = Some res" for p res
    using that(1) assms(2) iffD1[OF resolve_chain_exact that(2)] unfolding member_evidence_def by blast
  have seen: "backed P H (st\<lparr>ts_seen_accounts := AList.update (fingerprint P k) k (ts_seen_accounts st)\<rparr>)" for k
    using assms(1) by (simp add: backed_updates)
  show ?thesis
    using assms(1) seen backed_updates(3)[OF seen ev]
    by (auto simp: handle_group_member_identity_def Let_def resolved_fingerprint split: sum.split option.split)
qed

lemma revocation_backed:
  assumes "backed P H st" "(now, FRevocation, from, b) \<in> H"
  shows "backed P H (handle_revocation P st b)"
proof -
  have "revocation_evidence P H (fingerprint P (rv_account v)) (rv_subject_fp v)"
    if "revocation_decode b = Inr v" "revocation_verify P v = Inr ()" for v
    unfolding revocation_evidence_def using that assms(2) by blast
  then show ?thesis using assms(1) by (auto simp: handle_revocation_def backed_updates split: sum.split)
qed

lemma witness_backed [simp]: "backed P H (witness_gossip_round st fp) = backed P H st"
  by (simp add: witness_gossip_round_def)

lemma witness_context [simp]: "ts_context P (witness_gossip_round st fp) = ts_context P st"
  by (simp add: witness_gossip_round_def)

lemma linkage_backed:
  assumes "backed P H st" "(now, FLinkage, from, b) \<in> H"
  shows "backed P H (snd (handle_linkage P now st from b))"
proof (cases "linkage_payload_decode b")
  case (Some lp)
  let ?s = "ce_subject (sc_cert (lp_cert lp))"
  have ev: "grouping_evidence P (ts_context P st) H (lp_grouping_pub lp) from"
    if "fingerprint P ?s = from" "backend_verify P now \<lparr>lc_predicate = Grouping (lp_grouping_pub lp), lc_context = ts_context P st\<rparr>
          (linkage_proof_encode (GroupingCert ?s (lp_cert lp) (lp_ctx_sig lp))) = Pass"
    unfolding grouping_evidence_def using Some that assms(2) by blast
  define st' where "st' = (witness_gossip_round st from)\<lparr>ts_linkage_seq :=
    AList.update from (lp_seq lp) (ts_linkage_seq (witness_gossip_round st from))\<rparr>"
  have st': "backed P H st'" "ts_context P st' = ts_context P st" using assms(1) by (simp_all add: st'_def)
  then show ?thesis using Some ev backed_grouping[OF st'(1), unfolded st'(2)] assms(1)
    by (simp add: handle_linkage_def Let_def flip: st'_def)
qed (simp add: handle_linkage_def assms)

lemma vouch_backed:
  assumes "backed P H st" "(now, FVouch, from, b) \<in> H"
  shows "backed P H (snd (handle_vouch P st from b))"
proof (cases "vouch_decode b")
  case (Some v)
  have ev: "vouch_evidence P (ts_context P st) H (target_fp v) (fingerprint P (vo_voucher v))
      \<lparr>vr_epoch = vo_epoch v, vr_voucher = vo_voucher v, vr_sender_fp = from\<rparr>"
    if "vo_context v = ts_context P st" "vouch_verify P v" "fingerprint P (vo_voucher v) \<noteq> target_fp v"
    unfolding vouch_evidence_def using Some that assms(2) by auto
  then show ?thesis using Some assms(1)
    by (auto simp: handle_vouch_def Let_def intro: backed_vouch[where st = "witness_gossip_round st from"] split: option.split)
qed (simp add: handle_vouch_def assms)

lemma presence_record_evidence:
  assumes "np_decode b = Inr np" "presence_record P now st from np = Some (rec, key)" "(now, FPresence, from, b) \<in> H"
  shows "name_evidence P (ts_context P st) H key rec"
proof (cases np)
  case (BareName s label)
  then show ?thesis using assms by (auto simp: presence_record_def name_evidence_def)
next
  case (LinkedName s p ctx sig)
  with assms(2) obtain v where v: "verify_linked P (LinkedName s p ctx sig) now = Some v" "ctx = ts_context P st"
      "rec = \<lparr>nr_label = vn_label v, nr_tier = Linked, nr_seq = vn_seq v, nr_account_fp = Some (vn_account_fp v)\<rparr>" "key = vn_device_fp v"
    by (auto simp: presence_record_def split: option.splits if_splits)
  then show ?thesis unfolding name_evidence_def
    using assms(1,3) LinkedName iffD1[OF verify_linked_iff v(1)] by (simp del: certified_path.simps) blast
qed

lemma rate_admit_backed [simp]:
  "backed P H (snd (rate_admit now st key)) = backed P H st" "ts_context P (snd (rate_admit now st key)) = ts_context P st"
  by (simp_all add: rate_admit_def Let_def)

lemma presence_backed:
  assumes "backed P H st" "(now, FPresence, from, b) \<in> H"
  shows "backed P H (snd (handle_presence nfkc lower P now st from b))"
proof -
  have "backed P H ((snd (rate_admit now st key))\<lparr>ts_names := AList.update key rec (ts_names (snd (rate_admit now st key)))\<rparr>)"
    if "np_decode b = Inr np" "presence_record P now st from np = Some (rec, key)" for np rec key
    by (rule backed_updates(4)) (simp_all add: assms(1) presence_record_evidence[OF that assms(2)])
  then show ?thesis using assms(1)
    by (auto simp: handle_presence_def Let_def split_beta split: sum.split option.split bool.split)
qed

lemma step_backed:
  assumes "backed P H st"
  shows "backed P (insert i H) (trust_step nfkc lower P st i)"
proof -
  have b: "backed P (insert i H) st" by (rule backed_mono[OF assms]) auto
  obtain now k fr d where i: "i = (now, k, fr, d)" by (cases i)
  have m: "(now, k, fr, d) \<in> insert i H" by (simp add: i)
  show ?thesis
  proof (cases k)
    case FNameTag
    then show ?thesis using b i by (simp add: reconcile_name_tag_def backed_updates split: option.split)
  qed (use b m identity_backed[OF b] group_identity_backed[OF b] revocation_backed[OF b] linkage_backed[OF b] vouch_backed[OF b]
      presence_backed[OF b] in \<open>simp_all only: i trust_step.simps\<close>)
qed

lemma step_descriptor: "ts_descriptor (trust_step nfkc lower P st i) = ts_descriptor st"
  by (cases "(nfkc, lower, P, st, i)" rule: trust_step.cases)
    (auto simp: handle_identity_def handle_group_member_identity_def handle_revocation_def handle_linkage_def handle_vouch_def
      handle_presence_def reconcile_name_tag_def witness_gossip_round_def record_vouch_def rate_admit_def Let_def split_beta
      split: sum.split option.splits if_splits prod.splits)

text \<open>
  C3. Whatever frames arrive in whatever order, interleaved with changes of the access policy
  and the contacts, everything the trust state holds is backed by a frame that was received:
  a revocation by one its account signed, an admitted joiner by a chain that certifies its own
  device, a grouping member by its own disclosure that verified in this chat, a ledger entry by
  a vouch of this chat that its voucher signed for another subject, and an account-linked name
  by an announcement the certified device signed for this chat.
\<close>

theorem trust_state_backed:
  assumes "fresh st0" "trust_run nfkc lower P st0 H st"
  shows "backed P H st \<and> ts_context P st = ts_context P st0"
  using assms(2)
proof (induction rule: trust_run.induct)
  case run_start
  then show ?case using assms(1) by (simp add: fresh_def backed_def)
next
  case (run_frame H st i)
  then show ?case using step_backed step_descriptor by (simp add: ts_context_def)
qed (simp_all add: set_access_policy_def)

section \<open>The vouch ledger\<close>

definition vouch_valid :: "prims \<Rightarrow> trust_state \<Rightarrow> vouch \<Rightarrow> bool" where
  "vouch_valid P st v \<longleftrightarrow> vo_context v = ts_context P st \<and> vouch_verify P v \<and> fingerprint P (vo_voucher v) \<noteq> target_fp v"

definition newer :: "trust_state \<Rightarrow> bytes \<Rightarrow> bytes \<Rightarrow> u64 \<Rightarrow> bool" where
  "newer st subject vf e \<longleftrightarrow>
     (case map_of (ts_vouches st) subject of
        None \<Rightarrow> True | Some per \<Rightarrow> (case map_of per vf of None \<Rightarrow> True | Some old \<Rightarrow> vr_epoch old < e))"

lemma witness_fields [simp]:
  "ts_vouches (witness_gossip_round st m) = ts_vouches st"
  "ts_groupings_seen (witness_gossip_round st m) = ts_groupings_seen st"
  "ts_voucher_round (witness_gossip_round st m) = ts_voucher_round st"
  "ts_descriptor (witness_gossip_round st m) = ts_descriptor st"
  "ts_contacts (witness_gossip_round st m) = ts_contacts st"
  "ts_user_weighting (witness_gossip_round st m) = ts_user_weighting st"
  "ts_user_threshold (witness_gossip_round st m) = ts_user_threshold st"
  by (simp_all add: witness_gossip_round_def)

lemma handle_vouch_accepts:
  assumes "vouch_decode b = Some v" "vouch_valid P st v" "newer st (target_fp v) (fingerprint P (vo_voucher v)) (vo_epoch v)"
  shows "snd (handle_vouch P st m b) =
    (let st1 = witness_gossip_round st m; vf = fingerprint P (vo_voucher v)
     in st1\<lparr>ts_vouches := AList.update (target_fp v)
              (AList.update vf \<lparr>vr_epoch = vo_epoch v, vr_voucher = vo_voucher v, vr_sender_fp = m\<rparr>
                (case map_of (ts_vouches st) (target_fp v) of None \<Rightarrow> [] | Some per \<Rightarrow> per)) (ts_vouches st),
            ts_voucher_round := AList.update vf (ts_round st1) (ts_voucher_round st)\<rparr>)"
  using assms by (auto simp: handle_vouch_def vouch_valid_def newer_def record_vouch_def Let_def split: option.splits)

lemma grouping_index_cong: "ts_groupings_seen a = ts_groupings_seen b \<Longrightarrow> grouping_index a = grouping_index b"
  by (simp add: grouping_index_def)

lemma effective_policy_cong:
  "ts_descriptor a = ts_descriptor b \<Longrightarrow> ts_user_weighting a = ts_user_weighting b \<Longrightarrow> ts_user_threshold a = ts_user_threshold b \<Longrightarrow>
     effective_policy a = effective_policy b"
  by (simp add: effective_policy_def)

text \<open>The decision after two vouchers' vouches for a new subject were delivered by \<open>m1\<close> and \<open>m2\<close>.\<close>

lemma two_vouches:
  assumes "vouch_decode b1 = Some v1" "vouch_decode b2 = Some v2" "vouch_valid P st v1" "vouch_valid P st v2"
    and "target_fp v1 = s" "target_fp v2 = s" "map_of (ts_vouches st) s = None"
    and "fingerprint P (vo_voucher v1) \<noteq> fingerprint P (vo_voucher v2)"
    and st2: "st2 = snd (handle_vouch P (snd (handle_vouch P st m1 b1)) m2 b2)"
  shows "effective_policy st2 = effective_policy st"
    "map vv_fp (voucher_views st2 s) = [fingerprint P (vo_voucher v1), fingerprint P (vo_voucher v2)]"
    "map vv_grouping (voucher_views st2 s) = [map_of (grouping_index st) m1, map_of (grouping_index st) m2]"
proof -
  define st1 where "st1 = snd (handle_vouch P st m1 b1)"
  have n1: "newer st (target_fp v1) (fingerprint P (vo_voucher v1)) (vo_epoch v1)" using assms(5,7) by (simp add: newer_def)
  note s1 = handle_vouch_accepts[OF assms(1,3) n1, of m1, folded st1_def]
  have v1: "map_of (ts_vouches st1) s = Some [(fingerprint P (vo_voucher v1), \<lparr>vr_epoch = vo_epoch v1, vr_voucher = vo_voucher v1, vr_sender_fp = m1\<rparr>)]"
    using assms(5,7) by (simp add: s1 Let_def update_conv')
  have f1: "ts_context P st1 = ts_context P st" "ts_groupings_seen st1 = ts_groupings_seen st" "ts_descriptor st1 = ts_descriptor st"
    "ts_user_weighting st1 = ts_user_weighting st" "ts_user_threshold st1 = ts_user_threshold st"
    by (simp_all add: s1 Let_def ts_context_def)
  have "vouch_valid P st1 v2" "newer st1 (target_fp v2) (fingerprint P (vo_voucher v2)) (vo_epoch v2)"
    using assms(4,6,8) v1 f1(1) by (simp_all add: vouch_valid_def newer_def)
  note s2 = handle_vouch_accepts[OF assms(2) this, of m2, folded st2[folded st1_def]]
  have f2: "ts_groupings_seen st2 = ts_groupings_seen st" "ts_descriptor st2 = ts_descriptor st"
    "ts_user_weighting st2 = ts_user_weighting st" "ts_user_threshold st2 = ts_user_threshold st"
    by (simp_all add: s2 Let_def f1)
  have v2: "map_of (ts_vouches st2) s = Some [(fingerprint P (vo_voucher v1), \<lparr>vr_epoch = vo_epoch v1, vr_voucher = vo_voucher v1, vr_sender_fp = m1\<rparr>),
      (fingerprint P (vo_voucher v2), \<lparr>vr_epoch = vo_epoch v2, vr_voucher = vo_voucher v2, vr_sender_fp = m2\<rparr>)]"
    using assms(6,8) v1 by (simp add: s2 Let_def update_conv')
  show "effective_policy st2 = effective_policy st" by (rule effective_policy_cong) (simp_all add: f2)
  show "map vv_fp (voucher_views st2 s) = [fingerprint P (vo_voucher v1), fingerprint P (vo_voucher v2)]"
    "map vv_grouping (voucher_views st2 s) = [map_of (grouping_index st) m1, map_of (grouping_index st) m2]"
    using v2 grouping_index_cong[OF f2(1)] by (simp_all add: voucher_views_def Let_def)
qed

text \<open>
  C32. Who delivers a vouch decides whom it is attributed to: when a third party in some proven
  grouping delivers the valid vouches of two different vouchers for a subject, both honest
  vouchers are flagged as one operator and their weight counts against the subject. The same
  two vouches delivered by members outside every grouping raise no flag.
\<close>

theorem deliverer_frames_vouchers:
  assumes "vouch_decode b1 = Some v1" "vouch_decode b2 = Some v2" "vouch_valid P st v1" "vouch_valid P st v2"
    and "target_fp v1 = s" "target_fp v2 = s" "map_of (ts_vouches st) s = None"
    and "fingerprint P (vo_voucher v1) \<noteq> fingerprint P (vo_voucher v2)"
    and "vp_eligibility (effective_policy st) = AnyLinked"
  shows "let d = compute_vouch_decision (snd (handle_vouch P (snd (handle_vouch P st m1 b1)) m2 b2)) s
    in (map_of (grouping_index st) m1 = Some g \<and> m2 = m1 \<longrightarrow>
          set (flagged d) = {fingerprint P (vo_voucher v1), fingerprint P (vo_voucher v2)} \<and> inflation_rejected d \<and> weighted_score d \<le> 0) \<and>
       (map_of (grouping_index st) m1 = None \<and> map_of (grouping_index st) m2 = None \<longrightarrow>
          flagged d = [] \<and> \<not> inflation_rejected d \<and> 0 \<le> weighted_score d)"
proof -
  let ?st2 = "snd (handle_vouch P (snd (handle_vouch P st m1 b1)) m2 b2)"
  note two = two_vouches[OF assms(1-8) refl, of m1 m2]
  obtain x y where xy: "voucher_views ?st2 s = [x, y]" "vv_fp x = fingerprint P (vo_voucher v1)" "vv_fp y = fingerprint P (vo_voucher v2)"
      "vv_grouping x = map_of (grouping_index st) m1" "vv_grouping y = map_of (grouping_index st) m2"
    using two(2,3) by (auto simp: map_eq_Cons_conv)
  have c: "counted (effective_policy st) [x, y] = [x, y]" using assms(9) by (simp add: counted_def eligible_def)
  have d: "compute_vouch_decision ?st2 s = evaluate [x, y] (effective_policy st)"
    by (simp add: compute_vouch_decision_def two(1) xy(1))
  have k: "caught [x, y] x \<longleftrightarrow> vv_grouping x \<noteq> None \<and> vv_grouping x = vv_grouping y"
    "caught [x, y] y \<longleftrightarrow> vv_grouping y \<noteq> None \<and> vv_grouping x = vv_grouping y"
    by (auto simp: caught_def)
  show ?thesis
    using xy(2-5) evaluate_facts(1-3)[where vs = "[x, y]" and p = "effective_policy st", unfolded c]
      decayed_bounds(1)[of "effective_policy st" x] decayed_bounds(1)[of "effective_policy st" y]
    by (simp add: d Let_def contribution_def k) (auto simp: k)
qed

lemma sign_vouch_sel [simp]:
  "vo_voucher (sign_vouch P kp t ctx e a) = id_public kp" "vo_epoch (sign_vouch P kp t ctx e a) = e"
  "vo_context (sign_vouch P kp t ctx e a) = ctx" "vo_target (sign_vouch P kp t ctx e a) = t"
  by (simp_all add: sign_vouch_def)

text \<open>
  C33. Withdrawing a vouch does not withdraw it at the peers: the frame that \<open>revoke_vouch\<close>
  sends is an ordinary vouch with a higher epoch, and a peer that accepts it lists the voucher
  for the subject as witnessed zero rounds ago.
\<close>

theorem revoked_vouch_is_fresh:
  assumes "dsa_correct P" "me = from_secret_bytes P seed" "ts_context P mine = ts_context P st"
    and "vouch_decode (fst (revoke_vouch P now me mine t)) = Some (sign_vouch P me t (ts_context P mine) (now + 1) now)"
    and "s = target_fp (sign_vouch P me t (ts_context P mine) (now + 1) now)" "fingerprint P (id_public me) \<noteq> s"
    and "newer st s (fingerprint P (id_public me)) (now + 1)"
  shows "\<exists>v\<in>set (voucher_views (snd (handle_vouch P st m (fst (revoke_vouch P now me mine t)))) s).
    vv_fp v = fingerprint P (id_public me) \<and> vv_rounds v = 0"
proof -
  let ?v = "sign_vouch P me t (ts_context P mine) (now + 1) now" and ?b = "fst (revoke_vouch P now me mine t)"
  let ?vf = "fingerprint P (id_public me)"
  have ok: "vouch_valid P st ?v"
    using sign_vouch_verifies[OF assms(1)] assms(2,3,5,6) by (simp add: vouch_valid_def)
  define st' where "st' = snd (handle_vouch P st m ?b)"
  note st' = handle_vouch_accepts[OF assms(4) ok, of m, unfolded sign_vouch_sel, folded assms(5), OF assms(7), folded st'_def]
  obtain per where per: "map_of (ts_vouches st') s = Some (AList.update ?vf \<lparr>vr_epoch = now + 1, vr_voucher = id_public me, vr_sender_fp = m\<rparr> per)"
    by (simp add: st' Let_def update_conv')
  have r: "map_of (ts_voucher_round st') ?vf = Some (ts_round st')" by (simp add: st' Let_def update_conv')
  have "map_of (AList.update ?vf \<lparr>vr_epoch = now + 1, vr_voucher = id_public me, vr_sender_fp = m\<rparr> per) ?vf =
      Some \<lparr>vr_epoch = now + 1, vr_voucher = id_public me, vr_sender_fp = m\<rparr>" by (simp add: update_conv')
  then have "(?vf, \<lparr>vr_epoch = now + 1, vr_voucher = id_public me, vr_sender_fp = m\<rparr>) \<in>
      set (AList.update ?vf \<lparr>vr_epoch = now + 1, vr_voucher = id_public me, vr_sender_fp = m\<rparr> per)" by (rule map_of_SomeD)
  then show ?thesis unfolding st'_def[symmetric] voucher_views_def Let_def per option.case set_map
    by (rule rev_bexI[OF imageI]) (simp add: r saturating_sub64_def)
qed

section \<open>Names under a revoked device\<close>

text \<open>
  C31. A revoked device still lends its account's name: when a link of a chain is revoked but
  the leaf it certified is not, the announcement of that leaf is cached as an account-linked
  name of the account, although the same chain presented as an identity is refused.
\<close>

theorem revoked_link_still_names:
  assumes "dsa_correct P" "me = from_secret_bytes P seed" "belongs_to_account P account chain (id_public me) now"
    and "np_decode b = Inr (np_linked P s chain label (ts_context P st) me)"
    and "presentation_decode b' = Inr \<lparr>ps_chain = chain, ps_username = u\<rparr>"
    and "l \<in> set (links chain)" "(fingerprint P account, fingerprint P (ce_subject (sc_cert l))) \<in> ts_revocations st"
    and "(fingerprint P account, fingerprint P (id_public me)) \<notin> ts_revocations st"
    and "map_of (ts_names st) (fingerprint P (id_public me)) = None"
    and "map_of (ts_presence_rate st) (fingerprint P (id_public me)) = None"
  shows "map_of (ts_names (snd (handle_presence nfkc lower P now st from b))) (fingerprint P (id_public me)) =
      Some \<lparr>nr_label = label, nr_tier = Linked, nr_seq = s, nr_account_fp = Some (fingerprint P account)\<rparr> \<and>
    handle_identity P now st (fingerprint P (id_public me)) b' =
      (Ignored, [EvError (ascii ''peer presented a revoked device'')], st)"
proof -
  let ?key = "fingerprint P (id_public me)"
  obtain p sig where np: "np_linked P s chain label (ts_context P st) me = LinkedName s p (ts_context P st) sig"
    by (simp add: np_linked_def Let_def)
  have "presence_record P now st from (np_linked P s chain label (ts_context P st) me) =
      Some (\<lparr>nr_label = label, nr_tier = Linked, nr_seq = s, nr_account_fp = Some (fingerprint P account)\<rparr>, ?key)"
    using linked_verifies[OF assms(1) assms(3)[unfolded assms(2)], of s label "ts_context P st"] assms(8)
    unfolding assms(2)[symmetric] np by (simp add: presence_record_def)
  then have names: "map_of (ts_names (snd (handle_presence nfkc lower P now st from b))) ?key =
      Some \<lparr>nr_label = label, nr_tier = Linked, nr_seq = s, nr_account_fp = Some (fingerprint P account)\<rparr>"
    using assms(4,9,10) by (simp add: handle_presence_def rate_admit_def PRESENCE_RATE_BURST_def saturating_sub64_def
        PRESENCE_RATE_WINDOW_SECS_def Let_def split_beta update_conv')
  have path: "links chain \<noteq> []" "certified_path P now account (links chain) (id_public me)"
    using assms(3) by (simp_all add: belongs_to_account_def chain_verify_path)
  have "resolve_chain P (ts_contacts st) chain ?key now = Some \<lparr>rs_account = account, rs_account_fp = fingerprint P account,
      rs_leaf_fp = ?key, rs_contact = is_contact (ts_contacts st) account, rs_friend = is_friend (ts_contacts st) account\<rparr>"
    unfolding resolve_chain_exact using path by (simp del: certified_path.simps) blast
  then have "handle_identity P now st ?key b' = (Ignored, [EvError (ascii ''peer presented a revoked device'')], st)"
    using assms(5-7) by (auto simp: handle_identity_def chain_revoked_iff)
  with names show ?thesis by blast
qed

text \<open>
  The estimate of distinct people is not a lower bound: one member with an account-linked name
  who also disclosed a grouping is counted once as an account and once as a grouping.
\<close>

lemma sybil_counts_twice:
  assumes "ts_names st = [(fp, rec)]" "nr_account_fp rec = Some a" "ts_groupings_seen st = [(g, [fp])]"
  shows "min_distinct_people (sybil_estimate st) = 2"
  using assms by (simp add: sybil_estimate_def map_filter_simps)

section \<open>Concrete runs\<close>

definition demo_trust :: trust_state where
  "demo_trust =
     \<lparr>ts_descriptor = demo_descriptor [[0x63]], ts_contacts = [], ts_access = Open, ts_revocations = {}, ts_seen_accounts = [],
      ts_admitted = {}, ts_names = [], ts_presence_rate = [], ts_name_override = None, ts_groupings_seen = [], ts_linkage_seq = [],
      ts_vouches = [], ts_user_weighting = None, ts_user_threshold = None, ts_my_vouches = [], ts_round = 0,
      ts_voucher_round = [], ts_last_advancer = None\<rparr>"

definition demo_vouch :: "byte \<Rightarrow> u64 \<Rightarrow> vouch" where
  "demo_vouch b e = sign_vouch demo_prims (demo_kp b) (VLeaf (replicate 48 0)) (ts_context demo_prims demo_trust) (e + 1) e"

lemma demo_trust_sel [simp]:
  "ts_vouches demo_trust = []" "ts_groupings_seen demo_trust = []" "ts_descriptor demo_trust = demo_descriptor [[0x63]]"
  "ts_user_weighting demo_trust = None" "ts_user_threshold demo_trust = None" "ts_names demo_trust = []"
  "ts_presence_rate demo_trust = []"
  by (simp_all add: demo_trust_def)

lemma demo_vouch_voucher [simp]: "vo_voucher (demo_vouch b e) = id_public (demo_kp b)" "vo_epoch (demo_vouch b e) = e + 1"
  by (simp_all add: demo_vouch_def)

lemma demo_vouch_target [simp]: "target_fp (demo_vouch b e) = replicate 48 0"
  by (simp add: demo_vouch_def target_fp_def)

lemma demo_vouch_decodes: "vouch_decode (vouch_encode (demo_vouch b e)) = Some (demo_vouch b e)"
  by (rule vouch_roundtrip)
    (simp_all add: demo_vouch_def sign_vouch_def vouch_ok_def target_ok_def ts_context_def chat_context_def demo_sha256_def
      vouch_encode_def target_bytes into_vec_def codec_simps wire_size_simps length_bytes_enc)

lemma demo_fp: "fingerprint demo_prims (id_public (demo_kp b)) = replicate 48 (b + 33)"
  by (simp add: fingerprint_def from_secret_bytes_def demo_sha3_def demo_vk_def VK_LEN_def fold_byte_eval)

lemma demo_vouch_valid: "b + 33 \<noteq> 0 \<Longrightarrow> vouch_valid demo_prims (demo_trust\<lparr>ts_groupings_seen := gs\<rparr>) (demo_vouch b e)"
  using sign_vouch_verifies[OF demo_prims_lawful(6)] by (simp add: vouch_valid_def demo_fp demo_vouch_def target_fp_def)

theorem deliverer_frames_vouchers_witness:
  "let st = demo_trust\<lparr>ts_groupings_seen := [([7], [[9]])]\<rparr>;
       d = compute_vouch_decision (snd (handle_vouch demo_prims
             (snd (handle_vouch demo_prims st [9] (vouch_encode (demo_vouch 1 5)))) [9] (vouch_encode (demo_vouch 2 5)))) (replicate 48 0)
   in set (flagged d) = {replicate 48 34, replicate 48 35} \<and> inflation_rejected d"
proof -
  let ?st = "demo_trust\<lparr>ts_groupings_seen := [([7], [[9]])]\<rparr>"
  note framed = deliverer_frames_vouchers[OF demo_vouch_decodes demo_vouch_decodes, of demo_prims ?st 1 5 2 5 "replicate 48 0" "[9]" "[9]" "[7]"]
  show ?thesis
    using framed by (simp add: demo_vouch_valid demo_fp Let_def effective_policy_def
        demo_descriptor_def with_require_anon_def descriptor_new_def policy_default_def grouping_index_def)
qed

theorem trust_state_backed_witness:
  "let i = (5, FVouch, [9], vouch_encode (demo_vouch 1 5)); st = trust_step (\<lambda>_. []) id demo_prims demo_trust i
   in backed demo_prims {i} st \<and> ts_vouches st \<noteq> []"
proof -
  let ?i = "(5, FVouch, [9], vouch_encode (demo_vouch 1 5)) :: trust_input"
  have f: "fresh demo_trust" by (simp add: fresh_def demo_trust_def)
  have v: "vouch_valid demo_prims demo_trust (demo_vouch 1 5)"
    using demo_vouch_valid[of 1 "[]" 5] by (simp add: vouch_valid_def)
  have "ts_vouches (trust_step (\<lambda>_. []) id demo_prims demo_trust ?i) \<noteq> []"
    using handle_vouch_accepts[OF demo_vouch_decodes v] by (simp add: newer_def Let_def)
  moreover have "trust_run (\<lambda>_. []) id demo_prims demo_trust {?i} (trust_step (\<lambda>_. []) id demo_prims demo_trust ?i)"
    by (rule run_frame[OF run_start])
  ultimately show ?thesis using trust_state_backed[OF f] by (simp only: Let_def) blast
qed

theorem revoked_vouch_is_fresh_witness:
  "\<exists>v\<in>set (voucher_views (snd (handle_vouch demo_prims demo_trust [9]
      (fst (revoke_vouch demo_prims 5 (demo_kp 1) demo_trust (VLeaf (replicate 48 0)))))) (replicate 48 0)).
     vv_fp v = replicate 48 34 \<and> vv_rounds v = 0"
proof -
  have b: "fst (revoke_vouch demo_prims 5 (demo_kp 1) demo_trust (VLeaf (replicate 48 0))) = vouch_encode (demo_vouch 1 5)"
    by (simp add: revoke_vouch_def demo_vouch_def ts_context_def)
  show ?thesis
    using revoked_vouch_is_fresh[OF demo_prims_lawful(6) refl, of demo_trust demo_trust 5 "[1]" "VLeaf (replicate 48 0)" "replicate 48 0" "[9]"]
      demo_vouch_decodes[of 1 5, folded b]
    by (simp add: demo_vouch_def demo_fp target_fp_def newer_def)
qed

lemma demo_segment: "belongs_to_account demo_prims (id_public (demo_kp 1))
    \<lparr>links = [cert_issue demo_prims (demo_kp 1) (id_public (demo_kp 2)) [] 0 0, cert_issue demo_prims (demo_kp 2) (id_public (demo_kp 3)) [] 0 0]\<rparr>
    (id_public (demo_kp 3)) 5"
  using issue_link[OF demo_prims_lawful(6), where seed = "[1]" and l = "[]" and f = 0 and e = 0 and now = 5 and sub = "id_public (demo_kp 2)"]
    issue_link[OF demo_prims_lawful(6), where seed = "[2]" and l = "[]" and f = 0 and e = 0 and now = 5 and sub = "id_public (demo_kp 3)"]
  by (simp add: belongs_to_account_def chain_verify_path cert_valid_at_def)

theorem revoked_link_still_names_witness:
  "let st = demo_trust\<lparr>ts_revocations := {(replicate 48 34, replicate 48 35)}\<rparr>;
       chain = \<lparr>links = [cert_issue demo_prims (demo_kp 1) (id_public (demo_kp 2)) [] 0 0,
                        cert_issue demo_prims (demo_kp 2) (id_public (demo_kp 3)) [] 0 0]\<rparr>;
       b = np_encode (np_linked demo_prims 1 chain [0x61] (ts_context demo_prims st) (demo_kp 3));
       b' = presentation_encode \<lparr>ps_chain = chain, ps_username = None\<rparr>
   in map_of (ts_names (snd (handle_presence (\<lambda>_. []) id demo_prims 5 st [9] b))) (replicate 48 36) =
        Some \<lparr>nr_label = [0x61], nr_tier = Linked, nr_seq = 1, nr_account_fp = Some (replicate 48 34)\<rparr> \<and>
      fst (handle_identity demo_prims 5 st (replicate 48 36) b') = Ignored"
proof -
  let ?st = "demo_trust\<lparr>ts_revocations := {(replicate 48 34, replicate 48 35)}\<rparr>"
  let ?chain = "\<lparr>links = [cert_issue demo_prims (demo_kp 1) (id_public (demo_kp 2)) [] 0 0,
    cert_issue demo_prims (demo_kp 2) (id_public (demo_kp 3)) [] 0 0]\<rparr>"
  have np: "np_decode (np_encode (np_linked demo_prims 1 ?chain [0x61] (ts_context demo_prims ?st) (demo_kp 3))) =
      Inr (np_linked demo_prims 1 ?chain [0x61] (ts_context demo_prims ?st) (demo_kp 3))"
    by (rule np_roundtrip) (simp_all add: np_ok_def np_linked_def Let_def presentation_ok_def username_ok_def np_bytes ts_context_def
        chat_context_def demo_sha256_def wire_size_simps presentation_encode_def into_vec_def codec_simps length_bytes_enc)
  have pr: "presentation_decode (presentation_encode \<lparr>ps_chain = ?chain, ps_username = None\<rparr>) = Inr \<lparr>ps_chain = ?chain, ps_username = None\<rparr>"
    by (rule presentation_decodes) (simp_all add: username_ok_def wire_size_simps presentation_encode_def into_vec_def codec_simps length_bytes_enc)
  show ?thesis
    using revoked_link_still_names[OF demo_prims_lawful(6) refl demo_segment np pr, of "hd (links ?chain)" "\<lambda>_. []" id "[9]"]
    by (simp add: demo_fp Let_def)
qed

end
