(* ===== verification/TreeKem.thy ===== *)
theory TreeKem
  imports RatchetKey Account
begin

text \<open>
  TreeKEM group key agreement, \<open>src/crates/crypto/src/treekem.rs\<close>: tree nodes and their
  resolution, key packages, proposals, commits and welcomes with their wire forms and signed
  transcripts, the group state with every operation on it, and the signed group messages.

  Tree positions (\<open>u32\<close> in the code) are natural numbers here: every node that enters a
  group is bounded by \<open>MAX_TREE_ITEMS\<close>. A method on \<open>&mut self\<close> keeps what it changed
  before an error, so an operation returns its result beside the new state. \<open>Panic\<close> is the
  abort of a failed key self-test. Randomness is an argument: \<open>tk_coins\<close> holds what an
  operation draws.
\<close>

section \<open>Nodes\<close>

record node =
  nd_lo :: nat
  nd_span :: nat

definition nd_leaf :: "nat \<Rightarrow> node" where
  "nd_leaf i = \<lparr>nd_lo = i, nd_span = 1\<rparr>"

definition nd_children :: "node \<Rightarrow> (node \<times> node) option" where
  "nd_children n =
     (if nd_span n = 1 then None
      else let h = nd_span n div 2
           in Some (\<lparr>nd_lo = nd_lo n, nd_span = h\<rparr>, \<lparr>nd_lo = nd_lo n + h, nd_span = h\<rparr>))"

definition nd_parent :: "node \<Rightarrow> nat \<Rightarrow> node option" where
  "nd_parent n capacity =
     (if nd_span n \<ge> capacity then None
      else let ps = nd_span n * 2
           in Some \<lparr>nd_lo = nd_lo n - nd_lo n mod ps, nd_span = ps\<rparr>)"

definition nd_sibling :: "node \<Rightarrow> node" where
  "nd_sibling n =
     (if (nd_lo n div nd_span n) mod 2 = 0
      then \<lparr>nd_lo = nd_lo n + nd_span n, nd_span = nd_span n\<rparr>
      else \<lparr>nd_lo = nd_lo n - nd_span n, nd_span = nd_span n\<rparr>)"

definition root_of :: "nat \<Rightarrow> node" where
  "root_of capacity = \<lparr>nd_lo = 0, nd_span = capacity\<rparr>"

text \<open>The loop of \<open>path_to_root\<close>; it starts at a leaf, so the span is never zero.\<close>

function path_from :: "nat \<Rightarrow> node \<Rightarrow> node list" where
  "path_from capacity n =
     n # (case nd_parent n capacity of
            None \<Rightarrow> []
          | Some p \<Rightarrow> if nd_span n = 0 then [] else path_from capacity p)"
  by pat_completeness auto
termination
  by (relation "measure (\<lambda>(c, n). c - nd_span n)") (auto simp: nd_parent_def Let_def split: if_splits)

declare path_from.simps [simp del]

section \<open>Key packages, proposals, commits and welcomes\<close>

datatype tk_error = Panic | Tk crypto_error

abbreviation tk :: "crypto_error + 'a \<Rightarrow> tk_error + 'a" where
  "tk m \<equiv> map_err Tk m"

abbreviation tk_malformed :: "string \<Rightarrow> tk_error + 'a" where
  "tk_malformed s \<equiv> Inl (Tk (Malformed (ascii s)))"

record tk_coins =
  tc_secret :: bytes
  tc_pct :: "node \<Rightarrow> bytes"
  tc_enc :: "node \<Rightarrow> node \<Rightarrow> bytes"
  tc_seed :: bytes

record key_package =
  kp_leaf_public :: ratchet_public
  kp_sig_public :: identity_public
  kp_pop :: bytes

record leaf_key_pair =
  lk_profile :: kem_profile
  lk_secret :: bytes
  lk_sig :: identity_key_pair

datatype proposal =
    PAdd nat ratchet_public identity_public bytes
  | PRemove nat
  | PUpdate nat ratchet_public identity_public bytes bytes

record commit =
  cm_proposals :: "proposal list"
  cm_pub_updates :: "(node \<times> ratchet_public) list"
  cm_path :: "node list"
  cm_ciphertexts :: "(node \<times> node \<times> bytes) list"
  cm_new_capacity :: nat
  cm_sig_update :: "(nat \<times> identity_public \<times> bytes) option"
  cm_auth :: bytes

record welcome_msg =
  wl_capacity :: nat
  wl_public :: "(node \<times> ratchet_public) list"
  wl_occupied :: "bool list"
  wl_epoch :: u32
  wl_your_leaf :: nat
  wl_sig_keys :: "(nat \<times> ratchet_public \<times> identity_public \<times> bytes) list"
  wl_commit :: commit

definition MAX_TREE_ITEMS :: nat where "MAX_TREE_ITEMS = 2 ^ 20"

definition SIG_VK_LEN :: nat where "SIG_VK_LEN = 2592"

section \<open>Transcripts\<close>

definition GROUP_MSG_V1 :: byte where "GROUP_MSG_V1 = 1"
definition GROUP_MSG_V2 :: byte where "GROUP_MSG_V2 = 2"
definition SIG_CONTEXT :: bytes where "SIG_CONTEXT = ascii ''talkrypt-treekem-msg-v2''"
definition POP_CONTEXT :: bytes where "POP_CONTEXT = ascii ''talkrypt-treekem-leaf-pop-v2''"
definition PROMOTE_CONTEXT :: bytes where "PROMOTE_CONTEXT = ascii ''talkrypt-treekem-promote-v1''"
definition CONSENT_CONTEXT :: bytes where "CONSENT_CONTEXT = ascii ''talkrypt-treekem-consent-v1''"
definition PROMO_COMMIT_CONTEXT :: bytes where "PROMO_COMMIT_CONTEXT = ascii ''talkrypt-treekem-promo-commit-v1''"
definition UPDATE_AUTH_CONTEXT :: bytes where "UPDATE_AUTH_CONTEXT = ascii ''talkrypt-treekem-leaf-update-v2''"
definition COMMIT_AUTH_CONTEXT :: bytes where "COMMIT_AUTH_CONTEXT = ascii ''talkrypt-treekem-commit-v1''"
definition HOST_LEAF :: nat where "HOST_LEAF = 0"

definition put_nat32 :: "writer \<Rightarrow> nat \<Rightarrow> writer" where
  "put_nat32 w n = put_u32 w (of_nat n)"

definition promote_transcript :: "u32 \<Rightarrow> nat \<Rightarrow> bytes \<Rightarrow> bytes" where
  "promote_transcript epoch leaf body =
     into_vec (put_bytes (put_nat32 (put_u32 (put_bytes writer_new PROMOTE_CONTEXT) epoch) leaf) body)"

definition consent_transcript :: "u32 \<Rightarrow> nat \<Rightarrow> bytes \<Rightarrow> bytes" where
  "consent_transcript epoch leaf body =
     into_vec (put_bytes (put_nat32 (put_u32 (put_bytes writer_new CONSENT_CONTEXT) epoch) leaf) body)"

definition promo_commit_transcript :: "u32 \<Rightarrow> nat \<Rightarrow> bytes \<Rightarrow> bytes" where
  "promo_commit_transcript epoch leaf body =
     into_vec (put_bytes (put_nat32 (put_u32 (put_bytes writer_new PROMO_COMMIT_CONTEXT) epoch) leaf) body)"

definition pop_transcript :: "identity_public \<Rightarrow> bytes" where
  "pop_transcript sig_public = into_vec (put_bytes (put_bytes writer_new POP_CONTEXT) (sig_vk sig_public))"

definition verify_pop :: "prims \<Rightarrow> identity_public \<Rightarrow> bytes \<Rightarrow> crypto_error + unit" where
  "verify_pop P sig_public pop = map_err (\<lambda>_. BadSignature) (id_verify P sig_public (pop_transcript sig_public) pop)"

definition update_auth_transcript :: "nat \<Rightarrow> ratchet_public \<Rightarrow> identity_public \<Rightarrow> bytes" where
  "update_auth_transcript leaf leaf_public sig_public =
     into_vec (put_bytes (put_bytes (put_nat32 (put_bytes writer_new UPDATE_AUTH_CONTEXT) leaf) (rp_encode leaf_public)) (sig_vk sig_public))"

definition commit_auth_transcript :: "u32 \<Rightarrow> nat \<Rightarrow> bytes \<Rightarrow> bytes" where
  "commit_auth_transcript from_epoch committer_leaf body =
     into_vec (put_bytes (put_nat32 (put_u32 (put_bytes writer_new COMMIT_AUTH_CONTEXT) from_epoch) committer_leaf) body)"

definition sig_transcript :: "u32 \<Rightarrow> nat \<Rightarrow> u32 \<Rightarrow> bytes \<Rightarrow> bytes" where
  "sig_transcript epoch leaf n ct =
     into_vec (put_bytes (put_u32 (put_nat32 (put_u32 (put_bytes writer_new SIG_CONTEXT) epoch) leaf) n) ct)"

section \<open>Wire forms\<close>

definition put_node :: "writer \<Rightarrow> node \<Rightarrow> writer" where
  "put_node w n = put_nat32 (put_nat32 w (nd_lo n)) (nd_span n)"

fun power_of_two :: "nat \<Rightarrow> bool" where
  "power_of_two n = (if n = 0 then False else if n = 1 then True else even n \<and> power_of_two (n div 2))"

declare power_of_two.simps [simp del]

definition get_nat32 :: "reader \<Rightarrow> crypto_error + nat \<times> reader" where
  "get_nat32 r = bind_result (wire (get_u32 r)) (\<lambda>(n, r). Inr (unat n, r))"

definition get_node :: "reader \<Rightarrow> crypto_error + node \<times> reader" where
  "get_node r =
     bind_result (get_nat32 r) (\<lambda>(lo, r).
     bind_result (get_nat32 r) (\<lambda>(span, r).
       if span = 0 \<or> \<not> power_of_two span then malformed ''treekem node span not a power of two''
       else if lo mod span \<noteq> 0 then malformed ''treekem node lo not span-aligned''
       else if \<not> (lo + span < 2 ^ 32 \<and> lo + span \<le> MAX_TREE_ITEMS) then malformed ''treekem node out of range''
       else Inr (\<lparr>nd_lo = lo, nd_span = span\<rparr>, r)))"

definition decode_sig_public :: "bytes \<Rightarrow> crypto_error + identity_public" where
  "decode_sig_public b =
     (if length b \<noteq> SIG_VK_LEN then malformed ''treekem leaf sig key wrong length'' else Inr \<lparr>sig_vk = b\<rparr>)"

text \<open>\<open>RatchetPublic::decode(profile, r.get_bytes()?)?\<close> and \<open>decode_sig_public(r.get_bytes()?)?\<close>.\<close>

definition get_ratchet_public :: "kem_profile \<Rightarrow> reader \<Rightarrow> crypto_error + ratchet_public \<times> reader" where
  "get_ratchet_public profile r =
     bind_result (wire (get_bytes r)) (\<lambda>(b, r). bind_result (rp_decode profile b) (\<lambda>p. Inr (p, r)))"

definition get_sig_public :: "reader \<Rightarrow> crypto_error + identity_public \<times> reader" where
  "get_sig_public r =
     bind_result (wire (get_bytes r)) (\<lambda>(b, r). bind_result (decode_sig_public b) (\<lambda>k. Inr (k, r)))"

definition keypackage_encode :: "key_package \<Rightarrow> bytes" where
  "keypackage_encode kp =
     into_vec (put_bytes (put_bytes (put_bytes writer_new (rp_encode (kp_leaf_public kp))) (sig_vk (kp_sig_public kp))) (kp_pop kp))"

definition keypackage_decode :: "prims \<Rightarrow> kem_profile \<Rightarrow> bytes \<Rightarrow> crypto_error + key_package" where
  "keypackage_decode P profile b =
     bind_result (get_ratchet_public profile (reader_new b)) (\<lambda>(leaf_public, r).
     bind_result (get_sig_public r) (\<lambda>(sig_public, r).
     bind_result (wire (get_vec r)) (\<lambda>(pop, r).
     bind_result (wire (finish r)) (\<lambda>_.
     bind_result (verify_pop P sig_public pop) (\<lambda>_.
       Inr \<lparr>kp_leaf_public = leaf_public, kp_sig_public = sig_public, kp_pop = pop\<rparr>)))))"

definition put_proposal :: "writer \<Rightarrow> proposal \<Rightarrow> writer" where
  "put_proposal w p =
     (case p of
        PAdd leaf leaf_public sig_public pop \<Rightarrow>
          put_bytes (put_bytes (put_bytes (put_nat32 (put_u8 w 0) leaf) (rp_encode leaf_public)) (sig_vk sig_public)) pop
      | PRemove leaf \<Rightarrow> put_nat32 (put_u8 w 1) leaf
      | PUpdate leaf leaf_public sig_public pop auth \<Rightarrow>
          put_bytes (put_bytes (put_bytes (put_bytes (put_nat32 (put_u8 w 2) leaf) (rp_encode leaf_public)) (sig_vk sig_public)) pop) auth)"

definition get_proposal :: "kem_profile \<Rightarrow> reader \<Rightarrow> crypto_error + proposal \<times> reader" where
  "get_proposal profile r =
     bind_result (wire (get_u8 r)) (\<lambda>(t, r).
       if t = 0 then
         bind_result (get_nat32 r) (\<lambda>(leaf, r).
         bind_result (get_ratchet_public profile r) (\<lambda>(leaf_public, r).
         bind_result (get_sig_public r) (\<lambda>(sig_public, r).
         bind_result (wire (get_vec r)) (\<lambda>(pop, r). Inr (PAdd leaf leaf_public sig_public pop, r)))))
       else if t = 1 then bind_result (get_nat32 r) (\<lambda>(leaf, r). Inr (PRemove leaf, r))
       else if t = 2 then
         bind_result (get_nat32 r) (\<lambda>(leaf, r).
         bind_result (get_ratchet_public profile r) (\<lambda>(leaf_public, r).
         bind_result (get_sig_public r) (\<lambda>(sig_public, r).
         bind_result (wire (get_vec r)) (\<lambda>(pop, r).
         bind_result (wire (get_vec r)) (\<lambda>(auth, r). Inr (PUpdate leaf leaf_public sig_public pop auth, r))))))
       else malformed ''bad proposal tag'')"

definition get_count :: "nat \<Rightarrow> reader \<Rightarrow> crypto_error + nat \<times> reader" where
  "get_count min_elem_bytes r =
     bind_result (get_nat32 r) (\<lambda>(n, r).
       if n > MAX_TREE_ITEMS then malformed ''treekem count too large''
       else if n > remaining r div max min_elem_bytes 1 then malformed ''treekem count exceeds input length''
       else Inr (n, r))"

definition put_pub_update :: "writer \<Rightarrow> node \<times> ratchet_public \<Rightarrow> writer" where
  "put_pub_update w u = put_bytes (put_node w (fst u)) (rp_encode (snd u))"

definition get_pub_update :: "kem_profile \<Rightarrow> reader \<Rightarrow> crypto_error + (node \<times> ratchet_public) \<times> reader" where
  "get_pub_update profile r =
     bind_result (get_node r) (\<lambda>(n, r). bind_result (get_ratchet_public profile r) (\<lambda>(p, r). Inr ((n, p), r)))"

definition put_ciphertext :: "writer \<Rightarrow> node \<times> node \<times> bytes \<Rightarrow> writer" where
  "put_ciphertext w c = (case c of (a, b, blob) \<Rightarrow> put_bytes (put_node (put_node w a) b) blob)"

definition get_ciphertext :: "reader \<Rightarrow> crypto_error + (node \<times> node \<times> bytes) \<times> reader" where
  "get_ciphertext r =
     bind_result (get_node r) (\<lambda>(a, r).
     bind_result (get_node r) (\<lambda>(b, r).
     bind_result (wire (get_vec r)) (\<lambda>(blob, r). Inr ((a, b, blob), r))))"

definition encode_body :: "commit \<Rightarrow> bytes" where
  "encode_body c =
     (let w = put_nat32 writer_new (length (cm_proposals c));
          w = foldl put_proposal w (cm_proposals c);
          w = put_nat32 w (length (cm_pub_updates c));
          w = foldl put_pub_update w (cm_pub_updates c);
          w = put_nat32 w (length (cm_path c));
          w = foldl put_node w (cm_path c);
          w = put_nat32 w (length (cm_ciphertexts c));
          w = foldl put_ciphertext w (cm_ciphertexts c);
          w = put_nat32 w (cm_new_capacity c);
          w = (case cm_sig_update c of
                 None \<Rightarrow> put_u8 w 0
               | Some (leaf, sig_public, pop) \<Rightarrow> put_bytes (put_bytes (put_nat32 (put_u8 w 1) leaf) (sig_vk sig_public)) pop)
      in into_vec w)"

definition commit_encode :: "commit \<Rightarrow> bytes" where
  "commit_encode c = into_vec (put_bytes (put_bytes writer_new (encode_body c)) (cm_auth c))"

definition get_sig_update :: "reader \<Rightarrow> crypto_error + (nat \<times> identity_public \<times> bytes) option \<times> reader" where
  "get_sig_update r =
     bind_result (wire (get_u8 r)) (\<lambda>(t, r).
       if t = 0 then Inr (None, r)
       else if t = 1 then
         bind_result (get_nat32 r) (\<lambda>(leaf, r).
         bind_result (get_sig_public r) (\<lambda>(sig_public, r).
         bind_result (wire (get_vec r)) (\<lambda>(pop, r). Inr (Some (leaf, sig_public, pop), r))))
       else malformed ''bad sig_update tag'')"

definition commit_read :: "kem_profile \<Rightarrow> reader \<Rightarrow> crypto_error + commit \<times> reader" where
  "commit_read profile r =
     bind_result (get_count 1 r) (\<lambda>(np, r).
     bind_result (read_n np (get_proposal profile) r) (\<lambda>(proposals, r).
     bind_result (get_count 12 r) (\<lambda>(nu, r).
     bind_result (read_n nu (get_pub_update profile) r) (\<lambda>(pub_updates, r).
     bind_result (get_count 8 r) (\<lambda>(npath, r).
     bind_result (read_n npath get_node r) (\<lambda>(path, r).
     bind_result (get_count 20 r) (\<lambda>(nc, r).
     bind_result (read_n nc get_ciphertext r) (\<lambda>(ciphertexts, r).
     bind_result (get_nat32 r) (\<lambda>(new_capacity, r).
       if new_capacity > MAX_TREE_ITEMS then malformed ''treekem new_capacity too large''
       else bind_result (get_sig_update r) (\<lambda>(sig_update, r).
         Inr (\<lparr>cm_proposals = proposals, cm_pub_updates = pub_updates, cm_path = path, cm_ciphertexts = ciphertexts,
               cm_new_capacity = new_capacity, cm_sig_update = sig_update, cm_auth = []\<rparr>, r)))))))))))"

definition commit_decode :: "kem_profile \<Rightarrow> bytes \<Rightarrow> crypto_error + commit" where
  "commit_decode profile b =
     bind_result (wire (get_bytes (reader_new b))) (\<lambda>(body, r).
     bind_result (wire (get_vec r)) (\<lambda>(commit_sig, r).
     bind_result (wire (finish r)) (\<lambda>_.
     bind_result (commit_read profile (reader_new body)) (\<lambda>(c, br).
     bind_result (wire (finish br)) (\<lambda>_. Inr (c\<lparr>cm_auth := commit_sig\<rparr>))))))"

definition put_sig_key :: "writer \<Rightarrow> nat \<times> ratchet_public \<times> identity_public \<times> bytes \<Rightarrow> writer" where
  "put_sig_key w e = (case e of (leaf, lp, k, pop) \<Rightarrow> put_bytes (put_bytes (put_bytes (put_nat32 w leaf) (rp_encode lp)) (sig_vk k)) pop)"

definition get_sig_key :: "kem_profile \<Rightarrow> reader \<Rightarrow> crypto_error + (nat \<times> ratchet_public \<times> identity_public \<times> bytes) \<times> reader" where
  "get_sig_key profile r =
     bind_result (get_nat32 r) (\<lambda>(leaf, r).
     bind_result (get_ratchet_public profile r) (\<lambda>(lp, r).
     bind_result (get_sig_public r) (\<lambda>(k, r).
     bind_result (wire (get_vec r)) (\<lambda>(pop, r). Inr ((leaf, lp, k, pop), r)))))"

definition welcome_encode :: "welcome_msg \<Rightarrow> bytes" where
  "welcome_encode wl =
     (let w = put_nat32 writer_new (wl_capacity wl);
          w = put_nat32 w (length (wl_public wl));
          w = foldl put_pub_update w (wl_public wl);
          w = put_nat32 w (length (wl_occupied wl));
          w = foldl (\<lambda>w b. put_u8 w (if b then 1 else 0)) w (wl_occupied wl);
          w = put_u32 w (wl_epoch wl);
          w = put_nat32 w (wl_your_leaf wl);
          w = put_nat32 w (length (wl_sig_keys wl));
          w = foldl put_sig_key w (wl_sig_keys wl);
          w = put_bytes w (commit_encode (wl_commit wl))
      in into_vec w)"

definition get_occupied :: "reader \<Rightarrow> crypto_error + bool \<times> reader" where
  "get_occupied r = bind_result (wire (get_u8 r)) (\<lambda>(b, r). Inr (b \<noteq> 0, r))"

definition welcome_decode :: "kem_profile \<Rightarrow> bytes \<Rightarrow> crypto_error + welcome_msg" where
  "welcome_decode profile b =
     bind_result (get_nat32 (reader_new b)) (\<lambda>(capacity, r).
       if capacity > MAX_TREE_ITEMS then malformed ''treekem welcome capacity too large''
       else
         bind_result (get_count 12 r) (\<lambda>(np, r).
         bind_result (read_n np (get_pub_update profile) r) (\<lambda>(public, r).
         bind_result (get_count 1 r) (\<lambda>(no, r).
         bind_result (read_n no get_occupied r) (\<lambda>(occupied, r).
         bind_result (wire (get_u32 r)) (\<lambda>(epoch, r).
         bind_result (get_nat32 r) (\<lambda>(your_leaf, r).
         bind_result (get_count 16 r) (\<lambda>(nsk, r).
         bind_result (read_n nsk (get_sig_key profile) r) (\<lambda>(sig_keys, r).
         bind_result (wire (get_bytes r)) (\<lambda>(cb, r).
         bind_result (commit_decode profile cb) (\<lambda>commit.
         bind_result (wire (finish r)) (\<lambda>_.
           Inr \<lparr>wl_capacity = capacity, wl_public = public, wl_occupied = occupied, wl_epoch = epoch,
                wl_your_leaf = your_leaf, wl_sig_keys = sig_keys, wl_commit = commit\<rparr>))))))))))))"

section \<open>Key derivation\<close>

definition tk_expand :: "prims \<Rightarrow> bytes \<Rightarrow> bytes \<Rightarrow> bytes" where
  "tk_expand P secret label = mac_kdf P secret [] label 32"

definition derive_parent_secret :: "prims \<Rightarrow> bytes \<Rightarrow> bytes" where
  "derive_parent_secret P child = tk_expand P child (ascii ''talkrypt-treekem-parent'')"

definition derive_leaf_sig_seed :: "prims \<Rightarrow> bytes \<Rightarrow> bytes \<Rightarrow> bytes" where
  "derive_leaf_sig_seed P identity_root group_id =
     mac_kdf P identity_root group_id (ascii ''talkrypt-leaf-sig-derive-v1'') 32"

definition derive_commit_secret :: "prims \<Rightarrow> bytes \<Rightarrow> bytes" where
  "derive_commit_secret P root = tk_expand P root (ascii ''talkrypt-treekem-commit'')"

definition sender_chain :: "prims \<Rightarrow> bytes \<Rightarrow> nat \<Rightarrow> bytes" where
  "sender_chain P epoch_secret leaf =
     mac_kdf P epoch_secret (u32_be (of_nat leaf)) (ascii ''talkrypt-treekem-sender'') 32"

definition msg_aad :: "u32 \<Rightarrow> nat \<Rightarrow> u32 \<Rightarrow> bytes" where
  "msg_aad epoch leaf n = into_vec (put_u32 (put_nat32 (put_u32 writer_new epoch) leaf) n)"

definition seal_secret :: "prims \<Rightarrow> bytes \<Rightarrow> ratchet_public \<Rightarrow> bytes \<Rightarrow> crypto_error + bytes" where
  "seal_secret P coins pubk secret =
     bind_result (encapsulate P coins pubk) (\<lambda>(kem_ct, ss).
       let (key, nonce) = kdf_mk P ss
       in bind_result (aead_seal P key nonce secret (ascii ''tk-treekem'')) (\<lambda>aead_ct.
            Inr (into_vec (put_bytes (put_bytes writer_new kem_ct) aead_ct))))"

definition open_secret :: "prims \<Rightarrow> ratchet_secret \<Rightarrow> bytes \<Rightarrow> crypto_error + bytes" where
  "open_secret P rsecret blob =
     bind_result (wire (get_vec (reader_new blob))) (\<lambda>(kem_ct, r).
     bind_result (wire (get_vec r)) (\<lambda>(aead_ct, r).
     bind_result (wire (finish r)) (\<lambda>_.
     bind_result (decapsulate P rsecret kem_ct) (\<lambda>ss.
       let (key, nonce) = kdf_mk P ss
       in bind_result (aead_open P key nonce aead_ct (ascii ''tk-treekem'')) (\<lambda>pt.
            if length pt \<noteq> 32 then malformed ''treekem path secret length'' else Inr pt)))))"

text \<open>\<open>RatchetSecret::derive_deterministic\<close>; its key self-test aborts on a mismatch.\<close>

definition node_key :: "prims \<Rightarrow> bytes \<Rightarrow> kem_profile \<Rightarrow> bytes \<Rightarrow> tk_error + ratchet_secret \<times> ratchet_public" where
  "node_key P pct profile secret = ok_or Panic (derive_deterministic P pct profile secret)"

section \<open>Leaf keys\<close>

definition leaf_generate_with :: "prims \<Rightarrow> tk_coins \<Rightarrow> kem_profile \<Rightarrow> leaf_key_pair" where
  "leaf_generate_with P c profile =
     \<lparr>lk_profile = profile, lk_secret = tc_secret c, lk_sig = from_secret_bytes P (tc_seed c)\<rparr>"

definition leaf_generate_derived :: "prims \<Rightarrow> tk_coins \<Rightarrow> kem_profile \<Rightarrow> bytes \<Rightarrow> bytes \<Rightarrow> leaf_key_pair" where
  "leaf_generate_derived P c profile identity_root group_id =
     \<lparr>lk_profile = profile, lk_secret = tc_secret c,
      lk_sig = from_secret_bytes P (derive_leaf_sig_seed P identity_root group_id)\<rparr>"

definition leaf_key_package :: "prims \<Rightarrow> bytes \<Rightarrow> leaf_key_pair \<Rightarrow> tk_error + key_package" where
  "leaf_key_package P pct lk =
     bind_result (node_key P pct (lk_profile lk) (lk_secret lk)) (\<lambda>(_, leaf_public).
       let sig_public = id_public (lk_sig lk);
           pop = id_sign P (lk_sig lk) (pop_transcript sig_public)
       in Inr \<lparr>kp_leaf_public = leaf_public, kp_sig_public = sig_public, kp_pop = pop\<rparr>)"

section \<open>The group\<close>

record recv_chain =
  rc_chain :: bytes
  rc_n :: u32
  rc_skipped :: "(u32 \<times> bytes) list"

record treekem_group =
  tg_profile :: kem_profile
  tg_capacity :: nat
  tg_public :: "(node \<times> ratchet_public) list"
  tg_occupied :: "bool list"
  tg_me :: nat
  tg_secrets :: "(node \<times> bytes) list"
  tg_epoch :: u32
  tg_epoch_secret :: bytes
  tg_send_chain :: bytes
  tg_send_n :: u32
  tg_recvs :: "(nat \<times> recv_chain) list"
  tg_leaf_sig_keys :: "(nat \<times> identity_public) list"
  tg_leaf_pops :: "(nat \<times> bytes) list"
  tg_my_sig :: "identity_key_pair option"
  tg_pending_update :: "leaf_key_pair option"
  tg_pad_bucket :: nat

type_synonym 'a tk_op = "treekem_group \<Rightarrow> (tk_error + 'a) \<times> treekem_group"

definition bind_op :: "'a tk_op \<Rightarrow> ('a \<Rightarrow> 'b tk_op) \<Rightarrow> 'b tk_op" where
  "bind_op m f g = (case m g of (Inl e, g) \<Rightarrow> (Inl e, g) | (Inr x, g) \<Rightarrow> f x g)"

definition is_blank :: "(node \<times> ratchet_public) list \<Rightarrow> node \<Rightarrow> bool" where
  "is_blank public n \<longleftrightarrow> map_of public n = None"

function resolution :: "(node \<times> ratchet_public) list \<Rightarrow> node \<Rightarrow> node list" where
  "resolution public n =
     (if \<not> is_blank public n then [n]
      else case nd_children n of
             None \<Rightarrow> []
           | Some (l, r) \<Rightarrow> if nd_span n = 0 then [] else resolution public l @ resolution public r)"
  by pat_completeness auto
termination
  by (relation "measure (\<lambda>(p, n). nd_span n)") (auto simp: nd_children_def Let_def split: if_splits)

declare resolution.simps [simp del]

definition path_to_root :: "treekem_group \<Rightarrow> nat \<Rightarrow> node list" where
  "path_to_root g leaf = path_from (tg_capacity g) (nd_leaf leaf)"

fun first_free :: "bool list \<Rightarrow> nat \<Rightarrow> nat option" where
  "first_free [] i = None"
| "first_free (b # bs) i = (if \<not> b then Some i else first_free bs (Suc i))"

definition first_free_leaf :: "treekem_group \<Rightarrow> nat option" where
  "first_free_leaf g = first_free (tg_occupied g) 0"

definition double_capacity :: "treekem_group \<Rightarrow> treekem_group" where
  "double_capacity g =
     (let c = tg_capacity g * 2 in g\<lparr>tg_capacity := c, tg_occupied := vec_resize (tg_occupied g) c False\<rparr>)"

definition reset_epoch :: "prims \<Rightarrow> treekem_group \<Rightarrow> treekem_group" where
  "reset_epoch P g = g\<lparr>tg_send_chain := sender_chain P (tg_epoch_secret g) (tg_me g), tg_send_n := 0, tg_recvs := []\<rparr>"

definition blank_path_above :: "nat \<Rightarrow> treekem_group \<Rightarrow> treekem_group" where
  "blank_path_above leaf g =
     foldl (\<lambda>g p. g\<lparr>tg_public := AList.delete p (tg_public g), tg_secrets := AList.delete p (tg_secrets g)\<rparr>)
       g (tl (path_to_root g leaf))"

definition proposal_leaf :: "proposal \<Rightarrow> nat" where
  "proposal_leaf p = (case p of PAdd l _ _ _ \<Rightarrow> l | PRemove l \<Rightarrow> l | PUpdate l _ _ _ _ \<Rightarrow> l)"

text \<open>Replace the keys bound to a leaf; the last two lines of an \<open>Add\<close> or \<open>Update\<close> arm.\<close>

definition bind_leaf :: "nat \<Rightarrow> ratchet_public \<Rightarrow> identity_public \<Rightarrow> bytes \<Rightarrow> treekem_group \<Rightarrow> treekem_group" where
  "bind_leaf leaf leaf_public sig_public pop g =
     g\<lparr>tg_public := AList.update (nd_leaf leaf) leaf_public (tg_public g),
       tg_leaf_sig_keys := AList.update leaf sig_public (tg_leaf_sig_keys g),
       tg_leaf_pops := AList.update leaf pop (tg_leaf_pops g)\<rparr>"

definition install_pending :: "prims \<Rightarrow> nat \<Rightarrow> treekem_group \<Rightarrow> treekem_group" where
  "install_pending P leaf g =
     (if leaf = tg_me g
      then (case tg_pending_update g of
              Some kp \<Rightarrow> g\<lparr>tg_pending_update := None, tg_secrets := AList.update (nd_leaf leaf) (lk_secret kp) (tg_secrets g),
                          tg_my_sig := Some (from_secret_bytes P (sig_seed (lk_sig kp)))\<rparr>
            | None \<Rightarrow> g)
      else g)"

definition apply_proposal :: "prims \<Rightarrow> proposal \<Rightarrow> unit tk_op" where
  "apply_proposal P p g =
     (if proposal_leaf p \<ge> length (tg_occupied g) then (tk_malformed ''treekem proposal leaf out of range'', g)
      else
        (case p of
           PAdd leaf leaf_public sig_public pop \<Rightarrow>
             if verify_pop P sig_public pop \<noteq> Inr () then (Inl (Tk BadSignature), g)
             else (Inr (), blank_path_above leaf (bind_leaf leaf leaf_public sig_public pop
                     (g\<lparr>tg_occupied := (tg_occupied g)[leaf := True]\<rparr>)))
         | PRemove leaf \<Rightarrow>
             (Inr (), blank_path_above leaf
                (g\<lparr>tg_occupied := (tg_occupied g)[leaf := False],
                   tg_secrets := AList.delete (nd_leaf leaf) (tg_secrets g),
                   tg_public := AList.delete (nd_leaf leaf) (tg_public g),
                   tg_leaf_sig_keys := AList.delete leaf (tg_leaf_sig_keys g),
                   tg_leaf_pops := AList.delete leaf (tg_leaf_pops g)\<rparr>))
         | PUpdate leaf leaf_public sig_public pop auth \<Rightarrow>
             if verify_pop P sig_public pop \<noteq> Inr () then (Inl (Tk BadSignature), g)
             else if \<not> tg_occupied g ! leaf then (tk_malformed ''treekem update for empty leaf'', g)
             else
               (case map_of (tg_leaf_sig_keys g) leaf of
                  None \<Rightarrow> (tk_malformed ''update for a leaf with no current signing key'', g)
                | Some current \<Rightarrow>
                    if id_verify P current (update_auth_transcript leaf leaf_public sig_public) auth \<noteq> Inr ()
                    then (Inl (Tk BadSignature), g)
                    else (Inr (), blank_path_above leaf (install_pending P leaf (bind_leaf leaf leaf_public sig_public pop g))))))"

fun apply_proposals :: "prims \<Rightarrow> proposal list \<Rightarrow> unit tk_op" where
  "apply_proposals P [] = Pair (Inr ())"
| "apply_proposals P (p # ps) = bind_op (apply_proposal P p) (\<lambda>_. apply_proposals P ps)"

text \<open>A chain of path secrets, each derived from the one below.\<close>

fun secret_chain :: "prims \<Rightarrow> bytes \<Rightarrow> nat \<Rightarrow> bytes list" where
  "secret_chain P s 0 = []"
| "secret_chain P s (Suc n) = s # secret_chain P (derive_parent_secret P s) n"

text \<open>Install a list of node secrets with their public keys; returns the public keys.\<close>

fun set_nodes :: "prims \<Rightarrow> tk_coins \<Rightarrow> (node \<times> bytes) list \<Rightarrow> (node \<times> ratchet_public) list tk_op" where
  "set_nodes P c [] g = (Inr [], g)"
| "set_nodes P c ((n, s) # ns) g =
     (case node_key P (tc_pct c n) (tg_profile g) s of
        Inl e \<Rightarrow> (Inl e, g)
      | Inr (_, pubk) \<Rightarrow>
          bind_op (set_nodes P c ns) (\<lambda>us g. (Inr ((n, pubk) # us), g))
            (g\<lparr>tg_public := AList.update n pubk (tg_public g), tg_secrets := AList.update n s (tg_secrets g)\<rparr>))"

definition create_with_sig :: "prims \<Rightarrow> tk_coins \<Rightarrow> kem_profile \<Rightarrow> identity_key_pair \<Rightarrow> (tk_error + treekem_group)" where
  "create_with_sig P c profile my_sig =
     (let g = \<lparr>tg_profile = profile, tg_capacity = 2, tg_public = [], tg_occupied = [False, False][0 := True], tg_me = 0,
               tg_secrets = [], tg_epoch = 0, tg_epoch_secret = replicate 32 0, tg_send_chain = replicate 32 0, tg_send_n = 0,
               tg_recvs = [], tg_leaf_sig_keys = [(0, id_public my_sig)], tg_leaf_pops = [], tg_my_sig = Some my_sig,
               tg_pending_update = None, tg_pad_bucket = 0\<rparr>;
          path = path_to_root g 0
      in case set_nodes P c (zip path (secret_chain P (tc_secret c) (length path))) g of
           (Inl e, _) \<Rightarrow> Inl e
         | (Inr _, g) \<Rightarrow>
             (case map_of (tg_secrets g) (root_of 2) of
                None \<Rightarrow> Inl Panic
              | Some root_secret \<Rightarrow>
                  let g = g\<lparr>tg_epoch_secret := derive_commit_secret P root_secret,
                            tg_leaf_pops := AList.update 0 (id_sign P my_sig (pop_transcript (id_public my_sig))) (tg_leaf_pops g)\<rparr>
                  in Inr (reset_epoch P g)))"

definition create_derived :: "prims \<Rightarrow> tk_coins \<Rightarrow> kem_profile \<Rightarrow> bytes \<Rightarrow> bytes \<Rightarrow> tk_error + treekem_group" where
  "create_derived P c profile identity_root group_id =
     create_with_sig P c profile (from_secret_bytes P (derive_leaf_sig_seed P identity_root group_id))"

definition create_with :: "prims \<Rightarrow> tk_coins \<Rightarrow> kem_profile \<Rightarrow> tk_error + treekem_group" where
  "create_with P c profile = create_with_sig P c profile (from_secret_bytes P (tc_seed c))"

definition sign_as_host :: "prims \<Rightarrow> treekem_group \<Rightarrow> bytes \<Rightarrow> bytes option" where
  "sign_as_host P g msg =
     (if tg_me g \<noteq> HOST_LEAF then None else map_option (\<lambda>s. id_sign P s msg) (tg_my_sig g))"

definition verify_host_sig :: "prims \<Rightarrow> treekem_group \<Rightarrow> bytes \<Rightarrow> bytes \<Rightarrow> bool" where
  "verify_host_sig P g msg sig =
     (case map_of (tg_leaf_sig_keys g) HOST_LEAF of Some k \<Rightarrow> id_verify P k msg sig = Inr () | None \<Rightarrow> False)"

definition group_member_count :: "treekem_group \<Rightarrow> nat" where
  "group_member_count g = length (filter (\<lambda>b. b) (tg_occupied g))"

definition leaf_sig_public :: "treekem_group \<Rightarrow> nat \<Rightarrow> identity_public option" where
  "leaf_sig_public g leaf = map_of (tg_leaf_sig_keys g) leaf"

text \<open>The encryption loops of \<open>rekey_path\<close>: a path secret is sealed to every node of the resolution of its copath.\<close>

fun seal_to :: "prims \<Rightarrow> tk_coins \<Rightarrow> (node \<times> ratchet_public) list \<Rightarrow> node \<Rightarrow> bytes \<Rightarrow> node list \<Rightarrow> tk_error + (node \<times> node \<times> bytes) list" where
  "seal_to P c public n s [] = Inr []"
| "seal_to P c public n s (t # ts) =
     (case map_of public t of
        None \<Rightarrow> tk_malformed ''resolution node has no key''
      | Some target_pub \<Rightarrow>
          bind_result (tk (seal_secret P (tc_enc c n t) target_pub s)) (\<lambda>blob.
          bind_result (seal_to P c public n s ts) (\<lambda>cts. Inr ((n, t, blob) # cts))))"

fun seal_path :: "prims \<Rightarrow> tk_coins \<Rightarrow> (node \<times> ratchet_public) list \<Rightarrow> node \<Rightarrow> (node \<times> bytes) list \<Rightarrow> tk_error + (node \<times> node \<times> bytes) list" where
  "seal_path P c public below [] = Inr []"
| "seal_path P c public below ((n, s) # ns) =
     bind_result (seal_to P c public n s (resolution public (nd_sibling below))) (\<lambda>cts.
     bind_result (seal_path P c public n ns) (\<lambda>rest. Inr (cts @ rest)))"

definition rekey_path ::
    "prims \<Rightarrow> tk_coins \<Rightarrow> proposal list \<Rightarrow> (nat \<times> identity_public \<times> bytes) option \<Rightarrow> commit tk_op" where
  "rekey_path P c proposals sig_update g =
     (let from_epoch = tg_epoch g;
          path = path_to_root g (tg_me g);
          secrets = secret_chain P (tc_secret c) (length path);
          keyed = zip path secrets
      in bind_op (set_nodes P c keyed) (\<lambda>pub_updates g.
           case seal_path P c (tg_public g) (hd path) (tl keyed) of
             Inl e \<Rightarrow> (Inl e, g)
           | Inr ciphertexts \<Rightarrow>
               let g = reset_epoch P (g\<lparr>tg_epoch := tg_epoch g + 1, tg_epoch_secret := derive_commit_secret P (last secrets)\<rparr>);
                   cm = \<lparr>cm_proposals = proposals, cm_pub_updates = pub_updates, cm_path = path, cm_ciphertexts = ciphertexts,
                         cm_new_capacity = tg_capacity g, cm_sig_update = sig_update, cm_auth = []\<rparr>;
                   cm = (case tg_my_sig g of
                           Some signer \<Rightarrow> cm\<lparr>cm_auth := id_sign P signer (commit_auth_transcript from_epoch (tg_me g) (encode_body cm))\<rparr>
                         | None \<Rightarrow> cm)
               in (Inr cm, g)) g)"

definition welcome_for :: "treekem_group \<Rightarrow> nat \<Rightarrow> commit \<Rightarrow> welcome_msg" where
  "welcome_for g leaf cm =
     \<lparr>wl_capacity = tg_capacity g, wl_public = tg_public g, wl_occupied = tg_occupied g, wl_epoch = tg_epoch g,
      wl_your_leaf = leaf,
      wl_sig_keys = List.map_filter (\<lambda>(l, k).
        case (map_of (tg_public g) (nd_leaf l), map_of (tg_leaf_pops g) l) of
          (Some lp, Some pop) \<Rightarrow> Some (l, lp, k, pop) | _ \<Rightarrow> None) (tg_leaf_sig_keys g),
      wl_commit = cm\<rparr>"

definition group_add :: "prims \<Rightarrow> tk_coins \<Rightarrow> key_package \<Rightarrow> (nat \<times> commit \<times> welcome_msg) tk_op" where
  "group_add P c kp g =
     (let g = (if first_free_leaf g = None then double_capacity g else g)
      in case first_free_leaf g of
           None \<Rightarrow> (Inl Panic, g)
         | Some leaf \<Rightarrow>
             let proposals = [PAdd leaf (kp_leaf_public kp) (kp_sig_public kp) (kp_pop kp)]
             in bind_op (apply_proposals P proposals) (\<lambda>_.
                bind_op (rekey_path P c proposals None) (\<lambda>cm g.
                  (Inr (leaf, cm, welcome_for g leaf cm), g))) g)"

definition group_remove :: "prims \<Rightarrow> tk_coins \<Rightarrow> nat \<Rightarrow> commit tk_op" where
  "group_remove P c leaf =
     bind_op (apply_proposals P [PRemove leaf]) (\<lambda>_. rekey_path P c [PRemove leaf] None)"

definition propose_update :: "prims \<Rightarrow> tk_coins \<Rightarrow> bytes \<Rightarrow> bytes tk_op" where
  "propose_update P c pct g =
     (let lk = leaf_generate_with P c (tg_profile g)
      in case leaf_key_package P pct lk of
           Inl e \<Rightarrow> (Inl e, g)
         | Inr package \<Rightarrow>
             (case tg_my_sig g of
                None \<Rightarrow> (tk_malformed ''no current leaf signing key'', g)
              | Some current \<Rightarrow>
                  let auth = id_sign P current (update_auth_transcript (tg_me g) (kp_leaf_public package) (kp_sig_public package));
                      prop = PUpdate (tg_me g) (kp_leaf_public package) (kp_sig_public package) (kp_pop package) auth
                  in (Inr (into_vec (put_proposal writer_new prop)), g\<lparr>tg_pending_update := Some lk\<rparr>)))"

definition decode_update :: "kem_profile \<Rightarrow> nat \<Rightarrow> bytes \<Rightarrow> crypto_error + proposal" where
  "decode_update profile proposer_leaf b =
     bind_result (get_proposal profile (reader_new b)) (\<lambda>(prop, r).
     bind_result (wire (finish r)) (\<lambda>_.
       case prop of
         PUpdate leaf _ _ _ _ \<Rightarrow>
           if leaf = proposer_leaf then Inr prop
           else malformed ''update proposal leaf does not match its authenticated proposer''
       | _ \<Rightarrow> malformed ''expected an Update proposal''))"

definition commit_update :: "prims \<Rightarrow> tk_coins \<Rightarrow> nat \<Rightarrow> bytes \<Rightarrow> commit tk_op" where
  "commit_update P c proposer_leaf b g =
     (case decode_update (tg_profile g) proposer_leaf b of
        Inl e \<Rightarrow> (Inl (Tk e), g)
      | Inr prop \<Rightarrow> bind_op (apply_proposals P [prop]) (\<lambda>_. rekey_path P c [prop] None) g)"

definition group_update :: "prims \<Rightarrow> tk_coins \<Rightarrow> commit tk_op" where
  "group_update P c g =
     (let new_sig = from_secret_bytes P (tc_seed c);
          new_pub = id_public new_sig;
          pop = id_sign P new_sig (pop_transcript new_pub)
      in bind_op (rekey_path P c [] (Some (tg_me g, new_pub, pop))) (\<lambda>cm g.
           (Inr cm, g\<lparr>tg_leaf_sig_keys := AList.update (tg_me g) new_pub (tg_leaf_sig_keys g),
                      tg_leaf_pops := AList.update (tg_me g) pop (tg_leaf_pops g), tg_my_sig := Some new_sig\<rparr>)) g)"

text \<open>
  The search of \<open>process_update_path\<close>: the first node of a copath resolution whose secret we
  hold, with the path node above it and the rest of the path.
\<close>

definition first_held :: "(node \<times> bytes) list \<Rightarrow> node list \<Rightarrow> (node \<times> bytes) option" where
  "first_held secrets ts =
     (case filter (\<lambda>t. map_of secrets t \<noteq> None) ts of
        [] \<Rightarrow> None | t # _ \<Rightarrow> map_option (Pair t) (map_of secrets t))"

fun meet :: "(node \<times> ratchet_public) list \<Rightarrow> (node \<times> bytes) list \<Rightarrow> node \<Rightarrow> node list \<Rightarrow> (node \<times> bytes \<times> node \<times> node list) option" where
  "meet public secrets below [] = None"
| "meet public secrets below (n # ns) =
     (case first_held secrets (resolution public (nd_sibling below)) of
        Some (t, s) \<Rightarrow> Some (t, s, n, ns)
      | None \<Rightarrow> meet public secrets n ns)"

definition find_ciphertext :: "commit \<Rightarrow> node \<Rightarrow> node \<Rightarrow> bytes option" where
  "find_ciphertext cm n t =
     (case filter (\<lambda>(p, q, _). p = n \<and> q = t) (cm_ciphertexts cm) of [] \<Rightarrow> None | (_, _, b) # _ \<Rightarrow> Some b)"

definition adopt_updates :: "(node \<times> ratchet_public) list \<Rightarrow> treekem_group \<Rightarrow> treekem_group" where
  "adopt_updates us g = g\<lparr>tg_public := foldl (\<lambda>m (n, p). AList.update n p m) (tg_public g) us\<rparr>"

definition process_update_path :: "prims \<Rightarrow> (node \<Rightarrow> bytes) \<Rightarrow> commit \<Rightarrow> bytes tk_op" where
  "process_update_path P pct cm g =
     (let g = adopt_updates (cm_pub_updates cm) g
      in case (case cm_path cm of [] \<Rightarrow> None | n # ns \<Rightarrow> meet (tg_public g) (tg_secrets g) n ns) of
           None \<Rightarrow> (tk_malformed ''no common ancestor with committer'', g)
         | Some (t, secret, n, ups) \<Rightarrow>
             (case bind_result (node_key P (pct t) (tg_profile g) secret) (\<lambda>(rsecret, _).
                   bind_result (tk (ok_or (Malformed (ascii ''no ciphertext for held target'')) (find_ciphertext cm n t))) (\<lambda>blob.
                     tk (open_secret P rsecret blob))) of
                Inl e \<Rightarrow> (Inl e, g)
              | Inr ps \<Rightarrow>
                  let secrets = secret_chain P ps (Suc (length ups))
                  in (Inr (derive_commit_secret P (last secrets)),
                      g\<lparr>tg_secrets := foldl (\<lambda>m (n, s). AList.update n s m) (tg_secrets g) (zip (n # ups) secrets)\<rparr>)))"

definition rotate_sig :: "prims \<Rightarrow> nat \<Rightarrow> commit \<Rightarrow> unit tk_op" where
  "rotate_sig P committer_leaf cm g =
     (case cm_sig_update cm of
        None \<Rightarrow> (Inr (), g)
      | Some (leaf, sig_public, pop) \<Rightarrow>
          if leaf \<noteq> committer_leaf then (tk_malformed ''sig_update may only rotate the committer's own leaf'', g)
          else if \<not> (leaf < length (tg_occupied g) \<and> tg_occupied g ! leaf) then (tk_malformed ''sig_update for empty leaf'', g)
          else if verify_pop P sig_public pop \<noteq> Inr () then (Inl (Tk BadSignature), g)
          else (Inr (), g\<lparr>tg_leaf_sig_keys := AList.update leaf sig_public (tg_leaf_sig_keys g),
                          tg_leaf_pops := AList.update leaf pop (tg_leaf_pops g)\<rparr>))"

definition authenticate_commit :: "prims \<Rightarrow> treekem_group \<Rightarrow> commit \<Rightarrow> crypto_error + unit" where
  "authenticate_commit P g cm =
     (case cm_path cm of
        n # _ \<Rightarrow>
          if nd_span n \<noteq> 1 then malformed ''commit path does not start at a leaf''
          else if nd_lo n \<noteq> HOST_LEAF then malformed ''only the host leaf may broadcast a commit''
          else
            (case map_of (tg_leaf_sig_keys g) HOST_LEAF of
               None \<Rightarrow> malformed ''no host signing key bound''
             | Some host_key \<Rightarrow>
                 map_err (\<lambda>_. BadSignature) (id_verify P host_key
                   (commit_auth_transcript (tg_epoch g) (nd_lo n) (encode_body cm)) (cm_auth cm)))
      | [] \<Rightarrow> malformed ''commit path does not start at a leaf'')"

definition grow_to :: "nat \<Rightarrow> treekem_group \<Rightarrow> treekem_group" where
  "grow_to c g =
     (if c > tg_capacity g then g\<lparr>tg_capacity := c, tg_occupied := vec_resize (tg_occupied g) c False\<rparr> else g)"

definition apply_commit :: "prims \<Rightarrow> (node \<Rightarrow> bytes) \<Rightarrow> commit \<Rightarrow> unit tk_op" where
  "apply_commit P pct cm g =
     (case authenticate_commit P g cm of
        Inl e \<Rightarrow> (Inl (Tk e), g)
      | Inr _ \<Rightarrow>
          bind_op (apply_proposals P (cm_proposals cm)) (\<lambda>_.
          bind_op (rotate_sig P HOST_LEAF cm) (\<lambda>_.
          bind_op (process_update_path P pct cm) (\<lambda>secret g.
            (Inr (), reset_epoch P (g\<lparr>tg_epoch := tg_epoch g + 1, tg_epoch_secret := secret\<rparr>)))))
          (grow_to (cm_new_capacity cm) g))"

fun learn_keys ::
    "prims \<Rightarrow> (nat \<times> ratchet_public \<times> identity_public \<times> bytes) list \<Rightarrow> (nat \<times> identity_public) list \<Rightarrow> (nat \<times> bytes) list \<Rightarrow>
     crypto_error + (nat \<times> identity_public) list \<times> (nat \<times> bytes) list" where
  "learn_keys P [] keys pops = Inr (keys, pops)"
| "learn_keys P ((leaf, _, sig_public, pop) # es) keys pops =
     bind_result (verify_pop P sig_public pop) (\<lambda>_. learn_keys P es (AList.update leaf sig_public keys) (AList.update leaf pop pops))"

definition join_with_welcome :: "prims \<Rightarrow> (node \<Rightarrow> bytes) \<Rightarrow> leaf_key_pair \<Rightarrow> welcome_msg \<Rightarrow> tk_error + treekem_group" where
  "join_with_welcome P pct lk wl =
     bind_result (tk (learn_keys P (wl_sig_keys wl) [] [])) (\<lambda>(keys, pops).
       let sig = from_secret_bytes P (sig_seed (lk_sig lk));
           g = \<lparr>tg_profile = lk_profile lk, tg_capacity = wl_capacity wl,
                tg_public = foldl (\<lambda>m (n, p). AList.update n p m) [] (wl_public wl), tg_occupied = wl_occupied wl,
                tg_me = wl_your_leaf wl, tg_secrets = [(nd_leaf (wl_your_leaf wl), lk_secret lk)], tg_epoch = wl_epoch wl,
                tg_epoch_secret = replicate 32 0, tg_send_chain = replicate 32 0, tg_send_n = 0, tg_recvs = [],
                tg_leaf_sig_keys = AList.update (wl_your_leaf wl) (id_public sig) keys, tg_leaf_pops = pops,
                tg_my_sig = Some sig, tg_pending_update = None, tg_pad_bucket = 0\<rparr>
       in case process_update_path P pct (wl_commit wl) g of
            (Inl e, _) \<Rightarrow> Inl e
          | (Inr secret, g) \<Rightarrow> Inr (reset_epoch P (g\<lparr>tg_epoch_secret := secret\<rparr>)))"

section \<open>Group messages\<close>

definition sender_leaf :: "bytes \<Rightarrow> nat option" where
  "sender_leaf message =
     ok (bind_result (get_u8 (reader_new message)) (\<lambda>(_, r).
         bind_result (get_u32 r) (\<lambda>(_, r).
         bind_result (get_u32 r) (\<lambda>(leaf, _). Inr (unat leaf)))))"

definition set_pad_bucket :: "nat \<Rightarrow> treekem_group \<Rightarrow> treekem_group" where
  "set_pad_bucket step g = g\<lparr>tg_pad_bucket := step\<rparr>"

text \<open>The steps \<open>encrypt\<close> and \<open>encrypt_signed\<close> share: seal under the next key of the sending chain.\<close>

definition seal_next :: "prims \<Rightarrow> bytes \<Rightarrow> bytes tk_op" where
  "seal_next P body g =
     (let (nxt, mk_seed) = kdf_ck P (tg_send_chain g);
          (key, nonce) = kdf_mk P mk_seed
      in case aead_seal P key nonce body (msg_aad (tg_epoch g) (tg_me g) (tg_send_n g)) of
           Inl e \<Rightarrow> (Inl (Tk e), g)
         | Inr ct \<Rightarrow> (Inr ct, g\<lparr>tg_send_chain := nxt, tg_send_n := tg_send_n g + 1\<rparr>))"

definition group_encrypt :: "prims \<Rightarrow> bytes \<Rightarrow> bytes tk_op" where
  "group_encrypt P plaintext g =
     bind_op (seal_next P plaintext) (\<lambda>ct g'.
       (Inr (into_vec (put_bytes (put_u32 (put_nat32 (put_u32 (put_u8 writer_new GROUP_MSG_V1) (tg_epoch g)) (tg_me g)) (tg_send_n g)) ct)), g')) g"

definition padded_body :: "treekem_group \<Rightarrow> bytes \<Rightarrow> bytes" where
  "padded_body g plaintext = (if tg_pad_bucket g > 0 then pad_to_bucket plaintext (tg_pad_bucket g) else plaintext)"

definition encrypt_signed :: "prims \<Rightarrow> bytes \<Rightarrow> bytes tk_op" where
  "encrypt_signed P plaintext g =
     (case tg_my_sig g of
        None \<Rightarrow> (tk_malformed ''group has no leaf signing key'', g)
      | Some my_sig \<Rightarrow>
          bind_op (seal_next P (padded_body g plaintext)) (\<lambda>ct g'.
            let sig = id_sign P my_sig (sig_transcript (tg_epoch g) (tg_me g) (tg_send_n g) ct)
            in (Inr (into_vec (put_bytes (put_bytes (put_u32 (put_nat32 (put_u32 (put_u8 writer_new GROUP_MSG_V2)
                  (tg_epoch g)) (tg_me g)) (tg_send_n g)) ct) sig)), g')) g)"

function skip_chain :: "prims \<Rightarrow> u32 \<Rightarrow> recv_chain \<Rightarrow> recv_chain" where
  "skip_chain P n rc =
     (if rc_n rc < n then
        let (nx, seed) = kdf_ck P (rc_chain rc)
        in skip_chain P n (rc\<lparr>rc_skipped := AList.update (rc_n rc) seed (rc_skipped rc), rc_chain := nx, rc_n := rc_n rc + 1\<rparr>)
      else rc)"
  by pat_completeness auto
termination
  by (relation "measure (\<lambda>(P, n, rc). unat n - unat (rc_n rc))") (auto simp: word_count_up)

declare skip_chain.simps [simp del]

definition chain_open :: "prims \<Rightarrow> recv_chain \<Rightarrow> u32 \<Rightarrow> bytes \<Rightarrow> bytes \<Rightarrow> (crypto_error + bytes) \<times> recv_chain" where
  "chain_open P rc n ct aad =
     (case map_of (rc_skipped rc) n of
        Some seed \<Rightarrow>
          let (key, nonce) = kdf_mk P seed
          in (aead_open P key nonce ct aad, rc\<lparr>rc_skipped := AList.delete n (rc_skipped rc)\<rparr>)
      | None \<Rightarrow>
          if n < rc_n rc then (Inl DecryptionFailed, rc)
          else if unat (n - rc_n rc) > MAX_SKIP then (Inl (TooManySkipped MAX_SKIP), rc)
          else
            let rc = skip_chain P n rc;
                (nx, mk_seed) = kdf_ck P (rc_chain rc);
                (key, nonce) = kdf_mk P mk_seed
            in (case aead_open P key nonce ct aad of
                  Inl e \<Rightarrow> (Inl e, rc)
                | Inr pt \<Rightarrow> (Inr pt, rc\<lparr>rc_chain := nx, rc_n := rc_n rc + 1\<rparr>)))"

definition recv_of :: "prims \<Rightarrow> treekem_group \<Rightarrow> nat \<Rightarrow> recv_chain" where
  "recv_of P g leaf =
     (case map_of (tg_recvs g) leaf of
        Some rc \<Rightarrow> rc
      | None \<Rightarrow> \<lparr>rc_chain = sender_chain P (tg_epoch_secret g) leaf, rc_n = 0, rc_skipped = []\<rparr>)"

definition group_decrypt_body :: "prims \<Rightarrow> u32 \<Rightarrow> nat \<Rightarrow> u32 \<Rightarrow> bytes \<Rightarrow> bytes tk_op" where
  "group_decrypt_body P epoch leaf n ct g =
     (let (r, rc) = chain_open P (recv_of P g leaf) n ct (msg_aad epoch leaf n)
      in (tk r, g\<lparr>tg_recvs := AList.update leaf rc (tg_recvs g)\<rparr>))"

record signed_message =
  sm_epoch :: u32
  sm_leaf :: nat
  sm_n :: u32
  sm_ct :: bytes
  sm_sig :: bytes

definition parse_signed :: "bytes \<Rightarrow> crypto_error + signed_message" where
  "parse_signed message =
     bind_result (wire (get_u8 (reader_new message))) (\<lambda>(version, r).
       if version \<noteq> GROUP_MSG_V2 then malformed ''group message not signed (v2)''
       else
         bind_result (wire (get_u32 r)) (\<lambda>(epoch, r).
         bind_result (get_nat32 r) (\<lambda>(leaf, r).
         bind_result (wire (get_u32 r)) (\<lambda>(n, r).
         bind_result (wire (get_vec r)) (\<lambda>(ct, r).
         bind_result (wire (get_vec r)) (\<lambda>(sig, r).
         bind_result (wire (finish r)) (\<lambda>_.
           Inr \<lparr>sm_epoch = epoch, sm_leaf = leaf, sm_n = n, sm_ct = ct, sm_sig = sig\<rparr>)))))))"

definition decrypt_verified :: "prims \<Rightarrow> bytes \<Rightarrow> bytes tk_op" where
  "decrypt_verified P message g =
     (case parse_signed message of
        Inl e \<Rightarrow> (Inl (Tk e), g)
      | Inr m \<Rightarrow>
          (case map_of (tg_leaf_sig_keys g) (sm_leaf m) of
             None \<Rightarrow> (Inl (Tk BadSignature), g)
           | Some vk \<Rightarrow>
               if id_verify P vk (sig_transcript (sm_epoch m) (sm_leaf m) (sm_n m) (sm_ct m)) (sm_sig m) \<noteq> Inr ()
               then (Inl (Tk BadSignature), g)
               else if sm_epoch m \<noteq> tg_epoch g then (Inl (Tk DecryptionFailed), g)
               else
                 bind_op (group_decrypt_body P (sm_epoch m) (sm_leaf m) (sm_n m) (sm_ct m)) (\<lambda>body g.
                   if tg_pad_bucket g > 0 then (tk (ok_or DecryptionFailed (unpad_bucket body)), g) else (Inr body, g)) g))"

definition group_decrypt :: "prims \<Rightarrow> bytes \<Rightarrow> bytes tk_op" where
  "group_decrypt P message g =
     (case bind_result (wire (get_u8 (reader_new message))) (\<lambda>(version, r).
             if version \<noteq> GROUP_MSG_V1 then malformed ''expected unsigned (v1) group message''
             else
               bind_result (wire (get_u32 r)) (\<lambda>(epoch, r).
               bind_result (get_nat32 r) (\<lambda>(leaf, r).
               bind_result (wire (get_u32 r)) (\<lambda>(n, r).
               bind_result (wire (get_vec r)) (\<lambda>(ct, r).
               bind_result (wire (finish r)) (\<lambda>_. Inr (epoch, leaf, n, ct))))))) of
        Inl e \<Rightarrow> (Inl (Tk e), g)
      | Inr (epoch, leaf, n, ct) \<Rightarrow>
          if epoch \<noteq> tg_epoch g then (Inl (Tk DecryptionFailed), g) else group_decrypt_body P epoch leaf n ct g)"

section \<open>Promotion signatures\<close>

definition leaf_sign :: "prims \<Rightarrow> treekem_group \<Rightarrow> bytes \<Rightarrow> crypto_error + bytes" where
  "leaf_sign P g transcript =
     (case tg_my_sig g of None \<Rightarrow> malformed ''group has no leaf signing key'' | Some sk \<Rightarrow> Inr (id_sign P sk transcript))"

definition leaf_verify :: "prims \<Rightarrow> treekem_group \<Rightarrow> nat \<Rightarrow> bytes \<Rightarrow> bytes \<Rightarrow> bool" where
  "leaf_verify P g leaf transcript sig =
     (case map_of (tg_leaf_sig_keys g) leaf of Some pk \<Rightarrow> id_verify P pk transcript sig = Inr () | None \<Rightarrow> False)"

definition sign_promote :: "prims \<Rightarrow> treekem_group \<Rightarrow> bytes \<Rightarrow> crypto_error + bytes" where
  "sign_promote P g body = leaf_sign P g (promote_transcript (tg_epoch g) (tg_me g) body)"

definition verify_promote :: "prims \<Rightarrow> treekem_group \<Rightarrow> nat \<Rightarrow> bytes \<Rightarrow> bytes \<Rightarrow> bool" where
  "verify_promote P g leaf body sig = leaf_verify P g leaf (promote_transcript (tg_epoch g) leaf body) sig"

definition sign_consent :: "prims \<Rightarrow> treekem_group \<Rightarrow> bytes \<Rightarrow> crypto_error + bytes" where
  "sign_consent P g body = leaf_sign P g (consent_transcript (tg_epoch g) (tg_me g) body)"

definition verify_consent :: "prims \<Rightarrow> treekem_group \<Rightarrow> nat \<Rightarrow> bytes \<Rightarrow> bytes \<Rightarrow> bool" where
  "verify_consent P g leaf body sig = leaf_verify P g leaf (consent_transcript (tg_epoch g) leaf body) sig"

definition sign_promo_commit :: "prims \<Rightarrow> treekem_group \<Rightarrow> bytes \<Rightarrow> crypto_error + bytes" where
  "sign_promo_commit P g body = leaf_sign P g (promo_commit_transcript (tg_epoch g) (tg_me g) body)"

definition verify_promo_commit :: "prims \<Rightarrow> treekem_group \<Rightarrow> nat \<Rightarrow> bytes \<Rightarrow> bytes \<Rightarrow> bool" where
  "verify_promo_commit P g leaf body sig = leaf_verify P g leaf (promo_commit_transcript (tg_epoch g) leaf body) sig"

end
