(* ===== verification/TreeAgree.thy ===== *)
theory TreeAgree
  imports TreeKem
begin

text \<open>
  The facts on which agreement in the ratchet tree rests: resolutions and meeting points, the laws of
  node keys, sealed path secrets and the keys of an update path. The first section is the
  geometry of the tree, with \<open>anc l k\<close> the node of span \<open>2 ^ k\<close> above leaf \<open>l\<close>.
\<close>

section \<open>Geometry\<close>

lemma div_Suc: "(l :: nat) div 2 ^ Suc k = l div 2 ^ k div 2"
  by (metis div_mult2_eq mult.commute power_Suc)

definition anc :: "nat \<Rightarrow> nat \<Rightarrow> node" where
  "anc l k = \<lparr>nd_lo = l div 2 ^ k * 2 ^ k, nd_span = 2 ^ k\<rparr>"

definition covers :: "node \<Rightarrow> nat \<Rightarrow> bool" where
  "covers n l \<longleftrightarrow> nd_lo n \<le> l \<and> l < nd_lo n + nd_span n"

lemma anc_sel [simp]: "nd_span (anc l k) = 2 ^ k" "nd_lo (anc l k) = l div 2 ^ k * 2 ^ k"
  by (simp_all add: anc_def)

lemma anc_leaf: "anc l 0 = nd_leaf l"
  by (simp add: anc_def nd_leaf_def)

lemma anc_eq_iff [simp]: "anc l k = anc m j \<longleftrightarrow> k = j \<and> l div 2 ^ k = m div 2 ^ k"
  by (auto simp: anc_def)

lemma anc_covers [simp]: "covers (anc l k) m \<longleftrightarrow> l div 2 ^ k = m div 2 ^ k"
proof
  assume "covers (anc l k) m"
  then have "m div 2 ^ k = l div 2 ^ k" by (intro div_nat_eqI) (simp_all add: covers_def mult.commute)
  then show "l div 2 ^ k = m div 2 ^ k" by simp
next
  assume "l div 2 ^ k = m div 2 ^ k"
  then show "covers (anc l k) m"
    using dividend_less_div_times[of "2 ^ k" m] by (simp add: covers_def)
qed

lemma parent_anc: "nd_parent (anc l k) (2 ^ d) = (if k < d then Some (anc l (Suc k)) else None)"
proof -
  let ?x = "l div 2 ^ k"
  have "?x * 2 ^ k mod 2 ^ Suc k = ?x mod 2 * 2 ^ k" by (simp add: mult_mod_left[symmetric] mult.commute)
  moreover have "?x * 2 ^ k - ?x mod 2 * 2 ^ k = ?x div 2 * 2 ^ Suc k"
    by (metis diff_mult_distrib minus_mod_eq_div_mult mult.assoc power_Suc)
  ultimately show ?thesis by (simp add: nd_parent_def Let_def anc_def div_Suc mult.commute del: power_Suc) (simp add: mult.commute)
qed

lemma path_anc: "k \<le> d \<Longrightarrow> path_from (2 ^ d) (anc l k) = map (anc l) [k..<Suc d]"
proof (induction "d - k" arbitrary: k)
  case 0
  then show ?case by (subst path_from.simps) (simp add: parent_anc)
next
  case (Suc x)
  then have "path_from (2 ^ d) (anc l (Suc k)) = map (anc l) [Suc k..<Suc d]" by simp
  then show ?case using Suc by (subst path_from.simps) (simp add: parent_anc upt_rec[of k])
qed

lemma path_to_root_anc: "tg_capacity g = 2 ^ d \<Longrightarrow> path_to_root g l = map (anc l) [0..<Suc d]"
  unfolding path_to_root_def anc_leaf[symmetric] by (simp add: path_anc)

lemma sibling_anc:
  assumes "l div 2 ^ k \<noteq> m div 2 ^ k" "l div 2 ^ Suc k = m div 2 ^ Suc k"
  shows "nd_sibling (anc l k) = anc m k"
proof -
  define a b where "a = l div 2 ^ k" and "b = m div 2 ^ k"
  have h: "a \<noteq> b" "a div 2 = b div 2" using assms by (simp_all add: a_def b_def div_Suc del: power_Suc)
  have "b = (if even a then a + 1 else a - 1)" using h by presburger
  then show ?thesis
    by (auto simp: nd_sibling_def anc_def a_def[symmetric] b_def[symmetric] algebra_simps diff_mult_distrib even_iff_mod_2_eq_zero)
qed

lemma sibling_covers:
  assumes "covers (nd_sibling (anc l k)) m"
  shows "l div 2 ^ k \<noteq> m div 2 ^ k \<and> l div 2 ^ Suc k = m div 2 ^ Suc k"
proof -
  define a b where "a = l div 2 ^ k" and "b = m div 2 ^ k"
  let ?f = "if even a then a + 1 else a - 1"
  have "nd_sibling (anc l k) = anc (?f * 2 ^ k) k"
    by (auto simp: nd_sibling_def anc_def a_def[symmetric] algebra_simps diff_mult_distrib even_iff_mod_2_eq_zero)
  then have "b = ?f" using assms by (simp add: b_def)
  then have "a \<noteq> b" "a div 2 = b div 2" by presburger+
  then show ?thesis by (simp add: a_def b_def div_Suc del: power_Suc)
qed

text \<open>The level at which the paths of two leaves meet.\<close>

lemma meeting_level:
  assumes "c \<noteq> (r :: nat)" "c < 2 ^ d" "r < 2 ^ d"
  obtains m where "m < d" "c div 2 ^ m \<noteq> r div 2 ^ m" "\<And>k. m < k \<Longrightarrow> c div 2 ^ k = r div 2 ^ k"
    "\<And>k. k \<le> m \<Longrightarrow> c div 2 ^ k \<noteq> r div 2 ^ k"
proof -
  define m where "m = (LEAST k. c div 2 ^ k = r div 2 ^ k)"
  have d: "c div 2 ^ d = r div 2 ^ d" using assms by simp
  have m: "c div 2 ^ m = r div 2 ^ m" unfolding m_def by (rule LeastI[of _ d]) (rule d)
  have "m \<le> d" unfolding m_def by (rule Least_le[of _ d]) (rule d)
  moreover have "m \<noteq> 0" using assms(1) m by (intro notI) simp
  moreover have "c div 2 ^ k = r div 2 ^ k" if "m \<le> k" for k
  proof -
    have "x div 2 ^ k = x div 2 ^ m div 2 ^ (k - m)" for x :: nat
      using that by (simp flip: div_mult2_eq power_add)
    then show ?thesis using m by simp
  qed
  moreover have "c div 2 ^ k \<noteq> r div 2 ^ k" if "k < m" for k
    using not_less_Least[OF that[unfolded m_def]] by simp
  ultimately show ?thesis using that[of "m - 1"] by auto
qed

section \<open>Resolutions\<close>

lemma resolution_cases:
  assumes "t \<in> set (resolution pub n)"
  obtains "t = n" "\<not> is_blank pub n"
  | a b where "nd_children n = Some (a, b)" "is_blank pub n" "nd_span n \<noteq> 0"
      "t \<in> set (resolution pub a) \<or> t \<in> set (resolution pub b)"
  using assms unfolding resolution.simps[of pub n]
  by (cases "nd_children n") (auto split: if_splits prod.split_asm)

lemma resolution_nonblank: "t \<in> set (resolution pub n) \<Longrightarrow> map_of pub t \<noteq> None"
proof (induction pub n rule: resolution.induct)
  case (1 pub n)
  from 1(3) show ?case
    by (rule resolution_cases) (use 1(1,2) in \<open>auto simp: is_blank_def\<close>)
qed

lemma resolution_within: "t \<in> set (resolution pub n) \<Longrightarrow> covers t l \<Longrightarrow> covers n l"
proof (induction pub n rule: resolution.induct)
  case (1 pub n)
  from 1(3) show ?case
  proof (cases rule: resolution_cases)
    case (2 a b)
    then have "covers a l \<or> covers b l" using 1(1,2)[OF _ 2(1) refl] 1(4) by auto
    then show ?thesis using 2(1) by (auto simp: nd_children_def Let_def covers_def split: if_splits)
  qed (use 1(4) in simp)
qed

lemma resolution_span: "t \<in> set (resolution pub n) \<Longrightarrow> nd_span t \<le> nd_span n"
proof (induction pub n rule: resolution.induct)
  case (1 pub n)
  from 1(3) show ?case
  proof (cases rule: resolution_cases)
    case (2 a b)
    then have "nd_span t \<le> nd_span a \<or> nd_span t \<le> nd_span b" using 1(1,2)[OF _ 2(1) refl] by auto
    then show ?thesis using 2(1) by (auto simp: nd_children_def Let_def split: if_splits)
  qed simp
qed

lemma children_anc:
  "\<exists>a b. nd_children (anc l (Suc k)) = Some (a, b) \<and> (anc l k = a \<or> anc l k = b)"
proof -
  define x where "x = l div 2 ^ k"
  have "l div 2 ^ Suc k = x div 2" by (simp add: x_def div_Suc del: power_Suc)
  then have "l div 2 ^ Suc k * 2 ^ Suc k = x div 2 * 2 * 2 ^ k" by simp
  moreover have "x = x div 2 * 2 \<or> x = x div 2 * 2 + 1" by presburger
  then have "x * 2 ^ k = x div 2 * 2 * 2 ^ k \<or> x * 2 ^ k = x div 2 * 2 * 2 ^ k + 2 ^ k"
    by (metis add_mult_distrib mult_1)
  ultimately show ?thesis by (auto simp: nd_children_def Let_def anc_def x_def[symmetric])
qed

lemma resolution_reaches:
  assumes "map_of pub (nd_leaf r) \<noteq> None"
  shows "\<exists>j\<le>k. anc r j \<in> set (resolution pub (anc r k))"
proof (induction k)
  case 0
  then show ?case using assms by (subst resolution.simps) (simp add: is_blank_def anc_leaf)
next
  case (Suc k)
  show ?case
  proof (cases "is_blank pub (anc r (Suc k))")
    case True
    then show ?thesis using Suc children_anc[of r k] by (subst resolution.simps) (auto intro: le_SucI)
  qed (subst resolution.simps, auto)
qed

section \<open>Node keys and sealed secrets\<close>

text \<open>
  What the operations rely on of the primitives: ML-KEM-1024 encapsulation succeeds for every
  generated key, and AES-256-GCM encrypts every text below its size limit, adding a 16-byte tag.
\<close>

definition kem_total :: "prims \<Rightarrow> bool" where
  "kem_total P \<longleftrightarrow> (\<forall>dk ek coins. kem_pair P dk ek \<longrightarrow> kem_encapsulate P ek coins \<noteq> None)"

definition gcm_expands :: "prims \<Rightarrow> bool" where
  "gcm_expands P \<longleftrightarrow> (\<forall>key nonce pt aad ct. gcm_encrypt P key nonce pt aad = Some ct \<longrightarrow> length ct \<le> length pt + 16)"

definition gcm_total :: "prims \<Rightarrow> bool" where
  "gcm_total P \<longleftrightarrow> (\<forall>key nonce pt aad. length key = 32 \<longrightarrow> length nonce = 12 \<longrightarrow> length pt < 2 ^ 32 \<longrightarrow> length aad < 2 ^ 32 \<longrightarrow>
     gcm_encrypt P key nonce pt aad \<noteq> None)"

definition tree_laws :: "prims \<Rightarrow> bool" where
  "tree_laws P \<longleftrightarrow> kmac_sized P \<and> gcm_correct P \<and> gcm_expands P \<and> gcm_total P \<and> kem_correct P \<and> kem_sized P \<and> kem_total P \<and>
     x_agrees P \<and> dsa_correct P"

lemma demo_tree_laws: "tree_laws demo_prims"
  unfolding tree_laws_def using demo_prims_lawful
  by (auto simp: gcm_expands_def gcm_total_def kem_total_def kem_pair_def demo_defs sizes_pos)

definition pub_of :: "prims \<Rightarrow> kem_profile \<Rightarrow> bytes \<Rightarrow> ratchet_public" where
  "pub_of P profile s = snd (projr (node_key P [] profile s))"

lemma node_key_laws:
  assumes "tree_laws P"
  obtains sk where "\<And>coins. node_key P coins profile s = Inr (sk, pub_of P profile s)" "key_pair P sk (pub_of P profile s)"
proof -
  note laws = assms[unfolded tree_laws_def]
  define tag where "tag = (case posture profile of Hybrid \<Rightarrow> ascii ''talkrypt-treekem-node'' | PqPure \<Rightarrow> ascii ''talkrypt-treekem-node-pq'')"
  let ?okm = "mac_kdf P s [] tag 96"
  obtain dk ek where gen: "kem_generate_deterministic P (take 32 (drop 32 ?okm)) (take 32 (drop 64 ?okm)) = (dk, ek)" by fastforce
  then have pair: "kem_pair P dk ek" by (auto simp: kem_pair_def)
  then have ek: "length ek = EK_LEN" using laws by (auto simp: kem_sized_def)
  have ok: "pairwise_consistent P coins sk pk" if "rs_kem_dk sk = dk" "rp_kem_ek pk = ek" for coins sk pk
    using pairwise_consistent_pair[of P sk pk coins] pair ek laws that unfolding kem_total_def by blast
  have len: "length (take 32 ?okm) = 32" using laws by (simp add: mac_kdf_def kmac_sized_def)
  have "\<exists>sk pk. (\<forall>coins. derive_deterministic P coins profile s = Some (sk, pk)) \<and> key_pair P sk pk"
  proof (cases "posture profile")
    case Hybrid
    then show ?thesis using gen ok pair ek laws
      by (simp add: derive_deterministic_def Let_def key_pair_def pub_ok_def tag_def x_agrees_def)
  next
    case PqPure
    then show ?thesis using gen ok pair ek len laws
      by (auto simp add: derive_deterministic_def Let_def key_pair_def pub_ok_def tag_def shape_like_x25519_public_def)
  qed
  then obtain sk pk where "\<And>coins. node_key P coins profile s = Inr (sk, pk)" "key_pair P sk pk"
    by (auto simp: node_key_def)
  then show ?thesis using that[of sk] by (simp add: pub_of_def)
qed

lemma open_sealed:
  assumes "tree_laws P" "node_key P coins profile s0 = Inr (sk, pk)"
    and "seal_secret P c (pub_of P profile s0) s = Inr blob" "length s = 32"
  shows "open_secret P sk blob = Inr s"
proof -
  note laws = assms(1)[unfolded tree_laws_def]
  obtain sk' where sk': "node_key P coins profile s0 = Inr (sk', pub_of P profile s0)" "key_pair P sk' (pub_of P profile s0)"
    using node_key_laws[OF assms(1), of profile s0] by metis
  then have sk: "sk = sk'" using assms(2) by simp
  obtain kct ss act where enc: "kem_encapsulate P (rp_kem_ek (pub_of P profile s0)) c = Some (kct, ss)"
      and act: "aead_seal P (fst (kdf_mk P (to_32 ss))) (snd (kdf_mk P (to_32 ss))) s (ascii ''tk-treekem'') = Inr act"
      and blob: "blob = bytes_enc kct @ bytes_enc act @ []"
    using assms(3) by (auto simp: seal_secret_def encapsulate_def result_simps into_vec_def codec_simps split_beta Let_def split: if_splits)
  have kct: "length kct = CT_LEN" using laws enc by (auto simp: kem_sized_def)
  have g: "gcm_encrypt P (fst (kdf_mk P (to_32 ss))) (snd (kdf_mk P (to_32 ss))) s (ascii ''tk-treekem'') = Some act"
      "length (fst (kdf_mk P (to_32 ss))) = KEY_LEN"
    using act by (auto simp: aead_seal_def result_simps split: if_splits)
  then have len: "length act \<le> 48" using laws assms(4) by (fastforce simp: gcm_expands_def)
  have "kem_decapsulate P (rs_kem_dk sk') kct = Some ss"
    using laws enc sk'(2) by (auto simp: kem_correct_def key_pair_def)
  then have "decapsulate P sk' kct = Inr (to_32 ss)" using kct by (simp add: decapsulate_def)
  moreover have "aead_open P (fst (kdf_mk P (to_32 ss))) (snd (kdf_mk P (to_32 ss))) act (ascii ''tk-treekem'') = Inr s"
    using laws g by (auto simp: aead_open_def gcm_correct_def)
  moreover have "frame_sized kct" "frame_sized act" "length blob < usize_limit"
    using kct len by (simp_all add: frame_sized_def CT_LEN_def MAX_FRAME_def usize_limit_def blob)
  ultimately show ?thesis unfolding sk
    by (simp add: open_secret_def blob codec_simps get_vec_at[where q = "[]", simplified] split_beta Let_def assms(4))
qed

lemma secret_chain_length [simp]: "length (secret_chain P s n) = n"
  by (induction n arbitrary: s) auto

lemma secret_chain_sized:
  assumes "kmac_sized P" "length s = 32" "x \<in> set (secret_chain P s n)"
  shows "length x = 32"
  using assms(2,3)
proof (induction n arbitrary: s)
  case (Suc n)
  have "length (derive_parent_secret P s) = 32"
    using assms(1) by (simp add: derive_parent_secret_def tk_expand_def mac_kdf_def kmac_sized_def)
  then show ?case using Suc by auto
qed simp

lemma secret_chain_drop: "i < n \<Longrightarrow> drop i (secret_chain P s n) = secret_chain P (secret_chain P s n ! i) (n - i)"
proof (induction n arbitrary: s i)
  case (Suc n)
  then show ?case by (cases i) auto
qed simp

section \<open>The meeting point of two paths\<close>

definition meets :: "nat \<Rightarrow> nat \<Rightarrow> nat \<Rightarrow> nat \<Rightarrow> bool" where
  "meets d c r m \<longleftrightarrow> m < d \<and> (\<forall>k\<le>m. c div 2 ^ k \<noteq> r div 2 ^ k) \<and> (\<forall>k>m. c div 2 ^ k = r div 2 ^ k)"

lemma meets_exists:
  assumes "c \<noteq> r" "c < 2 ^ d" "r < 2 ^ d"
  shows "\<exists>m. meets d c r m"
proof -
  obtain m where "m < d" "\<And>k. m < k \<Longrightarrow> c div 2 ^ k = r div 2 ^ k" "\<And>k. k \<le> m \<Longrightarrow> c div 2 ^ k \<noteq> r div 2 ^ k"
    using meeting_level[OF assms] by blast
  then show ?thesis unfolding meets_def by blast
qed

lemma resolution_cong: "map_of p = map_of q \<Longrightarrow> resolution p n = resolution q n"
proof (induction p n rule: resolution.induct)
  case (1 p n)
  show ?case using 1 by (subst (1 2) resolution.simps) (auto simp: is_blank_def split: option.split)
qed

lemma first_held_None: "(\<And>t. t \<in> set ts \<Longrightarrow> map_of secrets t = None) \<Longrightarrow> first_held secrets ts = None"
  by (simp add: first_held_def filter_empty_conv)

lemma first_held_Some:
  assumes "t \<in> set ts" "map_of secrets t \<noteq> None"
  obtains u s where "first_held secrets ts = Some (u, s)" "u \<in> set ts" "map_of secrets u = Some s"
proof -
  obtain u us where u: "filter (\<lambda>t. map_of secrets t \<noteq> None) ts = u # us"
    using assms by (cases "filter (\<lambda>t. map_of secrets t \<noteq> None) ts") (auto simp: filter_empty_conv)
  then have "u \<in> set ts" "map_of secrets u \<noteq> None" by (auto simp: filter_eq_Cons_iff)
  then show ?thesis using that[of u] u by (auto simp: first_held_def)
qed

lemma meet_found:
  assumes "meets d c r m" "\<And>n s. map_of secrets n = Some s \<Longrightarrow> covers n r"
    and "map_of pub (nd_leaf r) \<noteq> None" "\<And>k. k \<le> m \<Longrightarrow> map_of pub (anc r k) \<noteq> None \<Longrightarrow> map_of secrets (anc r k) \<noteq> None"
  obtains t s where "meet pub secrets (anc c 0) (map (anc c) [1..<Suc d]) = Some (t, s, anc c (Suc m), map (anc c) [Suc (Suc m)..<Suc d])"
    "t \<in> set (resolution pub (nd_sibling (anc c m)))" "map_of secrets t = Some s" "covers t r"
proof -
  have sib: "nd_sibling (anc c m) = anc r m" using assms(1) by (intro sibling_anc) (auto simp: meets_def)
  obtain j where j: "j \<le> m" "anc r j \<in> set (resolution pub (anc r m))" using resolution_reaches[OF assms(3)] by blast
  then have "map_of secrets (anc r j) \<noteq> None" using assms(4) resolution_nonblank by blast
  then obtain t s where t: "first_held secrets (resolution pub (nd_sibling (anc c m))) = Some (t, s)"
      "t \<in> set (resolution pub (nd_sibling (anc c m)))" "map_of secrets t = Some s"
    unfolding sib using first_held_Some[OF j(2)] by blast
  have skip: "first_held secrets (resolution pub (nd_sibling (anc c i))) = None" if "i < m" for i
  proof (rule first_held_None)
    fix u assume u: "u \<in> set (resolution pub (nd_sibling (anc c i)))"
    show "map_of secrets u = None"
    proof (rule ccontr)
      assume "map_of secrets u \<noteq> None"
      then have "covers (nd_sibling (anc c i)) r" using assms(2) resolution_within[OF u] by blast
      then have "c div 2 ^ Suc i = r div 2 ^ Suc i" using sibling_covers by blast
      then show False using assms(1) that by (auto simp: meets_def simp del: power_Suc)
    qed
  qed
  have "meet pub secrets (anc c i) (map (anc c) [Suc i..<Suc d]) = Some (t, s, anc c (Suc m), map (anc c) [Suc (Suc m)..<Suc d])"
    if "i \<le> m" for i
    using that
  proof (induction rule: inc_induct)
    case base
    have "[Suc m..<Suc d] = Suc m # [Suc (Suc m)..<Suc d]" using assms(1) by (simp add: meets_def upt_conv_Cons del: upt_Suc)
    then show ?case using t by (simp del: upt_Suc)
  next
    case (step i)
    have "[Suc i..<Suc d] = Suc i # [Suc (Suc i)..<Suc d]" using assms(1) step by (simp add: meets_def upt_conv_Cons del: upt_Suc)
    then show ?case using step skip[of i] by (simp del: upt_Suc)
  qed
  from this[of 0] that[of t s] t assms(2) show ?thesis by simp
qed

lemma seal_to_cong: "map_of p = map_of q \<Longrightarrow> seal_to P c p n s ts = seal_to P c q n s ts"
  by (induction ts) (auto split: option.split)

lemma seal_path_cong: "map_of p = map_of q \<Longrightarrow> seal_path P c p below ns = seal_path P c q below ns"
proof (induction ns arbitrary: below)
  case (Cons a ns)
  then show ?case using resolution_cong[OF Cons.prems] seal_to_cong[OF Cons.prems] by (cases a) simp
qed simp

lemma seal_to_mem:
  assumes "seal_to P c pub n s ts = Inr cts"
  shows "(\<forall>x\<in>set cts. \<exists>t b pk. x = (n, t, b) \<and> map_of pub t = Some pk \<and> seal_secret P (tc_enc c n t) pk s = Inr b) \<and>
    (\<forall>t\<in>set ts. \<exists>b. (n, t, b) \<in> set cts)"
  using assms
proof (induction ts arbitrary: cts)
  case (Cons t ts)
  then obtain pk b cts' where t: "map_of pub t = Some pk" "seal_secret P (tc_enc c n t) pk s = Inr b"
      "seal_to P c pub n s ts = Inr cts'" "cts = (n, t, b) # cts'"
    by (auto simp: result_simps split: option.splits)
  from Cons.IH[OF t(3)] show ?case unfolding t(4) using t(1,2) by auto
qed simp

lemma seal_path_sound:
  assumes "seal_path P c pub below ns = Inr cts" "(n, t, b) \<in> set cts"
  shows "\<exists>s pk. (n, s) \<in> set ns \<and> map_of pub t = Some pk \<and> seal_secret P (tc_enc c n t) pk s = Inr b"
  using assms
proof (induction ns arbitrary: below cts)
  case (Cons a ns)
  obtain n' s' where a: "a = (n', s')" by fastforce
  from Cons.prems(1) obtain x y where xy: "seal_to P c pub n' s' (resolution pub (nd_sibling below)) = Inr x"
      "seal_path P c pub n' ns = Inr y" "cts = x @ y"
    by (auto simp: a result_simps)
  show ?case
  proof (cases "(n, t, b) \<in> set x")
    case True
    then show ?thesis using seal_to_mem[OF xy(1)] a by fastforce
  next
    case False
    then show ?thesis using Cons.IH[OF xy(2)] Cons.prems(2) xy(3) by auto
  qed
qed simp

lemma seal_path_complete:
  assumes "seal_path P c pub (ps ! 0) (tl (zip ps ss)) = Inr cts" "length ss = length ps" "Suc i < length ps"
    and "t \<in> set (resolution pub (nd_sibling (ps ! i)))"
  shows "\<exists>b. (ps ! Suc i, t, b) \<in> set cts"
  using assms
proof (induction i arbitrary: ps ss cts)
  case (0 ps ss)
  then obtain p q ps' s u ss' where ps: "ps = p # q # ps'" "ss = s # u # ss'"
    by (cases ps; cases "tl ps"; cases ss; cases "tl ss") auto
  with 0 obtain x where "seal_to P c pub q u (resolution pub (nd_sibling p)) = Inr x" "set x \<subseteq> set cts"
    by (auto simp: result_simps)
  then show ?case using seal_to_mem 0(4) ps by fastforce
next
  case (Suc i ps ss)
  then obtain p q ps' s u ss' where ps: "ps = p # q # ps'" "ss = s # u # ss'"
    by (cases ps; cases "tl ps"; cases ss; cases "tl ss") auto
  with Suc.prems(1) obtain x y where "seal_path P c pub q (zip ps' ss') = Inr y" "cts = x @ y"
    by (auto simp: result_simps)
  then show ?case using Suc.IH[of "q # ps'" "u # ss'" y] Suc.prems ps by auto
qed

section \<open>Members and their invariant\<close>

text \<open>A member holds the secrets of exactly the non-blank nodes on its path, and they fit the public keys.\<close>

definition holds :: "prims \<Rightarrow> nat \<Rightarrow> treekem_group \<Rightarrow> bool" where
  "holds P d g \<longleftrightarrow>
     (\<forall>n s. map_of (tg_secrets g) n = Some s \<longrightarrow>
        (\<exists>k\<le>d. n = anc (tg_me g) k) \<and> length s = 32 \<and> map_of (tg_public g) n = Some (pub_of P (tg_profile g) s)) \<and>
     (\<forall>k\<le>d. map_of (tg_public g) (anc (tg_me g) k) \<noteq> None \<longrightarrow> map_of (tg_secrets g) (anc (tg_me g) k) \<noteq> None)"

definition same_tree :: "treekem_group \<Rightarrow> treekem_group \<Rightarrow> bool" where
  "same_tree g h \<longleftrightarrow>
     tg_profile g = tg_profile h \<and> tg_capacity g = tg_capacity h \<and> tg_occupied g = tg_occupied h \<and>
     map_of (tg_public g) = map_of (tg_public h) \<and> map_of (tg_leaf_sig_keys g) = map_of (tg_leaf_sig_keys h)"

lemma map_of_updates:
  "map_of (foldl (\<lambda>m (n, x). AList.update n x m) m xs) = map_of m ++ map_of (rev xs)"
proof (induction xs arbitrary: m)
  case (Cons a xs)
  then show ?case by (cases a) (simp add: update_conv' map_add_upd_left map_add_assoc[symmetric] fun_eq_iff map_add_def split: option.split)
qed simp

lemma map_of_rev: "distinct (map fst xs) \<Longrightarrow> map_of (rev xs) = map_of xs"
  by (rule map_of_inject_set[THEN iffD2]) (simp_all add: rev_map[symmetric])

lemma map_of_deletes:
  "map_of (foldl (\<lambda>m p. AList.delete p m) m ps) n = (if n \<in> set ps then None else map_of m n)"
  by (induction ps arbitrary: m) (auto simp: delete_conv' restrict_map_def)

text \<open>The secrets a committer puts on its path.\<close>

definition path_keys :: "prims \<Rightarrow> nat \<Rightarrow> nat \<Rightarrow> bytes \<Rightarrow> (node \<times> bytes) list" where
  "path_keys P d c s0 = zip (map (anc c) [0..<Suc d]) (secret_chain P s0 (Suc d))"

lemma distinct_path: "distinct (map (anc c) [i..<j])"
  by (simp add: distinct_map inj_on_def)

lemma path_keys_at: "k \<le> d \<Longrightarrow> map_of (path_keys P d c s0) (anc c k) = Some (secret_chain P s0 (Suc d) ! k)"
  unfolding path_keys_def
  using map_of_zip_nth[of "map (anc c) [0..<Suc d]" "secret_chain P s0 (Suc d)" k] distinct_path[of c 0 "Suc d"]
  by (simp del: upt_Suc secret_chain.simps)

lemma path_keys_none: "(\<forall>k\<le>d. n \<noteq> anc c k) \<Longrightarrow> map_of (path_keys P d c s0) n = None"
  unfolding path_keys_def map_of_eq_None_iff by (fastforce simp: less_Suc_eq_le simp del: upt_Suc secret_chain.simps dest!: set_zip_leftD)

lemma drop_path_keys:
  assumes "i \<le> d"
  shows "drop i (path_keys P d c s0) = zip (map (anc c) [i..<Suc d]) (secret_chain P (secret_chain P s0 (Suc d) ! i) (Suc d - i))"
  unfolding path_keys_def drop_zip using assms by (simp add: secret_chain_drop drop_map del: upt_Suc secret_chain.simps)

lemma map_of_drop_path_keys:
  assumes "i \<le> d"
  shows "k \<le> d \<Longrightarrow> i \<le> k \<Longrightarrow> map_of (drop i (path_keys P d c s0)) (anc c k) = Some (secret_chain P s0 (Suc d) ! k)"
    and "(\<forall>k. i \<le> k \<and> k \<le> d \<longrightarrow> n \<noteq> anc c k) \<Longrightarrow> map_of (drop i (path_keys P d c s0)) n = None"
proof -
  let ?ss = "drop i (secret_chain P s0 (Suc d))"
  have e: "drop i (path_keys P d c s0) = zip (map (anc c) [i..<Suc d]) ?ss"
    unfolding path_keys_def drop_zip by (simp add: drop_map del: upt_Suc secret_chain.simps)
  show "map_of (drop i (path_keys P d c s0)) (anc c k) = Some (secret_chain P s0 (Suc d) ! k)" if "k \<le> d" "i \<le> k" for k
    unfolding e using map_of_zip_nth[of "map (anc c) [i..<Suc d]" ?ss "k - i"] distinct_path[of c i "Suc d"] that
    by (simp del: upt_Suc secret_chain.simps)
  show "map_of (drop i (path_keys P d c s0)) n = None" if "\<forall>k. i \<le> k \<and> k \<le> d \<longrightarrow> n \<noteq> anc c k"
    using that unfolding e map_of_eq_None_iff by (fastforce simp: less_Suc_eq_le simp del: upt_Suc secret_chain.simps dest!: set_zip_leftD)
qed

lemma path_keys_distinct: "distinct (map fst (path_keys P d c s0))"
  using distinct_path[of c 0 "Suc d"] by (simp add: path_keys_def del: upt_Suc secret_chain.simps)

lemma path_keys_sized:
  assumes "kmac_sized P" "length s0 = 32" "(n, s) \<in> set (path_keys P d c s0)"
  shows "length s = 32"
  using secret_chain_sized[OF assms(1,2)] assms(3) unfolding path_keys_def by (blast dest: set_zip_rightD)

text \<open>The public keys after a commit on the path of \<open>c\<close>.\<close>

definition rekeyed :: "prims \<Rightarrow> kem_profile \<Rightarrow> nat \<Rightarrow> nat \<Rightarrow> bytes \<Rightarrow> (node \<rightharpoonup> ratchet_public) \<Rightarrow> node \<rightharpoonup> ratchet_public" where
  "rekeyed P profile d c s0 m = m ++ (map_option (pub_of P profile) \<circ> map_of (path_keys P d c s0))"

definition pub_updates_of :: "prims \<Rightarrow> kem_profile \<Rightarrow> (node \<times> bytes) list \<Rightarrow> (node \<times> ratchet_public) list" where
  "pub_updates_of P profile = map (\<lambda>(n, s). (n, pub_of P profile s))"

lemma adopt_rekeyed:
  "map_of (foldl (\<lambda>m (n, p). AList.update n p m) m (pub_updates_of P profile (path_keys P d c s0))) =
     rekeyed P profile d c s0 (map_of m)"
proof -
  have "distinct (map fst (pub_updates_of P profile (path_keys P d c s0)))"
    using path_keys_distinct[of P d c s0] by (simp add: pub_updates_of_def comp_def split_beta)
  then show ?thesis
    unfolding map_of_updates rekeyed_def by (simp add: map_of_rev) (simp add: pub_updates_of_def map_of_map)
qed

lemma set_nodes_spec:
  assumes "tree_laws P"
  shows "set_nodes P c ns g = (Inr (pub_updates_of P (tg_profile g) ns),
    g\<lparr>tg_public := foldl (\<lambda>m (n, p). AList.update n p m) (tg_public g) (pub_updates_of P (tg_profile g) ns),
      tg_secrets := foldl (\<lambda>m (n, s). AList.update n s m) (tg_secrets g) ns\<rparr>)"
proof (induction ns arbitrary: g)
  case (Cons a ns)
  obtain n s where a: "a = (n, s)" by fastforce
  obtain sk where "node_key P (tc_pct c n) (tg_profile g) s = Inr (sk, pub_of P (tg_profile g) s)"
    using node_key_laws[OF assms, of "tg_profile g" s] by metis
  then show ?case by (simp add: a Cons bind_op_def pub_updates_of_def)
qed (simp add: pub_updates_of_def)

end
