(* ===== verification/TreeCommit.thy ===== *)
theory TreeCommit
  imports TreeAgree
begin

text \<open>
  What a member of a TreeKEM group computes from a commit.
\<close>

section \<open>Processing a commit\<close>

lemma find_ciphertext_Some:
  assumes "(n, t, b) \<in> set (cm_ciphertexts cm)"
  obtains b' where "find_ciphertext cm n t = Some b'" "(n, t, b') \<in> set (cm_ciphertexts cm)"
proof -
  obtain x xs where x: "filter (\<lambda>(p, q, _). p = n \<and> q = t) (cm_ciphertexts cm) = x # xs"
    using assms by (cases "filter (\<lambda>(p, q, _). p = n \<and> q = t) (cm_ciphertexts cm)") (auto simp: filter_empty_conv)
  then have "x \<in> set (cm_ciphertexts cm)" "case x of (p, q, _) \<Rightarrow> p = n \<and> q = t" by (auto simp: filter_eq_Cons_iff)
  then show ?thesis using that x by (cases x) (auto simp: find_ciphertext_def)
qed

text \<open>
  A member meets the committer's path at level \<open>Suc m\<close>. What it needs is below that level: the
  secrets of the non-blank nodes there, matching their public keys.
\<close>

lemma adopt_sel [simp]:
  "tg_secrets (adopt_updates us g) = tg_secrets g" "tg_me (adopt_updates us g) = tg_me g"
  "tg_profile (adopt_updates us g) = tg_profile g"
  by (simp_all add: adopt_updates_def)

lemma rekeyed_at: "k \<le> d \<Longrightarrow> rekeyed P profile d c s0 m (anc c k) = Some (pub_of P profile (secret_chain P s0 (Suc d) ! k))"
  by (simp add: rekeyed_def map_add_def path_keys_at del: secret_chain.simps)

lemma rekeyed_other: "(\<forall>k\<le>d. n \<noteq> anc c k) \<Longrightarrow> rekeyed P profile d c s0 m n = m n"
  using path_keys_none[of d n c P s0] by (simp add: rekeyed_def map_add_def)

definition ready :: "prims \<Rightarrow> nat \<Rightarrow> nat \<Rightarrow> treekem_group \<Rightarrow> bool" where
  "ready P d m r \<longleftrightarrow>
     map_of (tg_public r) (nd_leaf (tg_me r)) \<noteq> None \<and>
     (\<forall>n s. map_of (tg_secrets r) n = Some s \<longrightarrow> (\<exists>k\<le>d. n = anc (tg_me r) k) \<and> length s = 32) \<and>
     (\<forall>k s. k \<le> m \<longrightarrow> map_of (tg_secrets r) (anc (tg_me r) k) = Some s \<longrightarrow>
        map_of (tg_public r) (anc (tg_me r) k) = Some (pub_of P (tg_profile r) s)) \<and>
     (\<forall>k\<le>m. map_of (tg_public r) (anc (tg_me r) k) \<noteq> None \<longrightarrow> map_of (tg_secrets r) (anc (tg_me r) k) \<noteq> None)"

lemma ready_path:
  assumes "ready P d m r" "map_of (tg_secrets r) n = Some s"
  obtains k where "k \<le> d" "n = anc (tg_me r) k" "length s = 32"
  using assms unfolding ready_def by blast

text \<open>The update path of a commit by leaf \<open>c\<close> with fresh leaf secret \<open>s0\<close>, as \<open>rekey_path\<close> builds it.\<close>

definition update_path :: "prims \<Rightarrow> tk_coins \<Rightarrow> kem_profile \<Rightarrow> nat \<Rightarrow> nat \<Rightarrow> bytes \<Rightarrow> (node \<times> ratchet_public) list \<Rightarrow> commit \<Rightarrow> bool" where
  "update_path P coins profile d c s0 pub cm \<longleftrightarrow>
     cm_path cm = map (anc c) [0..<Suc d] \<and> cm_pub_updates cm = pub_updates_of P profile (path_keys P d c s0) \<and>
     seal_path P coins pub (anc c 0) (tl (path_keys P d c s0)) = Inr (cm_ciphertexts cm)"

lemma rekeyed_levels:
  assumes "meets d c r m"
  shows "k \<le> m \<Longrightarrow> rekeyed P profile d c s0 f (anc r k) = f (anc r k)"
    and "m < k \<Longrightarrow> anc r k = anc c k"
    and "m < k \<Longrightarrow> k \<le> d \<Longrightarrow> rekeyed P profile d c s0 f (anc r k) = Some (pub_of P profile (secret_chain P s0 (Suc d) ! k))"
proof -
  show up: "anc r k = anc c k" if "m < k" for k using assms that by (auto simp: meets_def)
  show "rekeyed P profile d c s0 f (anc r k) = f (anc r k)" if "k \<le> m"
    using assms that by (intro rekeyed_other) (auto simp: meets_def)
  show "rekeyed P profile d c s0 f (anc r k) = Some (pub_of P profile (secret_chain P s0 (Suc d) ! k))" if "m < k" "k \<le> d"
    unfolding up[OF that(1)] by (rule rekeyed_at[OF that(2)])
qed

lemma meet_ready:
  assumes m: "meets d c (tg_me r) m" and ready: "ready P d m r"
    and pub: "map_of pub = rekeyed P (tg_profile r) d c s0 (map_of (tg_public r))"
  obtains t s where "meet pub (tg_secrets r) (anc c 0) (map (anc c) [1..<Suc d]) =
        Some (t, s, anc c (Suc m), map (anc c) [Suc (Suc m)..<Suc d])"
    "t \<in> set (resolution pub (nd_sibling (anc c m)))" "map_of pub t = Some (pub_of P (tg_profile r) s)"
proof -
  let ?me = "tg_me r"
  have low: "map_of pub (anc ?me k) = map_of (tg_public r) (anc ?me k)" if "k \<le> m" for k
    unfolding pub using rekeyed_levels(1)[OF m that] .
  obtain t s where t: "meet pub (tg_secrets r) (anc c 0) (map (anc c) [1..<Suc d]) =
        Some (t, s, anc c (Suc m), map (anc c) [Suc (Suc m)..<Suc d])"
      "t \<in> set (resolution pub (nd_sibling (anc c m)))" "map_of (tg_secrets r) t = Some s" "covers t ?me"
  proof (rule meet_found[OF m, of "tg_secrets r" pub])
    show "covers n ?me" if "map_of (tg_secrets r) n = Some s" for n s
      by (rule ready_path[OF ready that]) simp
    show "map_of pub (nd_leaf ?me) \<noteq> None" using ready low[of 0] by (simp add: ready_def anc_leaf)
    show "map_of (tg_secrets r) (anc ?me k) \<noteq> None" if "k \<le> m" "map_of pub (anc ?me k) \<noteq> None" for k
      using that ready low[of k] by (simp add: ready_def)
  qed
  have "nd_sibling (anc c m) = anc ?me m" using m by (intro sibling_anc) (auto simp: meets_def)
  moreover obtain j where "t = anc ?me j" by (rule ready_path[OF ready t(3)])
  ultimately have j: "t = anc ?me j" "j \<le> m" using resolution_span[OF t(2)] by auto
  then have "map_of pub t = Some (pub_of P (tg_profile r) s)" using ready t(3) low[of j] by (simp add: ready_def)
  then show ?thesis using that t by blast
qed

lemma opened_ciphertext:
  assumes laws: "tree_laws P" and s0: "length s0 = 32" and m: "m < d"
    and cm: "update_path P coins profile d c s0 pub' cm" and pub': "map_of pub' = map_of pub"
    and t: "t \<in> set (resolution pub (nd_sibling (anc c m)))" "map_of pub t = Some (pub_of P profile s)"
    and sk: "node_key P coin profile s = Inr (sk, pub_of P profile s)"
  obtains b where "find_ciphertext cm (anc c (Suc m)) t = Some b" "open_secret P sk b = Inr (secret_chain P s0 (Suc d) ! Suc m)"
proof -
  let ?chain = "secret_chain P s0 (Suc d)"
  have seal: "seal_path P coins pub (anc c 0) (tl (path_keys P d c s0)) = Inr (cm_ciphertexts cm)"
    using cm seal_path_cong[OF pub'] by (simp add: update_path_def)
  have "t \<in> set (resolution pub (nd_sibling (map (anc c) [0..<Suc d] ! m)))" using t(1) m by (simp del: upt_Suc)
  then obtain b where "(map (anc c) [0..<Suc d] ! Suc m, t, b) \<in> set (cm_ciphertexts cm)"
    using seal_path_complete[of P coins pub "map (anc c) [0..<Suc d]" ?chain "cm_ciphertexts cm" m t] seal m
    by (auto simp: path_keys_def simp del: upt_Suc secret_chain.simps)
  then have "(anc c (Suc m), t, b) \<in> set (cm_ciphertexts cm)" using m by (simp del: upt_Suc)
  then obtain b' where b': "find_ciphertext cm (anc c (Suc m)) t = Some b'" "(anc c (Suc m), t, b') \<in> set (cm_ciphertexts cm)"
    by (rule find_ciphertext_Some)
  obtain s' where "(anc c (Suc m), s') \<in> set (tl (path_keys P d c s0))"
      and seals: "seal_secret P (tc_enc coins (anc c (Suc m)) t) (pub_of P profile s) s' = Inr b'"
    using seal_path_sound[OF seal b'(2)] t(2) by auto
  then have s': "(anc c (Suc m), s') \<in> set (path_keys P d c s0)" by (cases "path_keys P d c s0") auto
  have "s' = ?chain ! Suc m"
    using map_of_is_SomeI[OF path_keys_distinct s'] path_keys_at[of "Suc m" d P c s0] m by (simp del: secret_chain.simps)
  moreover have "length s' = 32" using path_keys_sized[OF _ s0 s'] laws by (simp add: tree_laws_def)
  ultimately show ?thesis using that b'(1) open_sealed[OF laws sk seals] by simp
qed

lemma learned_path:
  assumes laws: "tree_laws P" and m: "meets d c (tg_me r) m" and ready: "ready P d m r" and s0: "length s0 = 32"
    and pub: "map_of pub = rekeyed P (tg_profile r) d c s0 (map_of (tg_public r))"
    and sec: "map_of sec = map_of (tg_secrets r) ++ map_of (drop (Suc m) (path_keys P d c s0))"
  shows "holds P d (r\<lparr>tg_public := pub, tg_secrets := sec\<rparr>)"
proof -
  let ?me = "tg_me r" and ?chain = "secret_chain P s0 (Suc d)" and ?keys = "drop (Suc m) (path_keys P d c s0)"
  have md: "Suc m \<le> d" using m by (simp add: meets_def)
  have keys: "map_of ?keys (anc ?me k) = (if m < k then Some (?chain ! k) else None)" if "k \<le> d" for k
  proof (cases "m < k")
    case True
    then show ?thesis using map_of_drop_path_keys(1)[OF md that, of P c s0] unfolding rekeyed_levels(2)[OF m True] by (simp del: secret_chain.simps)
  next
    case False
    then show ?thesis using m by (simp del: secret_chain.simps) (intro map_of_drop_path_keys(2)[OF md], auto simp: meets_def)
  qed
  have dom: "\<exists>k\<le>d. n = anc ?me k" if "map_of sec n = Some x" for n x
  proof (cases "map_of ?keys n")
    case None
    then have "map_of (tg_secrets r) n = Some x" using that by (simp add: sec map_add_def)
    then show ?thesis by (rule ready_path[OF ready]) blast
  next
    case (Some y)
    then show ?thesis using map_of_drop_path_keys(2)[OF md, of n c P s0] rekeyed_levels(2)[OF m] by (metis Suc_le_lessD option.distinct(1))
  qed
  have sized: "length (?chain ! k) = 32" if "k \<le> d" for k
    using secret_chain_sized[of P s0 "?chain ! k" "Suc d"] laws s0 that by (simp add: tree_laws_def del: secret_chain.simps)
  have fits: "length x = 32 \<and> map_of pub (anc ?me k) = Some (pub_of P (tg_profile r) x)"
    if "k \<le> d" "map_of sec (anc ?me k) = Some x" for k x
    using that keys[OF that(1)] sized[OF that(1)] ready rekeyed_levels(1,3)[OF m, of k P "tg_profile r" s0 "map_of (tg_public r)"]
    by (cases "m < k") (auto simp: sec map_add_def pub ready_def simp del: secret_chain.simps)
  have held: "map_of sec (anc ?me k) \<noteq> None" if "k \<le> d" "map_of pub (anc ?me k) \<noteq> None" for k
    using that keys[OF that(1)] ready rekeyed_levels(1)[OF m, of k P "tg_profile r" s0 "map_of (tg_public r)"]
    by (cases "m < k") (auto simp: sec map_add_def pub ready_def simp del: secret_chain.simps)
  have "(\<exists>k\<le>d. n = anc ?me k) \<and> length x = 32 \<and> map_of pub n = Some (pub_of P (tg_profile r) x)" if a: "map_of sec n = Some x" for n x
  proof -
    obtain k where "k \<le> d" "n = anc ?me k" using dom[OF a] by blast
    then show ?thesis using fits[of k x] a by blast
  qed
  then show ?thesis unfolding holds_def using held by simp
qed

lemma process_update_path_run:
  assumes "cm_path cm = n0 # ns" "g' = adopt_updates (cm_pub_updates cm) g"
    and "meet (tg_public g') (tg_secrets g) n0 ns = Some (t, s, n, ups)" "find_ciphertext cm n t = Some b"
    and "node_key P (pct t) (tg_profile g) s = Inr (sk, pk)" "open_secret P sk b = Inr x"
    and "secret_chain P x (Suc (length ups)) = ss"
  shows "process_update_path P pct cm g = (Inr (derive_commit_secret P (last ss)),
    g\<lparr>tg_public := tg_public g', tg_secrets := foldl (\<lambda>m (n, s). AList.update n s m) (tg_secrets g) (zip (n # ups) ss)\<rparr>)"
  using assms unfolding process_update_path_def by (simp add: Let_def del: secret_chain.simps) (simp add: adopt_updates_def)

lemma process_commit:
  assumes laws: "tree_laws P" and m: "meets d c (tg_me r) m" and ready: "ready P d m r" and s0: "length s0 = 32"
    and cm: "update_path P coins (tg_profile r) d c s0 pub cm"
    and pub: "map_of pub = rekeyed P (tg_profile r) d c s0 (map_of (tg_public r))"
  obtains p s where "process_update_path P pct cm r =
      (Inr (derive_commit_secret P (last (secret_chain P s0 (Suc d)))), r\<lparr>tg_public := p, tg_secrets := s\<rparr>)"
    "map_of p = map_of pub" "holds P d (r\<lparr>tg_public := p, tg_secrets := s\<rparr>)"
proof -
  let ?r = "adopt_updates (cm_pub_updates cm) r" and ?chain = "secret_chain P s0 (Suc d)"
  let ?ups = "map (anc c) [Suc (Suc m)..<Suc d]" and ?keys = "drop (Suc m) (path_keys P d c s0)"
  let ?sec = "foldl (\<lambda>m (n, s). AList.update n s m) (tg_secrets r) ?keys"
  have rpub: "map_of (tg_public ?r) = map_of pub"
    using cm unfolding pub adopt_updates_def update_path_def by (simp add: adopt_rekeyed)
  obtain t s where t: "meet (tg_public ?r) (tg_secrets r) (anc c 0) (map (anc c) [1..<Suc d]) = Some (t, s, anc c (Suc m), ?ups)"
      "t \<in> set (resolution (tg_public ?r) (nd_sibling (anc c m)))" "map_of (tg_public ?r) t = Some (pub_of P (tg_profile r) s)"
    using meet_ready[OF m ready trans[OF rpub pub]] .
  have md: "m < d" "Suc m \<le> d" using m by (auto simp: meets_def)
  obtain sk where sk: "node_key P (pct t) (tg_profile r) s = Inr (sk, pub_of P (tg_profile r) s)"
    using node_key_laws[OF laws, of "tg_profile r" s] by metis
  obtain b where b: "find_ciphertext cm (anc c (Suc m)) t = Some b" "open_secret P sk b = Inr (?chain ! Suc m)"
    using opened_ciphertext[OF laws s0 md(1) cm rpub[symmetric] t(2,3) sk] .
  have chain: "secret_chain P (?chain ! Suc m) (Suc (length ?ups)) = drop (Suc m) ?chain"
    using md secret_chain_drop[of "Suc m" "Suc d" P s0] by (simp add: Suc_diff_Suc del: upt_Suc secret_chain.simps)
  have "map (anc c) [Suc m..<Suc d] = anc c (Suc m) # ?ups" using md by (simp add: upt_conv_Cons del: upt_Suc)
  then have keys: "zip (anc c (Suc m) # ?ups) (drop (Suc m) ?chain) = ?keys"
    unfolding path_keys_def drop_zip drop_map drop_upt by (simp del: upt_Suc secret_chain.simps)
  have hd: "cm_path cm = anc c 0 # map (anc c) [1..<Suc d]"
    using cm by (simp add: update_path_def upt_conv_Cons del: upt_Suc)
  have "last (drop (Suc m) ?chain) = last ?chain" using md by (intro last_drop) (simp del: secret_chain.simps)
  then have run: "process_update_path P pct cm r =
      (Inr (derive_commit_secret P (last ?chain)), r\<lparr>tg_public := tg_public ?r, tg_secrets := ?sec\<rparr>)"
    using process_update_path_run[where g=r and pct=pct, OF hd refl t(1) b(1) sk b(2) chain] unfolding keys by simp
  have "map_of ?sec = map_of (tg_secrets r) ++ map_of ?keys"
    using path_keys_distinct[of P d c s0] by (simp add: map_of_updates map_of_rev drop_map[symmetric])
  then have "holds P d (r\<lparr>tg_public := tg_public ?r, tg_secrets := ?sec\<rparr>)"
    using learned_path[OF laws m ready s0 trans[OF rpub pub]] by blast
  then show ?thesis using that[OF run rpub] by blast
qed

end
