(* ===== verification/TreeGroup.thy ===== *)
theory TreeGroup
  imports TreeCommit
begin

text \<open>
  The operations of a TreeKEM group: what a proposal does to the shared tree, what the host's
  commit does to the host, and that a member which applies the commit, or a joiner that uses
  the Welcome, ends in step with the host.
\<close>

section \<open>What the members of a group share\<close>

text \<open>The public state: leaves, keys of nodes and signing keys fit together.\<close>

definition keyed :: "prims \<Rightarrow> treekem_group \<Rightarrow> bool" where
  "keyed P g \<longleftrightarrow> (\<forall>n p. map_of (tg_public g) n = Some p \<longrightarrow> (\<exists>s. p = pub_of P (tg_profile g) s))"

definition tree_ok :: "prims \<Rightarrow> nat \<Rightarrow> treekem_group \<Rightarrow> bool" where
  "tree_ok P d g \<longleftrightarrow>
     tg_capacity g = 2 ^ d \<and> length (tg_occupied g) = 2 ^ d \<and>
     (\<forall>l<2 ^ d. tg_occupied g ! l \<longleftrightarrow> map_of (tg_public g) (nd_leaf l) \<noteq> None) \<and>
     (\<forall>n. map_of (tg_public g) n \<noteq> None \<longrightarrow> nd_span n \<noteq> 0 \<and> nd_lo n + nd_span n \<le> 2 ^ d) \<and>
     (\<forall>l. map_of (tg_leaf_sig_keys g) l \<noteq> None \<longleftrightarrow> l < 2 ^ d \<and> tg_occupied g ! l) \<and> keyed P g"

text \<open>A member at an occupied leaf with its own signing key.\<close>

definition signs :: "prims \<Rightarrow> treekem_group \<Rightarrow> bool" where
  "signs P g \<longleftrightarrow> (\<exists>seed. tg_my_sig g = Some (from_secret_bytes P seed) \<and>
     map_of (tg_leaf_sig_keys g) (tg_me g) = Some (id_public (from_secret_bytes P seed)))"

definition member :: "prims \<Rightarrow> nat \<Rightarrow> treekem_group \<Rightarrow> bool" where
  "member P d g \<longleftrightarrow> tree_ok P d g \<and> holds P d g \<and> tg_me g < 2 ^ d \<and> tg_occupied g ! tg_me g \<and> signs P g"

definition in_step :: "treekem_group \<Rightarrow> treekem_group \<Rightarrow> bool" where
  "in_step h g \<longleftrightarrow> same_tree h g \<and> tg_epoch h = tg_epoch g \<and> tg_epoch_secret h = tg_epoch_secret g"

text \<open>What the host keeps to welcome joiners: a proof of possession for every signing key.\<close>

definition host_ok :: "prims \<Rightarrow> nat \<Rightarrow> treekem_group \<Rightarrow> bool" where
  "host_ok P d h \<longleftrightarrow>
     member P d h \<and> tg_me h = HOST_LEAF \<and> distinct (map fst (tg_public h)) \<and> distinct (map fst (tg_leaf_sig_keys h)) \<and>
     (\<forall>l k. map_of (tg_leaf_sig_keys h) l = Some k \<longrightarrow> (\<exists>pop. map_of (tg_leaf_pops h) l = Some pop \<and> verify_pop P k pop = Inr ()))"

definition proposal_ok :: "prims \<Rightarrow> treekem_group \<Rightarrow> proposal \<Rightarrow> bool" where
  "proposal_ok P g p \<longleftrightarrow> proposal_leaf p < length (tg_occupied g) \<and> proposal_leaf p \<noteq> HOST_LEAF \<and>
     (case p of
        PAdd l lp sp pop \<Rightarrow> \<not> tg_occupied g ! l \<and> verify_pop P sp pop = Inr () \<and> (\<exists>s. lp = pub_of P (tg_profile g) s)
      | PRemove l \<Rightarrow> True
      | PUpdate l lp sp pop auth \<Rightarrow>
          tg_occupied g ! l \<and> verify_pop P sp pop = Inr () \<and> (\<exists>s. lp = pub_of P (tg_profile g) s) \<and>
          (\<exists>cur. map_of (tg_leaf_sig_keys g) l = Some cur \<and> id_verify P cur (update_auth_transcript l lp sp) auth = Inr ()))"

text \<open>The keys a proposal leaves at its leaf.\<close>

definition proposed :: "proposal \<Rightarrow> (ratchet_public \<times> identity_public) option" where
  "proposed p = (case p of PAdd l lp sp pop \<Rightarrow> Some (lp, sp) | PRemove l \<Rightarrow> None | PUpdate l lp sp pop auth \<Rightarrow> Some (lp, sp))"

lemma holds_path:
  assumes "holds P d g" "map_of (tg_secrets g) n = Some s"
  shows "\<exists>k\<le>d. n = anc (tg_me g) k"
  using assms unfolding holds_def by blast

section \<open>Blanking\<close>

definition blanked :: "nat \<Rightarrow> nat \<Rightarrow> (node \<times> 'a) list \<Rightarrow> (node \<times> 'a) list" where
  "blanked d l m = foldl (\<lambda>m p. AList.delete p m) m (map (anc l) [1..<Suc d])"

lemma blank_path_above_fold:
  "blank_path_above l g = g\<lparr>tg_public := foldl (\<lambda>m p. AList.delete p m) (tg_public g) (tl (path_to_root g l)),
     tg_secrets := foldl (\<lambda>m p. AList.delete p m) (tg_secrets g) (tl (path_to_root g l))\<rparr>"
proof -
  have "foldl (\<lambda>g p. g\<lparr>tg_public := AList.delete p (tg_public g), tg_secrets := AList.delete p (tg_secrets g)\<rparr>) g ps =
      g\<lparr>tg_public := foldl (\<lambda>m p. AList.delete p m) (tg_public g) ps, tg_secrets := foldl (\<lambda>m p. AList.delete p m) (tg_secrets g) ps\<rparr>" for ps
    by (induction ps arbitrary: g) simp_all
  then show ?thesis by (simp add: blank_path_above_def)
qed

lemma blank_path_above_eq:
  "tg_capacity g = 2 ^ d \<Longrightarrow> blank_path_above l g = g\<lparr>tg_public := blanked d l (tg_public g), tg_secrets := blanked d l (tg_secrets g)\<rparr>"
  unfolding blank_path_above_fold blanked_def by (simp add: path_to_root_anc upt_conv_Cons del: upt_Suc)

definition over :: "nat \<Rightarrow> nat \<Rightarrow> node \<Rightarrow> bool" where
  "over d l n \<longleftrightarrow> (\<exists>k>0. k \<le> d \<and> n = anc l k)"

lemma map_of_blanked: "map_of (blanked d l m) n = (if over d l n then None else map_of m n)"
  unfolding blanked_def map_of_deletes over_def by (auto simp: less_Suc_eq_le simp del: upt_Suc)

lemma distinct_blanked: "distinct (map fst m) \<Longrightarrow> distinct (map fst (blanked d l m))"
proof -
  have "distinct (map fst m) \<Longrightarrow> distinct (map fst (foldl (\<lambda>m p. AList.delete p m) m ps))" for ps
    by (induction ps arbitrary: m) (simp_all add: distinct_delete)
  then show "distinct (map fst m) \<Longrightarrow> distinct (map fst (blanked d l m))" by (simp add: blanked_def)
qed

lemma nd_leaf_simps [simp]: "nd_leaf l = nd_leaf m \<longleftrightarrow> l = m" "nd_lo (nd_leaf l) = l" "nd_span (nd_leaf l) = 1"
  by (simp_all add: nd_leaf_def)

lemma over_leaf [simp]: "\<not> over d l (nd_leaf m)"
  by (auto simp: over_def simp flip: anc_leaf)

lemma over_anc: "over d l (anc m k) \<longleftrightarrow> 0 < k \<and> k \<le> d \<and> l div 2 ^ k = m div 2 ^ k"
  by (auto simp: over_def)

section \<open>Applying a proposal\<close>

lemma same_tree_blank: "same_tree g h \<Longrightarrow> same_tree (blank_path_above l g) (blank_path_above l h)"
  by (auto simp: same_tree_def blank_path_above_fold path_to_root_def map_of_deletes fun_eq_iff)

lemma same_tree_proposal:
  assumes "same_tree g h"
  shows "fst (apply_proposal P p g) = fst (apply_proposal P p h) \<and> same_tree (snd (apply_proposal P p g)) (snd (apply_proposal P p h))"
proof -
  have pend: "same_tree (install_pending P l g) (install_pending P l h)" if "same_tree g h" for l g h
    using that by (auto simp: same_tree_def install_pending_def split: option.split)
  have bind: "same_tree (bind_leaf l a b c g) (bind_leaf l a b c h)" if "same_tree g h" for l a b c g h
    using that by (auto simp: same_tree_def bind_leaf_def update_conv')
  have occ: "same_tree (g\<lparr>tg_occupied := (tg_occupied h)[l := b]\<rparr>) (h\<lparr>tg_occupied := (tg_occupied h)[l := b]\<rparr>)" for l b
    using assms by (auto simp: same_tree_def)
  have rem: "same_tree (g\<lparr>tg_occupied := (tg_occupied h)[l := False], tg_secrets := s, tg_public := AList.delete n (tg_public g),
       tg_leaf_sig_keys := AList.delete l (tg_leaf_sig_keys g), tg_leaf_pops := q\<rparr>)
     (h\<lparr>tg_occupied := (tg_occupied h)[l := False], tg_secrets := s', tg_public := AList.delete n (tg_public h),
       tg_leaf_sig_keys := AList.delete l (tg_leaf_sig_keys h), tg_leaf_pops := q'\<rparr>)" for l n s s' q q'
    using assms by (auto simp: same_tree_def delete_conv')
  have eq: "tg_occupied g = tg_occupied h" "map_of (tg_leaf_sig_keys g) = map_of (tg_leaf_sig_keys h)"
    using assms by (auto simp: same_tree_def)
  show ?thesis
    using assms by (cases p) (auto simp: apply_proposal_def eq split: option.split intro!: same_tree_blank pend bind occ rem)
qed

lemma same_tree_proposals:
  assumes "same_tree g h"
  shows "fst (apply_proposals P ps g) = fst (apply_proposals P ps h) \<and> same_tree (snd (apply_proposals P ps g)) (snd (apply_proposals P ps h))"
  using assms
proof (induction ps arbitrary: g h)
  case (Cons p ps)
  obtain r g1 s h1 where "apply_proposal P p g = (r, g1)" "apply_proposal P p h = (s, h1)" by fastforce
  then show ?case using same_tree_proposal[OF Cons.prems, of P p] Cons.IH[of g1 h1] by (auto simp: bind_op_def split: sum.split)
qed simp

text \<open>What an acceptable proposal does, to everyone and to the secrets of a member at another leaf.\<close>

lemma apply_add:
  assumes "tg_capacity g = 2 ^ d" "proposal_ok P g (PAdd l lp sp pop)"
  shows "apply_proposal P (PAdd l lp sp pop) g = (Inr (), g\<lparr>tg_occupied := (tg_occupied g)[l := True],
    tg_public := blanked d l (AList.update (nd_leaf l) lp (tg_public g)), tg_secrets := blanked d l (tg_secrets g),
    tg_leaf_sig_keys := AList.update l sp (tg_leaf_sig_keys g), tg_leaf_pops := AList.update l pop (tg_leaf_pops g)\<rparr>)"
  using assms by (simp add: apply_proposal_def proposal_ok_def proposal_leaf_def bind_leaf_def blank_path_above_eq[where d = d])

lemma apply_remove:
  assumes "tg_capacity g = 2 ^ d" "proposal_ok P g (PRemove l)"
  shows "apply_proposal P (PRemove l) g = (Inr (), g\<lparr>tg_occupied := (tg_occupied g)[l := False],
    tg_public := blanked d l (AList.delete (nd_leaf l) (tg_public g)), tg_secrets := blanked d l (AList.delete (nd_leaf l) (tg_secrets g)),
    tg_leaf_sig_keys := AList.delete l (tg_leaf_sig_keys g), tg_leaf_pops := AList.delete l (tg_leaf_pops g)\<rparr>)"
  using assms by (simp add: apply_proposal_def proposal_ok_def proposal_leaf_def blank_path_above_eq[where d = d])

definition staged :: "treekem_group \<Rightarrow> nat \<Rightarrow> leaf_key_pair option" where
  "staged g l = (if l = tg_me g then tg_pending_update g else None)"

lemma apply_update:
  assumes "tg_capacity g = 2 ^ d" "proposal_ok P g (PUpdate l lp sp pop auth)"
  shows "apply_proposal P (PUpdate l lp sp pop auth) g = (Inr (), g\<lparr>
    tg_public := blanked d l (AList.update (nd_leaf l) lp (tg_public g)),
    tg_secrets := blanked d l (case staged g l of None \<Rightarrow> tg_secrets g | Some kp \<Rightarrow> AList.update (nd_leaf l) (lk_secret kp) (tg_secrets g)),
    tg_leaf_sig_keys := AList.update l sp (tg_leaf_sig_keys g), tg_leaf_pops := AList.update l pop (tg_leaf_pops g),
    tg_my_sig := (case staged g l of None \<Rightarrow> tg_my_sig g | Some kp \<Rightarrow> Some (from_secret_bytes P (sig_seed (lk_sig kp)))),
    tg_pending_update := (if l = tg_me g then None else tg_pending_update g)\<rparr>)"
proof -
  obtain cur where "map_of (tg_leaf_sig_keys g) l = Some cur" "id_verify P cur (update_auth_transcript l lp sp) auth = Inr ()"
    using assms(2) by (auto simp: proposal_ok_def)
  then have "apply_proposal P (PUpdate l lp sp pop auth) g =
      (Inr (), blank_path_above l (install_pending P l (bind_leaf l lp sp pop g)))"
    using assms(2) by (simp add: apply_proposal_def proposal_ok_def proposal_leaf_def)
  then show ?thesis
    using assms(1) by (cases "staged g l") (auto simp: staged_def install_pending_def bind_leaf_def blank_path_above_eq[where d = d])
qed

lemmas apply_ok = apply_add apply_remove apply_update

lemma blanked_update:
  "map_of (blanked d l (AList.update (nd_leaf l) x m)) n = (if over d l n then None else if n = nd_leaf l then Some x else map_of m n)"
  "map_of (blanked d l (AList.delete (nd_leaf l) m)) n = (if over d l n then None else if n = nd_leaf l then None else map_of m n)"
  by (auto simp add: map_of_blanked update_conv' delete_conv' restrict_map_def)

lemma apply_proposal_public:
  assumes cap: "tg_capacity g = 2 ^ d" and p: "proposal_ok P g p"
  shows "fst (apply_proposal P p g) = Inr ()"
    and "map_of (tg_public (snd (apply_proposal P p g))) n = (if over d (proposal_leaf p) n then None
           else if n = nd_leaf (proposal_leaf p) then map_option fst (proposed p) else map_of (tg_public g) n)"
    and "map_of (tg_leaf_sig_keys (snd (apply_proposal P p g))) =
           (map_of (tg_leaf_sig_keys g))(proposal_leaf p := map_option snd (proposed p))"
    and "tg_profile (snd (apply_proposal P p g)) = tg_profile g" "tg_capacity (snd (apply_proposal P p g)) = tg_capacity g"
      "tg_me (snd (apply_proposal P p g)) = tg_me g" "tg_epoch (snd (apply_proposal P p g)) = tg_epoch g"
      "tg_epoch_secret (snd (apply_proposal P p g)) = tg_epoch_secret g"
  using p by (cases p; simp add: apply_ok[OF cap] proposal_leaf_def proposed_def blanked_update update_conv' delete_conv'
      restrict_map_def fun_upd_def fun_eq_iff)+

lemma apply_proposal_occupied:
  assumes cap: "tg_capacity g = 2 ^ d" and p: "proposal_ok P g p"
  shows "tg_occupied (snd (apply_proposal P p g)) = (tg_occupied g)[proposal_leaf p := proposed p \<noteq> None]"
proof (cases p)
  case (PUpdate l lp sp pop auth)
  then have "tg_occupied g ! l" using p by (simp add: proposal_ok_def)
  then have "(tg_occupied g)[l := True] = tg_occupied g" using list_update_id[of "tg_occupied g" l] by simp
  then show ?thesis using p PUpdate by (simp add: apply_ok[OF cap] proposal_leaf_def proposed_def)
qed (use p in \<open>simp_all add: apply_ok[OF cap] proposal_leaf_def proposed_def\<close>)

lemma apply_proposal_secrets:
  assumes cap: "tg_capacity g = 2 ^ d" and p: "proposal_ok P g p" and other: "proposal_leaf p \<noteq> tg_me g"
  shows "tg_my_sig (snd (apply_proposal P p g)) = tg_my_sig g"
    and "tg_pending_update (snd (apply_proposal P p g)) = tg_pending_update g"
    and "map_of (tg_secrets (snd (apply_proposal P p g))) n =
           (if over d (proposal_leaf p) n then None else if n = nd_leaf (proposal_leaf p) \<and> proposed p = None then None else map_of (tg_secrets g) n)"
proof -
  have st: "staged g (proposal_leaf p) = None" using other by (simp add: staged_def)
  show "tg_my_sig (snd (apply_proposal P p g)) = tg_my_sig g" "tg_pending_update (snd (apply_proposal P p g)) = tg_pending_update g"
    using p other st by (cases p; simp add: apply_ok[OF cap] proposal_leaf_def)+
  show "map_of (tg_secrets (snd (apply_proposal P p g))) n =
       (if over d (proposal_leaf p) n then None else if n = nd_leaf (proposal_leaf p) \<and> proposed p = None then None else map_of (tg_secrets g) n)"
  proof (cases p)
    case (PAdd l lp sp pop)
    show ?thesis using p unfolding PAdd by (simp add: apply_add[OF cap] proposal_leaf_def proposed_def map_of_blanked)
  next
    case (PRemove l)
    show ?thesis using p unfolding PRemove by (simp add: apply_remove[OF cap] proposal_leaf_def proposed_def blanked_update)
  next
    case (PUpdate l lp sp pop auth)
    show ?thesis using p st unfolding PUpdate by (simp add: apply_update[OF cap] proposal_leaf_def proposed_def map_of_blanked)
  qed
qed

section \<open>Proposals keep members well-formed\<close>

lemma tree_ok_proposal:
  assumes g: "tree_ok P d g" and p: "proposal_ok P g p"
  shows "tree_ok P d (snd (apply_proposal P p g))"
proof -
  let ?l = "proposal_leaf p" and ?g = "snd (apply_proposal P p g)"
  have cap: "tg_capacity g = 2 ^ d" and len: "length (tg_occupied g) = 2 ^ d" using g by (auto simp: tree_ok_def)
  note pub = apply_proposal_public[OF cap p] and occ = apply_proposal_occupied[OF cap p]
  have l: "?l < 2 ^ d" using p len by (simp add: proposal_ok_def)
  have "\<exists>s. lp = pub_of P (tg_profile g) s" if "proposed p = Some (lp, sp)" for lp sp
    using p that by (cases p) (auto simp: proposal_ok_def proposed_def)
  then have keyed: "keyed P ?g"
    using g unfolding keyed_def tree_ok_def by (auto simp: pub split: if_splits)
  have leaf: "tg_occupied ?g ! m \<longleftrightarrow> map_of (tg_public ?g) (nd_leaf m) \<noteq> None" if "m < 2 ^ d" for m
    using g l that len by (cases "m = ?l") (simp_all add: occ pub tree_ok_def)
  have range: "nd_span n \<noteq> 0 \<and> nd_lo n + nd_span n \<le> 2 ^ d" if "map_of (tg_public ?g) n \<noteq> None" for n
    using that g l by (cases "n = nd_leaf ?l") (auto simp: pub tree_ok_def split: if_splits)
  have sig: "map_of (tg_leaf_sig_keys ?g) m \<noteq> None \<longleftrightarrow> m < 2 ^ d \<and> tg_occupied ?g ! m" for m
    using g l len by (cases "m = ?l") (auto simp: occ pub tree_ok_def)
  show ?thesis
    unfolding tree_ok_def using keyed leaf range sig len cap by (simp add: pub(5) occ del: pub(2,3))
qed

lemma holds_other:
  assumes g: "holds P d g" and cap: "tg_capacity g = 2 ^ d" and p: "proposal_ok P g p" and other: "proposal_leaf p \<noteq> tg_me g"
  shows "holds P d (snd (apply_proposal P p g))"
proof -
  let ?l = "proposal_leaf p" and ?g = "snd (apply_proposal P p g)"
  note pub = apply_proposal_public[OF cap p] and sec = apply_proposal_secrets(3)[OF cap p other]
  have away: "anc (tg_me g) k \<noteq> nd_leaf ?l" for k using other by (auto simp flip: anc_leaf)
  have at: "map_of (tg_public ?g) (anc (tg_me g) k) = (if over d ?l (anc (tg_me g) k) then None else map_of (tg_public g) (anc (tg_me g) k))"
      "map_of (tg_secrets ?g) (anc (tg_me g) k) = (if over d ?l (anc (tg_me g) k) then None else map_of (tg_secrets g) (anc (tg_me g) k))" for k
    using away[of k] by (simp_all add: pub(2) sec)
  have "map_of (tg_secrets g) n = Some s" if "map_of (tg_secrets ?g) n = Some s" for n s
    using that by (simp add: sec split: if_splits)
  then have path: "\<exists>k\<le>d. n = anc (tg_me g) k" if "map_of (tg_secrets ?g) n = Some s" for n s
    using g that unfolding holds_def by blast
  have fits: "length s = 32 \<and> map_of (tg_public ?g) n = Some (pub_of P (tg_profile g) s)" if n: "map_of (tg_secrets ?g) n = Some s" for n s
  proof -
    obtain k where k: "k \<le> d" "n = anc (tg_me g) k" using path[OF n] by blast
    then have "\<not> over d ?l n" "map_of (tg_secrets g) n = Some s" using n at(2)[of k] by (auto split: if_splits)
    then show ?thesis using g at(1)[of k] k unfolding holds_def by simp
  qed
  have "map_of (tg_secrets ?g) (anc (tg_me g) k) \<noteq> None" if "k \<le> d" "map_of (tg_public ?g) (anc (tg_me g) k) \<noteq> None" for k
    using that g unfolding at holds_def by (simp split: if_splits)
  then show ?thesis unfolding holds_def using path fits by (simp add: pub(4,6))
qed

lemma member_other:
  assumes g: "member P d g" and p: "proposal_ok P g p" and other: "proposal_leaf p \<noteq> tg_me g"
  shows "member P d (snd (apply_proposal P p g))"
proof -
  have cap: "tg_capacity g = 2 ^ d" using g by (simp add: member_def tree_ok_def)
  have "signs P (snd (apply_proposal P p g))"
    using g other apply_proposal_public(3,6)[OF cap p] apply_proposal_secrets(1)[OF cap p other] unfolding member_def signs_def by auto
  moreover have "tree_ok P d (snd (apply_proposal P p g))" using tree_ok_proposal[OF _ p] g by (simp add: member_def)
  moreover have "holds P d (snd (apply_proposal P p g))" using holds_other[OF _ cap p other] g by (simp add: member_def)
  ultimately show ?thesis
    using g other unfolding member_def by (simp add: apply_proposal_public(6)[OF cap p] apply_proposal_occupied[OF cap p])
qed

text \<open>The member whose own proposal is committed installs the staged keys.\<close>

lemma member_own:
  assumes g: "member P d g" and p: "proposal_ok P g p"
    and p_def: "p = PUpdate (tg_me g) (pub_of P (tg_profile g) (lk_secret kp)) (id_public (lk_sig kp)) pop auth"
    and kp: "tg_pending_update g = Some kp" "lk_sig kp = from_secret_bytes P seed" "length (lk_secret kp) = 32"
  shows "member P d (snd (apply_proposal P p g))"
proof -
  let ?me = "tg_me g" and ?g = "snd (apply_proposal P p g)"
  have cap: "tg_capacity g = 2 ^ d" using g by (simp add: member_def tree_ok_def)
  have leaf: "proposal_leaf p = ?me" and new: "proposed p = Some (pub_of P (tg_profile g) (lk_secret kp), id_public (lk_sig kp))"
    by (simp_all add: p_def proposal_leaf_def proposed_def)
  have sec: "map_of (tg_secrets ?g) n = (if over d ?me n then None else if n = nd_leaf ?me then Some (lk_secret kp) else map_of (tg_secrets g) n)" for n
    using p kp(1) unfolding p_def by (simp add: apply_update[OF cap] staged_def blanked_update)
  have mine: "tg_my_sig ?g = Some (from_secret_bytes P seed)"
    using p kp(1,2) unfolding p_def by (simp add: apply_update[OF cap] staged_def from_secret_bytes_def)
  note pub = apply_proposal_public[OF cap p, unfolded leaf new]
  have only: "k = 0" if "map_of (tg_secrets ?g) (anc ?me k) \<noteq> None \<or> map_of (tg_public ?g) (anc ?me k) \<noteq> None" "k \<le> d" for k
    using that by (cases k) (auto simp: sec pub(2) over_anc)
  have "\<exists>k\<le>d. n = anc ?me k" if "map_of (tg_secrets ?g) n = Some s" for n s
  proof (cases "n = nd_leaf ?me")
    case True
    then show ?thesis by (metis anc_leaf le0)
  next
    case False
    then have "map_of (tg_secrets g) n = Some s" using that by (simp add: sec split: if_splits)
    then show ?thesis using g unfolding member_def holds_def by blast
  qed
  then have path: "n = nd_leaf ?me \<and> s = lk_secret kp" if "map_of (tg_secrets ?g) n = Some s" for n s
    using only that by (metis anc_leaf option.distinct(1) option.inject over_leaf sec)
  have fits: "(\<exists>k\<le>d. n = anc ?me k) \<and> length s = 32 \<and> map_of (tg_public ?g) n = Some (pub_of P (tg_profile g) s)"
    if n: "map_of (tg_secrets ?g) n = Some s" for n s
    using path[OF n] kp(3) by (simp add: pub(2)) (metis anc_leaf le0)
  have "map_of (tg_secrets ?g) (anc ?me k) \<noteq> None" if "k \<le> d" "map_of (tg_public ?g) (anc ?me k) \<noteq> None" for k
    using only[OF disjI2[OF that(2)] that(1)] by (simp add: anc_leaf sec)
  then have "holds P d ?g" unfolding holds_def pub(4,6) using fits by blast
  moreover have "signs P ?g" unfolding signs_def using mine kp(2) by (auto simp: pub(3,6))
  moreover have "length (tg_occupied g) = 2 ^ d" using g by (simp add: member_def tree_ok_def)
  ultimately show ?thesis
    using g tree_ok_proposal[OF _ p] unfolding member_def by (simp add: pub(6) apply_proposal_occupied[OF cap p] leaf new)
qed

lemma host_keys_proposal:
  assumes h: "host_ok P d h" and p: "proposal_ok P h p"
  shows "host_ok P d (snd (apply_proposal P p h))"
proof -
  let ?h = "snd (apply_proposal P p h)"
  have other: "proposal_leaf p \<noteq> tg_me h" using h p by (simp add: host_ok_def proposal_ok_def)
  have cap: "tg_capacity h = 2 ^ d" using h by (simp add: host_ok_def member_def tree_ok_def)
  have pops: "\<exists>pop. map_of (tg_leaf_pops ?h) l = Some pop \<and> verify_pop P k pop = Inr ()"
    if k: "map_of (tg_leaf_sig_keys ?h) l = Some k" for l k
  proof (cases "l = proposal_leaf p")
    case True
    then show ?thesis using p k unfolding apply_proposal_public(3)[OF cap p]
      by (cases p) (auto simp: proposed_def proposal_leaf_def apply_ok[OF cap] update_conv' proposal_ok_def)
  next
    case False
    then have "map_of (tg_leaf_sig_keys h) l = Some k" using k by (simp add: apply_proposal_public(3)[OF cap p])
    moreover have "map_of (tg_leaf_pops ?h) l = map_of (tg_leaf_pops h) l"
      using p False by (cases p) (simp_all add: proposal_leaf_def apply_ok[OF cap] update_conv' delete_conv')
    ultimately show ?thesis using h by (simp add: host_ok_def)
  qed
  have "distinct (map fst (tg_public ?h)) \<and> distinct (map fst (tg_leaf_sig_keys ?h))"
    using h p by (cases p) (simp_all add: host_ok_def apply_ok[OF cap] distinct_blanked distinct_update distinct_delete)
  then show ?thesis
    unfolding host_ok_def using pops member_other[OF _ p other] h by (simp add: host_ok_def apply_proposal_public(6)[OF cap p])
qed

section \<open>The committer\<close>

lemma seal_secret_total:
  assumes laws: "tree_laws P" and s: "length s = 32"
  shows "\<exists>b. seal_secret P c (pub_of P profile s0) s = Inr b"
proof -
  obtain sk where kp: "key_pair P sk (pub_of P profile s0)" using node_key_laws[OF laws, of profile s0] by metis
  then have ek: "length (rp_kem_ek (pub_of P profile s0)) = EK_LEN" by (simp add: key_pair_def pub_ok_def)
  obtain ct ss where "kem_encapsulate P (rp_kem_ek (pub_of P profile s0)) c = Some (ct, ss)"
    using kp laws unfolding key_pair_def tree_laws_def kem_total_def by fastforce
  then have enc: "encapsulate P c (pub_of P profile s0) = Inr (ct, to_32 ss)" using ek by (simp add: encapsulate_def)
  obtain key nonce where kn: "kdf_mk P (to_32 ss) = (key, nonce)" by fastforce
  have len: "length key = 32" "length nonce = 12"
    using kdf_lengths(5,6)[of P "to_32 ss"] laws kn by (auto simp: tree_laws_def KEY_LEN_def NONCE_LEN_def)
  then obtain act where "gcm_encrypt P key nonce s (ascii ''tk-treekem'') = Some act"
    using laws s unfolding tree_laws_def gcm_total_def by (fastforce simp: ascii_def)
  then show ?thesis using enc kn len by (simp add: seal_secret_def aead_seal_def KEY_LEN_def)
qed

lemma seal_to_total:
  assumes "tree_laws P" "length s = 32" "\<And>t. t \<in> set ts \<Longrightarrow> \<exists>s0. map_of pub t = Some (pub_of P profile s0)"
  shows "\<exists>cts. seal_to P c pub n s ts = Inr cts"
  using assms(3)
proof (induction ts)
  case (Cons t ts)
  obtain s0 where "map_of pub t = Some (pub_of P profile s0)" using Cons.prems[of t] by auto
  moreover obtain b where "seal_secret P (tc_enc c n t) (pub_of P profile s0) s = Inr b" using seal_secret_total[OF assms(1,2)] by blast
  moreover obtain cts where "seal_to P c pub n s ts = Inr cts" using Cons by auto
  ultimately show ?case by simp
qed simp

lemma seal_path_total:
  assumes "tree_laws P" "\<And>n p. map_of pub n = Some p \<Longrightarrow> \<exists>s0. p = pub_of P profile s0" "\<And>n s. (n, s) \<in> set ns \<Longrightarrow> length s = 32"
  shows "\<exists>cts. seal_path P c pub below ns = Inr cts"
  using assms(3)
proof (induction ns arbitrary: below)
  case (Cons a ns)
  obtain n s where a: "a = (n, s)" by fastforce
  have "\<exists>s0. map_of pub t = Some (pub_of P profile s0)" if "t \<in> set (resolution pub (nd_sibling below))" for t
    using resolution_nonblank[OF that] assms(2) by fastforce
  then obtain cts where "seal_to P c pub n s (resolution pub (nd_sibling below)) = Inr cts"
    using seal_to_total[OF assms(1)] Cons.prems a by (metis list.set_intros(1))
  moreover obtain cts' where "seal_path P c pub n ns = Inr cts'" using Cons.IH[of n] Cons.prems by (meson list.set_intros(2))
  ultimately show ?case by (simp add: a)
qed simp

lemma encode_body_auth [simp]: "encode_body (cm\<lparr>cm_auth := a\<rparr>) = encode_body cm"
  by (simp add: encode_body_def)

lemma distinct_updates: "distinct (map fst m) \<Longrightarrow> distinct (map fst (foldl (\<lambda>m (n, x). AList.update n x m) m xs))"
  by (induction xs arbitrary: m) (auto simp: distinct_update)

definition signed_by_host :: "prims \<Rightarrow> treekem_group \<Rightarrow> commit \<Rightarrow> bool" where
  "signed_by_host P h cm \<longleftrightarrow>
     (\<forall>sk. tg_my_sig h = Some sk \<longrightarrow> cm_auth cm = id_sign P sk (commit_auth_transcript (tg_epoch h) (tg_me h) (encode_body cm)))"

lemma rekey_path_run:
  assumes laws: "tree_laws P" and cap: "tg_capacity h = 2 ^ d" and keyed: "keyed P h" and s0: "length (tc_secret c) = 32"
    and keys: "keys = path_keys P d (tg_me h) (tc_secret c)"
    and pub: "pub = foldl (\<lambda>m (n, p). AList.update n p m) (tg_public h) (pub_updates_of P (tg_profile h) keys)"
  obtains cm where "rekey_path P c ps su h = (Inr cm, reset_epoch P (h\<lparr>tg_public := pub,
      tg_secrets := foldl (\<lambda>m (n, s). AList.update n s m) (tg_secrets h) keys, tg_epoch := tg_epoch h + 1,
      tg_epoch_secret := derive_commit_secret P (last (secret_chain P (tc_secret c) (Suc d)))\<rparr>))"
    "update_path P c (tg_profile h) d (tg_me h) (tc_secret c) pub cm"
    "cm_proposals cm = ps" "cm_sig_update cm = su" "cm_new_capacity cm = 2 ^ d" "signed_by_host P h cm"
proof -
  let ?chain = "secret_chain P (tc_secret c) (Suc d)"
  have path: "path_to_root h (tg_me h) = map (anc (tg_me h)) [0..<Suc d]" using path_to_root_anc[OF cap] .
  have zip: "zip (map (anc (tg_me h)) [0..<Suc d]) ?chain = keys" by (simp add: keys path_keys_def del: upt_Suc secret_chain.simps)
  have pub_keyed: "\<exists>s. p = pub_of P (tg_profile h) s" if "map_of pub n = Some p" for n p
    using that keyed unfolding pub keys adopt_rekeyed by (auto simp: rekeyed_def keyed_def map_add_Some_iff)
  have "length s = 32" if "(n, s) \<in> set keys" for n s
    using path_keys_sized[OF _ s0] that laws by (auto simp: keys tree_laws_def)
  then have "length s = 32" if "(n, s) \<in> set (tl keys)" for n s using that by (cases keys) auto
  then have "\<exists>cts. seal_path P c pub (anc (tg_me h) 0) (tl keys) = Inr cts"
    by (intro seal_path_total[where profile = "tg_profile h"] laws) (use pub_keyed in blast)+
  then obtain cts where cts: "seal_path P c pub (anc (tg_me h) 0) (tl keys) = Inr cts" ..
  let ?h = "reset_epoch P (h\<lparr>tg_public := pub, tg_secrets := foldl (\<lambda>m (n, s). AList.update n s m) (tg_secrets h) keys,
      tg_epoch := tg_epoch h + 1, tg_epoch_secret := derive_commit_secret P (last ?chain)\<rparr>)"
  let ?cm = "\<lparr>cm_proposals = ps, cm_pub_updates = pub_updates_of P (tg_profile h) keys, cm_path = map (anc (tg_me h)) [0..<Suc d],
      cm_ciphertexts = cts, cm_new_capacity = 2 ^ d, cm_sig_update = su, cm_auth = []\<rparr>"
  define cm where "cm = (case tg_my_sig h of Some sk \<Rightarrow>
      ?cm\<lparr>cm_auth := id_sign P sk (commit_auth_transcript (tg_epoch h) (tg_me h) (encode_body ?cm))\<rparr> | None \<Rightarrow> ?cm)"
  have hd: "hd (map (anc (tg_me h)) [0..<Suc d]) = anc (tg_me h) 0" by (simp add: upt_conv_Cons del: upt_Suc)
  have sel: "tg_my_sig ?h = tg_my_sig h" "tg_me ?h = tg_me h" "tg_capacity ?h = 2 ^ d" by (simp_all add: reset_epoch_def cap)
  have run: "rekey_path P c ps su h = (Inr cm, ?h)"
    unfolding rekey_path_def Let_def path length_map length_upt zip bind_op_def
    by (cases "tg_my_sig h")
      (simp_all add: zip set_nodes_spec[OF laws] cts hd pub[symmetric] cap cm_def reset_epoch_def del: upt_Suc secret_chain.simps)
  have same: "cm_path cm = cm_path ?cm \<and> cm_pub_updates cm = cm_pub_updates ?cm \<and> cm_ciphertexts cm = cts \<and> cm_proposals cm = ps \<and>
      cm_sig_update cm = su \<and> cm_new_capacity cm = 2 ^ d"
    by (simp add: cm_def split: option.split del: upt_Suc)
  have body: "encode_body cm = encode_body ?cm" by (simp add: cm_def encode_body_def split: option.split del: upt_Suc)
  have "signed_by_host P h cm" unfolding signed_by_host_def body by (auto simp: cm_def)
  moreover have "update_path P c (tg_profile h) d (tg_me h) (tc_secret c) pub cm"
    using same cts by (simp add: update_path_def keys del: upt_Suc secret_chain.simps)
  ultimately show ?thesis using that[OF run] same by blast
qed

text \<open>Everybody's public keys after the commit are those of the host.\<close>

lemma tree_ok_rekeyed:
  assumes g: "tree_ok P d g" and c: "c < 2 ^ d" "tg_occupied g ! c"
    and pub: "map_of (tg_public g') = rekeyed P (tg_profile g) d c s0 (map_of (tg_public g))"
    and same: "tg_profile g' = tg_profile g" "tg_capacity g' = tg_capacity g" "tg_occupied g' = tg_occupied g"
      "map_of (tg_leaf_sig_keys g') = map_of (tg_leaf_sig_keys g)"
  shows "tree_ok P d g'"
proof -
  have dom: "map_of (tg_public g') n \<noteq> None \<longleftrightarrow> map_of (tg_public g) n \<noteq> None \<or> (\<exists>k\<le>d. n = anc c k)" for n
    using rekeyed_other[of d n c P "tg_profile g" s0 "map_of (tg_public g)"] rekeyed_at[of _ d P "tg_profile g" c s0 "map_of (tg_public g)"]
    unfolding pub by fastforce
  have "map_of (tg_public g') (nd_leaf l) \<noteq> None \<longleftrightarrow> tg_occupied g ! l" if "l < 2 ^ d" for l
  proof -
    have "l = c" if "\<exists>k\<le>d. nd_leaf l = anc c k" using that by (auto simp flip: anc_leaf)
    then show ?thesis unfolding dom using g c that by (auto simp: tree_ok_def)
  qed
  moreover have "nd_span n \<noteq> 0 \<and> nd_lo n + nd_span n \<le> 2 ^ d" if n: "map_of (tg_public g') n \<noteq> None" for n
  proof (cases "map_of (tg_public g) n = None")
    case True
    then obtain k where k: "k \<le> d" "n = anc c k" using n dom[of n] by blast
    have d: "(2 :: nat) ^ (d - k) * 2 ^ k = 2 ^ d" using k(1) by (simp flip: power_add)
    then have "c div 2 ^ k < 2 ^ (d - k)" using c(1) by (intro less_mult_imp_div_less) simp
    then have "Suc (c div 2 ^ k) * 2 ^ k \<le> 2 ^ (d - k) * 2 ^ k" by (intro mult_le_mono1) simp
    then show ?thesis unfolding d k(2) by simp
  next
    case False
    then show ?thesis using g unfolding tree_ok_def by blast
  qed
  moreover have "keyed P g" using g by (simp add: tree_ok_def)
  then have "keyed P g'"
    unfolding keyed_def pub same by (auto simp: rekeyed_def map_add_Some_iff)
  ultimately show ?thesis using g unfolding tree_ok_def same by blast
qed

lemma host_rekeyed:
  assumes laws: "tree_laws P" and h: "host_ok P d h" and s0: "length s0 = 32" and keys: "keys = path_keys P d (tg_me h) s0"
    and h': "h' = reset_epoch P (h\<lparr>tg_public := foldl (\<lambda>m (n, p). AList.update n p m) (tg_public h) (pub_updates_of P (tg_profile h) keys),
      tg_secrets := foldl (\<lambda>m (n, s). AList.update n s m) (tg_secrets h) keys, tg_epoch := e, tg_epoch_secret := es\<rparr>)"
  shows "host_ok P d h'"
proof -
  let ?me = "tg_me h"
  have m: "member P d h" and me: "?me < 2 ^ d" "tg_occupied h ! ?me" using h by (auto simp: host_ok_def member_def)
  have pub: "map_of (tg_public h') = rekeyed P (tg_profile h) d ?me s0 (map_of (tg_public h))"
    by (simp add: h' reset_epoch_def keys adopt_rekeyed)
  have sel: "tg_profile h' = tg_profile h" "tg_capacity h' = tg_capacity h" "tg_occupied h' = tg_occupied h" "tg_me h' = ?me"
      "tg_leaf_sig_keys h' = tg_leaf_sig_keys h" "tg_leaf_pops h' = tg_leaf_pops h" "tg_my_sig h' = tg_my_sig h"
    by (simp_all add: h' reset_epoch_def)
  have tree: "tree_ok P d h'" using tree_ok_rekeyed[OF _ me pub] m sel by (simp add: member_def)
  have sec: "map_of (tg_secrets h') = map_of (tg_secrets h) ++ map_of keys"
    using path_keys_distinct[of P d ?me s0] by (simp add: h' reset_epoch_def keys map_of_updates map_of_rev)
  have at: "map_of (tg_secrets h') (anc ?me k) = Some (secret_chain P s0 (Suc d) ! k)" if "k \<le> d" for k
    unfolding sec keys by (simp add: map_add_def path_keys_at[OF that] del: secret_chain.simps)
  have path: "\<exists>k\<le>d. n = anc ?me k" if "map_of (tg_secrets h') n = Some s" for n s
  proof (cases "map_of keys n")
    case None
    then have "map_of (tg_secrets h) n = Some s" using that by (simp add: sec map_add_def)
    then show ?thesis using m holds_path unfolding member_def by blast
  next
    case (Some x)
    then show ?thesis using path_keys_none[of d n ?me P s0] unfolding keys by fastforce
  qed
  have sized: "length (secret_chain P s0 (Suc d) ! k) = 32" if "k \<le> d" for k
    using secret_chain_sized[of P s0 "secret_chain P s0 (Suc d) ! k" "Suc d"] laws s0 that
    by (simp add: tree_laws_def del: secret_chain.simps)
  have fits: "length s = 32 \<and> map_of (tg_public h') n = Some (pub_of P (tg_profile h) s)" if n: "map_of (tg_secrets h') n = Some s" for n s
  proof -
    obtain k where k: "k \<le> d" "n = anc ?me k" using path[OF n] by blast
    then show ?thesis using n at[OF k(1)] sized[OF k(1)] rekeyed_at[OF k(1)] by (simp add: pub del: secret_chain.simps)
  qed
  have "holds P d h'" unfolding holds_def sel using path fits at by blast
  moreover have "distinct (map fst (tg_public h'))" using h by (simp add: h' reset_epoch_def host_ok_def distinct_updates)
  moreover have "signs P h'" using m by (simp add: member_def signs_def sel)
  ultimately show ?thesis using h m tree me unfolding host_ok_def member_def by (simp add: sel)
qed

end
