(* ===== verification/TreeRun.thy ===== *)
theory TreeRun
  imports TreeGroup
begin

text \<open>
  The steps of a TreeKEM group: what a member gets from a commit of one proposal, growth of the tree,
  adding with the Welcome of the joiner, and removing. Each step succeeds and keeps the members
  in step with the host.
\<close>

section \<open>Receiving a commit\<close>

lemma holds_ready: "holds P d g \<Longrightarrow> m \<le> d \<Longrightarrow> map_of (tg_public g) (nd_leaf (tg_me g)) \<noteq> None \<Longrightarrow> ready P d m g"
  unfolding holds_def ready_def by (meson order_trans)

lemma receive_path:
  assumes laws: "tree_laws P" and g: "member P d g" and c: "c < 2 ^ d" "tg_occupied g ! c" "tg_me g \<noteq> c" and s0: "length s0 = 32"
    and cm: "update_path P coins (tg_profile g) d c s0 pub cm"
    and pub: "map_of pub = rekeyed P (tg_profile g) d c s0 (map_of (tg_public g))"
  obtains p s where "process_update_path P pct cm g =
      (Inr (derive_commit_secret P (last (secret_chain P s0 (Suc d)))), g\<lparr>tg_public := p, tg_secrets := s\<rparr>)"
    "map_of p = map_of pub" "member P d (g\<lparr>tg_public := p, tg_secrets := s\<rparr>)"
proof -
  have me: "tg_me g < 2 ^ d" "tg_occupied g ! tg_me g" using g by (auto simp: member_def)
  then obtain m where m: "meets d c (tg_me g) m" using meets_exists[of c "tg_me g" d] c by blast
  have "map_of (tg_public g) (nd_leaf (tg_me g)) \<noteq> None" using g me by (auto simp: member_def tree_ok_def)
  then have ready: "ready P d m g" using g m by (intro holds_ready) (auto simp: member_def meets_def)
  obtain p s where ps: "process_update_path P pct cm g =
      (Inr (derive_commit_secret P (last (secret_chain P s0 (Suc d)))), g\<lparr>tg_public := p, tg_secrets := s\<rparr>)"
      "map_of p = map_of pub" "holds P d (g\<lparr>tg_public := p, tg_secrets := s\<rparr>)"
    using process_commit[OF laws m ready s0 cm pub] .
  have "tree_ok P d (g\<lparr>tg_public := p, tg_secrets := s\<rparr>)"
    using tree_ok_rekeyed[OF _ c(1,2), where g' = "g\<lparr>tg_public := p, tg_secrets := s\<rparr>" and ?s0.0 = s0] g ps(2) pub by (simp add: member_def)
  then have "member P d (g\<lparr>tg_public := p, tg_secrets := s\<rparr>)" using ps(3) g by (simp add: member_def signs_def)
  then show ?thesis using that ps(1,2) by blast
qed

lemma commit_authentic:
  assumes "tree_laws P" "signed_by_host P h cm" "signs P h" "tg_me h = HOST_LEAF" "tg_epoch g = tg_epoch h"
    and "map_of (tg_leaf_sig_keys g) HOST_LEAF = map_of (tg_leaf_sig_keys h) HOST_LEAF"
    and "update_path P coins profile d (tg_me h) s0 pub cm"
  shows "authenticate_commit P g cm = Inr ()"
proof -
  have "cm_path cm = anc 0 0 # map (anc 0) [1..<Suc d]"
    using assms(4,7) by (simp add: update_path_def HOST_LEAF_def upt_conv_Cons del: upt_Suc)
  moreover obtain seed where "tg_my_sig h = Some (from_secret_bytes P seed)"
      "map_of (tg_leaf_sig_keys g) HOST_LEAF = Some (id_public (from_secret_bytes P seed))"
    using assms(3,4,6) by (auto simp: signs_def)
  moreover have "dsa_correct P" using assms(1) by (simp add: tree_laws_def)
  ultimately show ?thesis
    using assms(2,4,5) by (simp add: authenticate_commit_def signed_by_host_def verify_signed HOST_LEAF_def)
qed

text \<open>What the host's commit is, and what it leaves at the host.\<close>

lemma rekey_facts:
  assumes laws: "tree_laws P" and h: "host_ok P d h" and c: "length (tc_secret c) = 32"
    and run: "rekey_path P c ps su h = (Inr cm, h')"
  shows "host_ok P d h'" "update_path P c (tg_profile h) d HOST_LEAF (tc_secret c) (tg_public h') cm"
    and "map_of (tg_public h') = rekeyed P (tg_profile h) d HOST_LEAF (tc_secret c) (map_of (tg_public h))"
    and "tg_epoch_secret h' = derive_commit_secret P (last (secret_chain P (tc_secret c) (Suc d)))"
    and "cm_proposals cm = ps" "cm_sig_update cm = su" "cm_new_capacity cm = 2 ^ d" "signed_by_host P h cm"
    and "tg_leaf_sig_keys h' = tg_leaf_sig_keys h" "tg_epoch h' = tg_epoch h + 1" "tg_me h' = tg_me h" "tg_profile h' = tg_profile h"
      "tg_my_sig h' = tg_my_sig h" "tg_leaf_pops h' = tg_leaf_pops h" "tg_capacity h' = tg_capacity h" "tg_occupied h' = tg_occupied h"
proof -
  have me: "tg_me h = HOST_LEAF" "tg_capacity h = 2 ^ d" "keyed P h" using h by (auto simp: host_ok_def member_def tree_ok_def)
  let ?keys = "path_keys P d (tg_me h) (tc_secret c)"
  let ?pub = "foldl (\<lambda>m (n, p). AList.update n p m) (tg_public h) (pub_updates_of P (tg_profile h) ?keys)"
  let ?h = "h\<lparr>tg_public := ?pub, tg_secrets := foldl (\<lambda>m (n, s). AList.update n s m) (tg_secrets h) ?keys, tg_epoch := tg_epoch h + 1,
      tg_epoch_secret := derive_commit_secret P (last (secret_chain P (tc_secret c) (Suc d)))\<rparr>"
  obtain cm' where "rekey_path P c ps su h = (Inr cm', reset_epoch P ?h)"
      "update_path P c (tg_profile h) d (tg_me h) (tc_secret c) ?pub cm'" "cm_proposals cm' = ps" "cm_sig_update cm' = su"
      "cm_new_capacity cm' = 2 ^ d" "signed_by_host P h cm'"
    by (rule rekey_path_run[OF laws me(2,3) c refl refl])
  then have h': "h' = reset_epoch P ?h" and up: "update_path P c (tg_profile h) d (tg_me h) (tc_secret c) ?pub cm"
    and cm: "cm_proposals cm = ps" "cm_sig_update cm = su" "cm_new_capacity cm = 2 ^ d" "signed_by_host P h cm"
    using run by auto
  have pub: "tg_public h' = ?pub" by (simp add: h' reset_epoch_def)
  show "host_ok P d h'" using host_rekeyed[OF laws h c refl h'] .
  show "update_path P c (tg_profile h) d HOST_LEAF (tc_secret c) (tg_public h') cm" using up unfolding pub me(1) .
  show "map_of (tg_public h') = rekeyed P (tg_profile h) d HOST_LEAF (tc_secret c) (map_of (tg_public h))"
    unfolding pub by (simp add: adopt_rekeyed me(1))
  show "cm_proposals cm = ps" "cm_sig_update cm = su" "cm_new_capacity cm = 2 ^ d" "signed_by_host P h cm" by (fact cm)+
  show "tg_epoch_secret h' = derive_commit_secret P (last (secret_chain P (tc_secret c) (Suc d)))"
      "tg_leaf_sig_keys h' = tg_leaf_sig_keys h" "tg_epoch h' = tg_epoch h + 1" "tg_me h' = tg_me h" "tg_profile h' = tg_profile h"
      "tg_my_sig h' = tg_my_sig h" "tg_leaf_pops h' = tg_leaf_pops h" "tg_capacity h' = tg_capacity h" "tg_occupied h' = tg_occupied h"
    by (simp_all add: h' reset_epoch_def del: secret_chain.simps)
qed

text \<open>
  The general step. The host has applied the proposals and re-keys its path; a member has
  applied the same proposals, and the rotation of the host's signing key when there is one.
\<close>

lemma commit_step:
  assumes laws: "tree_laws P" and h: "host_ok P d h" and c: "length (tc_secret c) = 32"
    and run: "rekey_path P c ps su h = (Inr cm, h')"
    and g0: "tg_epoch g0 = tg_epoch h" "map_of (tg_leaf_sig_keys g0) HOST_LEAF = map_of (tg_leaf_sig_keys h) HOST_LEAF"
      "apply_proposals P ps (grow_to (2 ^ d) g0) = (Inr (), g1)" "rotate_sig P HOST_LEAF cm g1 = (Inr (), g)"
    and g: "member P d g" "same_tree (h\<lparr>tg_leaf_sig_keys := tg_leaf_sig_keys g\<rparr>) g" "tg_me g \<noteq> HOST_LEAF" "tg_epoch g = tg_epoch h"
  obtains p s where "apply_commit P pct cm g0 =
      (Inr (), reset_epoch P (g\<lparr>tg_public := p, tg_secrets := s, tg_epoch := tg_epoch h', tg_epoch_secret := tg_epoch_secret h'\<rparr>))"
    "member P d (g\<lparr>tg_public := p, tg_secrets := s\<rparr>)"
    "same_tree (h'\<lparr>tg_leaf_sig_keys := tg_leaf_sig_keys g\<rparr>) (g\<lparr>tg_public := p, tg_secrets := s\<rparr>)"
proof -
  note facts = rekey_facts[OF laws h c run]
  have me: "tg_me h = HOST_LEAF" "HOST_LEAF < 2 ^ d" "tg_occupied h ! HOST_LEAF" "signs P h"
    using h by (auto simp: host_ok_def member_def)
  have eq: "tg_profile g = tg_profile h" "tg_occupied g = tg_occupied h" "map_of (tg_public g) = map_of (tg_public h)" "tg_capacity g = tg_capacity h"
    using g(2) by (auto simp: same_tree_def)
  have up: "update_path P c (tg_profile g) d HOST_LEAF (tc_secret c) (tg_public h') cm"
    and pub: "map_of (tg_public h') = rekeyed P (tg_profile g) d HOST_LEAF (tc_secret c) (map_of (tg_public g))"
    using facts(2,3) by (simp_all add: eq)
  have host: "tg_occupied g ! HOST_LEAF" using me(3) eq(2) by simp
  obtain p s where ps: "process_update_path P pct cm g =
      (Inr (derive_commit_secret P (last (secret_chain P (tc_secret c) (Suc d)))), g\<lparr>tg_public := p, tg_secrets := s\<rparr>)"
      "map_of p = map_of (tg_public h')" "member P d (g\<lparr>tg_public := p, tg_secrets := s\<rparr>)"
    using receive_path[OF laws g(1) me(2) host g(3) c up pub] .
  have "authenticate_commit P g0 cm = Inr ()"
    using commit_authentic[OF laws facts(8) me(4,1) g0(1,2)] facts(2) by (simp add: me(1))
  then have run: "apply_commit P pct cm g0 =
      (Inr (), reset_epoch P (g\<lparr>tg_public := p, tg_secrets := s, tg_epoch := tg_epoch h', tg_epoch_secret := tg_epoch_secret h'\<rparr>))"
    using g0(3,4) g(4) ps(1) unfolding apply_commit_def facts(4,5,7,10) by (simp add: bind_op_def del: secret_chain.simps)
  have "same_tree (h'\<lparr>tg_leaf_sig_keys := tg_leaf_sig_keys g\<rparr>) (g\<lparr>tg_public := p, tg_secrets := s\<rparr>)"
    using ps(2) eq facts(12,15,16) by (simp add: same_tree_def)
  then show ?thesis using that run ps(3) by blast
qed

section \<open>Committing one proposal\<close>

lemma member_epoch [simp]:
  "member P d (reset_epoch P (g\<lparr>tg_public := p, tg_secrets := s, tg_epoch := e, tg_epoch_secret := x\<rparr>)) =
   member P d (g\<lparr>tg_public := p, tg_secrets := s\<rparr>)"
  by (simp add: member_def reset_epoch_def tree_ok_def holds_def signs_def keyed_def)

lemma same_tree_epoch [simp]:
  "same_tree h (reset_epoch P (g\<lparr>tg_public := p, tg_secrets := s, tg_epoch := e, tg_epoch_secret := x\<rparr>)) =
   same_tree h (g\<lparr>tg_public := p, tg_secrets := s\<rparr>)"
  by (simp add: same_tree_def reset_epoch_def)

lemma reset_epoch_sel [simp]:
  "tg_epoch (reset_epoch P g) = tg_epoch g" "tg_epoch_secret (reset_epoch P g) = tg_epoch_secret g" "tg_me (reset_epoch P g) = tg_me g"
  "tg_profile (reset_epoch P g) = tg_profile g" "tg_pending_update (reset_epoch P g) = tg_pending_update g"
  by (simp_all add: reset_epoch_def)

lemma proposal_ok_same: "same_tree h g \<Longrightarrow> proposal_ok P g p = proposal_ok P h p"
  by (simp add: same_tree_def proposal_ok_def split: proposal.split)

text \<open>A member that proposed the update has the new keys staged.\<close>

definition staged_for :: "prims \<Rightarrow> proposal \<Rightarrow> treekem_group \<Rightarrow> bool" where
  "staged_for P p g \<longleftrightarrow> (\<exists>kp seed pop auth.
     p = PUpdate (tg_me g) (pub_of P (tg_profile g) (lk_secret kp)) (id_public (lk_sig kp)) pop auth \<and>
     tg_pending_update g = Some kp \<and> lk_sig kp = from_secret_bytes P seed \<and> length (lk_secret kp) = 32)"

definition applies :: "prims \<Rightarrow> nat \<Rightarrow> treekem_group \<Rightarrow> proposal \<Rightarrow> treekem_group \<Rightarrow> bool" where
  "applies P d h p g \<longleftrightarrow> tg_epoch g = tg_epoch h \<and> same_tree h (grow_to (2 ^ d) g) \<and> member P d (grow_to (2 ^ d) g) \<and> tg_me g \<noteq> HOST_LEAF \<and>
     (proposal_leaf p = tg_me g \<longrightarrow> staged_for P p g)"

lemma grow_to_sel [simp]:
  "tg_me (grow_to c g) = tg_me g" "tg_profile (grow_to c g) = tg_profile g" "tg_pending_update (grow_to c g) = tg_pending_update g"
  "tg_epoch (grow_to c g) = tg_epoch g" "tg_leaf_sig_keys (grow_to c g) = tg_leaf_sig_keys g"
  by (simp_all add: grow_to_def)

text \<open>The occupied leaves.\<close>

definition seats :: "treekem_group \<Rightarrow> nat set" where
  "seats g = {l. l < length (tg_occupied g) \<and> tg_occupied g ! l}"

lemma seats_update:
  "i < length (tg_occupied g) \<Longrightarrow> tg_occupied g' = (tg_occupied g)[i := b] \<Longrightarrow>
   seats g' = (if b then insert i (seats g) else seats g - {i})"
  by (auto simp: seats_def nth_list_update)

text \<open>What a commit of the host promises: the host stays well-formed and every member that applies it is in step.\<close>

definition delivers :: "prims \<Rightarrow> nat \<Rightarrow> treekem_group \<Rightarrow> proposal \<Rightarrow> commit \<Rightarrow> treekem_group \<Rightarrow> bool" where
  "delivers P d h p cm h' \<longleftrightarrow> host_ok P d h' \<and> tg_epoch h' = tg_epoch h + 1 \<and> tg_profile h' = tg_profile h \<and>
     seats h' = (if proposed p \<noteq> None then insert (proposal_leaf p) (seats h) else seats h - {proposal_leaf p}) \<and>
     (\<forall>pct g. applies P d h p g \<longrightarrow> (\<exists>g'. apply_commit P pct cm g = (Inr (), g') \<and> member P d g' \<and> in_step h' g' \<and> tg_me g' = tg_me g \<and>
       (proposal_leaf p \<noteq> tg_me g \<longrightarrow> tg_pending_update g' = tg_pending_update g)))"

lemma proposal_step:
  assumes laws: "tree_laws P" and h: "host_ok P d h" and p: "proposal_ok P h p" and c: "length (tc_secret c) = 32"
  obtains cm h' where "apply_proposals P [p] h = (Inr (), snd (apply_proposal P p h))"
    "rekey_path P c [p] None (snd (apply_proposal P p h)) = (Inr cm, h')" "delivers P d h p cm h'"
proof -
  let ?h = "snd (apply_proposal P p h)"
  have cap: "tg_capacity h = 2 ^ d" using h by (simp add: host_ok_def member_def tree_ok_def)
  note pub = apply_proposal_public[OF cap p]
  have h1: "host_ok P d ?h" using host_keys_proposal[OF h p] .
  then have "tg_capacity ?h = 2 ^ d" "keyed P ?h" by (auto simp: host_ok_def member_def tree_ok_def)
  then obtain cm h' where run: "rekey_path P c [p] None ?h = (Inr cm, h')"
    using rekey_path_run[OF laws _ _ c refl refl, where h = ?h and ps = "[p]" and su = None] by metis
  note facts = rekey_facts[OF laws h1 c run]
  have papp: "apply_proposals P [p] h = (Inr (), ?h)"
    using pub(1) by (cases "apply_proposal P p h") (simp add: bind_op_def)
  have "\<exists>g'. apply_commit P pct cm g = (Inr (), g') \<and> member P d g' \<and> in_step h' g' \<and> tg_me g' = tg_me g \<and>
       (proposal_leaf p \<noteq> tg_me g \<longrightarrow> tg_pending_update g' = tg_pending_update g)" if g: "applies P d h p g" for pct g
  proof -
    let ?g = "grow_to (2 ^ d) g" and ?g1 = "snd (apply_proposal P p (grow_to (2 ^ d) g))"
    have same: "same_tree h ?g" and mem: "member P d ?g" and me: "tg_me g \<noteq> HOST_LEAF" and ep: "tg_epoch g = tg_epoch h"
      using g by (auto simp: applies_def)
    have ok: "proposal_ok P ?g p" using p proposal_ok_same[OF same] by simp
    have gcap: "tg_capacity ?g = 2 ^ d" using mem by (simp add: member_def tree_ok_def)
    note gpub = apply_proposal_public[OF gcap ok]
    have mem1: "member P d ?g1"
    proof (cases "proposal_leaf p = tg_me g")
      case True
      then have "staged_for P p g" using g by (simp add: applies_def)
      then show ?thesis unfolding staged_for_def using member_own[OF mem ok] by fastforce
    qed (use member_other[OF mem ok] in simp)
    have prop1: "apply_proposals P [p] ?g = (Inr (), ?g1)"
      using gpub(1) by (cases "apply_proposal P p ?g") (simp add: bind_op_def)
    have same1: "same_tree ?h ?g1" using same_tree_proposal[OF same] by blast
    have host: "map_of (tg_leaf_sig_keys g) HOST_LEAF = map_of (tg_leaf_sig_keys ?h) HOST_LEAF"
      using same p by (simp add: pub(3) proposal_ok_def same_tree_def)
    have rot: "rotate_sig P HOST_LEAF cm ?g1 = (Inr (), ?g1)" using facts(6) by (simp add: rotate_sig_def)
    have keys: "same_tree (?h\<lparr>tg_leaf_sig_keys := tg_leaf_sig_keys ?g1\<rparr>) ?g1" using same1 by (simp add: same_tree_def)
    have eps: "tg_epoch g = tg_epoch ?h" "tg_me ?g1 \<noteq> HOST_LEAF" "tg_epoch ?g1 = tg_epoch ?h"
      using ep me by (simp_all add: pub(7) gpub(6,7))
    obtain q s where qs: "apply_commit P pct cm g = (Inr (), reset_epoch P (?g1\<lparr>tg_public := q, tg_secrets := s, tg_epoch := tg_epoch h', tg_epoch_secret := tg_epoch_secret h'\<rparr>))"
        "member P d (?g1\<lparr>tg_public := q, tg_secrets := s\<rparr>)" "same_tree (h'\<lparr>tg_leaf_sig_keys := tg_leaf_sig_keys ?g1\<rparr>) (?g1\<lparr>tg_public := q, tg_secrets := s\<rparr>)"
      using commit_step[OF laws h1 c run eps(1) host prop1 rot mem1 keys eps(2,3)] .
    have "same_tree h' (?g1\<lparr>tg_public := q, tg_secrets := s\<rparr>)" using qs(3) same1 by (simp add: same_tree_def facts(9))
    then show ?thesis
      using qs(1,2) apply_proposal_secrets(2)[OF gcap ok] by (auto simp: in_step_def gpub(6))
  qed
  moreover have "seats h' = (if proposed p \<noteq> None then insert (proposal_leaf p) (seats h) else seats h - {proposal_leaf p})"
    using p apply_proposal_occupied[OF cap p] facts(16) by (intro seats_update) (simp_all add: proposal_ok_def)
  ultimately show ?thesis using that[OF papp run] facts(1,10,12) by (simp add: delivers_def pub(4,7))
qed

section \<open>Growing the tree\<close>

lemma double_capacity_grow: "tg_capacity g = 2 ^ d \<Longrightarrow> double_capacity g = grow_to (2 ^ Suc d) g"
  by (simp add: double_capacity_def grow_to_def mult.commute Let_def)

lemma grow_to_same: "tg_capacity g = 2 ^ d \<Longrightarrow> grow_to (2 ^ d) g = g"
  by (simp add: grow_to_def)

lemma same_tree_grow: "same_tree h g \<Longrightarrow> same_tree (grow_to c h) (grow_to c g)"
  by (simp add: same_tree_def grow_to_def)

lemma grow_occupied:
  assumes "length (tg_occupied g) = 2 ^ d" "tg_capacity g = 2 ^ d"
  shows "tg_occupied (grow_to (2 ^ Suc d) g) = tg_occupied g @ replicate (2 ^ d) False"
  using assms by (simp add: grow_to_def vec_resize_def)

lemma tree_ok_range: "tree_ok P d g \<Longrightarrow> map_of (tg_public g) n \<noteq> None \<Longrightarrow> nd_span n \<noteq> 0 \<and> nd_lo n + nd_span n \<le> 2 ^ d"
  unfolding tree_ok_def by blast

lemma tree_ok_grow:
  assumes g: "tree_ok P d g"
  shows "tree_ok P (Suc d) (grow_to (2 ^ Suc d) g)"
proof -
  have cap: "tg_capacity g = 2 ^ d" and len: "length (tg_occupied g) = 2 ^ d" using g by (auto simp: tree_ok_def)
  have sel: "tg_public (grow_to (2 ^ Suc d) g) = tg_public g" "tg_capacity (grow_to (2 ^ Suc d) g) = 2 ^ Suc d"
    using cap by (simp_all add: grow_to_def)
  note occ = grow_occupied[OF len cap]
  have old: "tg_occupied (grow_to (2 ^ Suc d) g) ! l \<longleftrightarrow> l < 2 ^ d \<and> tg_occupied g ! l" if "l < 2 ^ Suc d" for l
    using that len unfolding occ by (auto simp: nth_append)
  have out: "map_of (tg_public g) (nd_leaf l) = None" if "\<not> l < 2 ^ d" for l
    using tree_ok_range[OF g, of "nd_leaf l"] that by fastforce
  have "tg_occupied (grow_to (2 ^ Suc d) g) ! l \<longleftrightarrow> map_of (tg_public g) (nd_leaf l) \<noteq> None" if "l < 2 ^ Suc d" for l
    using g old[OF that] out[of l] by (cases "l < 2 ^ d") (auto simp: tree_ok_def)
  moreover have "map_of (tg_leaf_sig_keys g) l \<noteq> None \<longleftrightarrow> l < 2 ^ Suc d \<and> tg_occupied (grow_to (2 ^ Suc d) g) ! l" for l
  proof (cases "l < 2 ^ Suc d")
    case True
    then show ?thesis using g old[OF True] unfolding tree_ok_def by blast
  next
    case False
    then have "\<not> l < 2 ^ d" by simp
    then show ?thesis using g False unfolding tree_ok_def by blast
  qed
  moreover have "nd_span n \<noteq> 0 \<and> nd_lo n + nd_span n \<le> 2 ^ Suc d" if "map_of (tg_public g) n \<noteq> None" for n
    using tree_ok_range[OF g that] by simp
  moreover have "keyed P (grow_to (2 ^ Suc d) g)" using g unfolding tree_ok_def keyed_def sel grow_to_sel by simp
  moreover have "length (tg_occupied (grow_to (2 ^ Suc d) g)) = 2 ^ Suc d" using len unfolding occ by simp
  ultimately show ?thesis unfolding tree_ok_def sel grow_to_sel by blast
qed

lemma member_grow:
  assumes g: "member P d g"
  shows "member P (Suc d) (grow_to (2 ^ Suc d) g)"
proof -
  have tree: "tree_ok P d g" and me: "tg_me g < 2 ^ d" "tg_occupied g ! tg_me g" using g by (auto simp: member_def)
  have sel: "tg_public (grow_to (2 ^ Suc d) g) = tg_public g" "tg_secrets (grow_to (2 ^ Suc d) g) = tg_secrets g"
      "tg_my_sig (grow_to (2 ^ Suc d) g) = tg_my_sig g"
    by (simp_all add: grow_to_def)
  have "map_of (tg_public g) (anc (tg_me g) (Suc d)) = None"
  proof (rule ccontr)
    assume "map_of (tg_public g) (anc (tg_me g) (Suc d)) \<noteq> None"
    from tree_ok_range[OF tree this] show False by simp
  qed
  then have "holds P (Suc d) (grow_to (2 ^ Suc d) g)"
    using g unfolding holds_def member_def sel by (simp add: le_Suc_eq) blast
  moreover have "tg_occupied (grow_to (2 ^ Suc d) g) ! tg_me g"
    using me grow_occupied[of g d] tree by (simp add: tree_ok_def nth_append)
  ultimately show ?thesis
    using g tree_ok_grow[OF tree] me(1) unfolding member_def signs_def grow_to_sel sel by simp
qed

lemma host_grow:
  assumes h: "host_ok P d h"
  shows "host_ok P (Suc d) (double_capacity h)"
proof -
  have "tg_capacity h = 2 ^ d" using h by (simp add: host_ok_def member_def tree_ok_def)
  then have e: "double_capacity h = grow_to (2 ^ Suc d) h" by (rule double_capacity_grow)
  have "tg_public (grow_to c h) = tg_public h" "tg_leaf_pops (grow_to c h) = tg_leaf_pops h" for c
    by (simp_all add: grow_to_def)
  then show ?thesis using h member_grow[of P d h] unfolding host_ok_def e by simp
qed

lemma first_free_Some:
  "first_free bs i = Some j \<Longrightarrow> i \<le> j \<and> j < i + length bs \<and> \<not> bs ! (j - i)"
proof (induction bs arbitrary: i)
  case (Cons b bs)
  show ?case
  proof (cases b)
    case True
    then have "Suc i \<le> j \<and> j < Suc i + length bs \<and> \<not> bs ! (j - Suc i)" using Cons.IH[of "Suc i"] Cons.prems by simp
    then show ?thesis by (simp add: nth_Cons' )
  qed (use Cons.prems in simp)
qed simp

lemma first_free_None: "first_free bs i = None \<Longrightarrow> False \<notin> set bs"
  by (induction bs arbitrary: i) (auto split: if_splits)

section \<open>Adding a member\<close>

text \<open>An honest joiner: fresh keys of the group's profile and the key package made from them.\<close>

definition joiner :: "prims \<Rightarrow> kem_profile \<Rightarrow> leaf_key_pair \<Rightarrow> key_package \<Rightarrow> bool" where
  "joiner P profile lk kp \<longleftrightarrow>
     lk_profile lk = profile \<and> length (lk_secret lk) = 32 \<and> (\<exists>seed. lk_sig lk = from_secret_bytes P seed) \<and>
     kp_leaf_public kp = pub_of P profile (lk_secret lk) \<and> kp_sig_public kp = id_public (lk_sig lk) \<and>
     verify_pop P (kp_sig_public kp) (kp_pop kp) = Inr ()"

lemma key_package_joiner:
  assumes "tree_laws P" "lk_profile lk = profile" "length (lk_secret lk) = 32" "lk_sig lk = from_secret_bytes P seed"
  obtains kp where "leaf_key_package P pct lk = Inr kp" "joiner P profile lk kp"
proof -
  obtain sk where "node_key P pct profile (lk_secret lk) = Inr (sk, pub_of P profile (lk_secret lk))"
    using node_key_laws[OF assms(1), of profile "lk_secret lk"] by metis
  moreover have "dsa_correct P" using assms(1) by (simp add: tree_laws_def)
  ultimately show ?thesis
    using that assms(2-4) by (auto simp: leaf_key_package_def joiner_def verify_pop_def verify_signed Let_def)
qed

definition add_of :: "nat \<Rightarrow> key_package \<Rightarrow> proposal" where
  "add_of l kp = PAdd l (kp_leaf_public kp) (kp_sig_public kp) (kp_pop kp)"

lemma rekeyed_twice: "rekeyed P profile d c s0 (rekeyed P profile d c s0 f) = rekeyed P profile d c s0 f"
  by (auto simp: rekeyed_def map_add_def fun_eq_iff split: option.split)

lemma learn_keys_run:
  assumes "\<And>l lp k pop. (l, lp, k, pop) \<in> set es \<Longrightarrow> verify_pop P k pop = Inr ()"
  shows "\<exists>pops. learn_keys P es keys pops0 = Inr (foldl (\<lambda>m (n, x). AList.update n x m) keys (map (\<lambda>(l, lp, k, pop). (l, k)) es), pops)"
  using assms
proof (induction es arbitrary: keys pops0)
  case (Cons e es)
  obtain l lp k pop where e: "e = (l, lp, k, pop)" by (cases e) auto
  have "verify_pop P k pop = Inr ()" using Cons.prems[of l lp k pop] e by simp
  moreover have rest: "verify_pop P k pop = Inr ()" if "(l, lp, k, pop) \<in> set es" for l lp k pop
    by (rule Cons.prems[of l lp]) (use that in simp)
  have "\<exists>pops. learn_keys P es (AList.update l k keys) (AList.update l pop pops0) =
      Inr (foldl (\<lambda>m (n, x). AList.update n x m) (AList.update l k keys) (map (\<lambda>(l, lp, k, pop). (l, k)) es), pops)"
    by (rule Cons.IH) (rule rest)
  ultimately show ?case using e by simp
qed simp

lemma welcome_keys:
  assumes h: "host_ok P d h"
  shows "\<exists>pops. learn_keys P (wl_sig_keys (welcome_for h l cm)) [] [] = Inr (foldl (\<lambda>m (n, x). AList.update n x m) [] (tg_leaf_sig_keys h), pops)"
proof -
  let ?f = "\<lambda>(l, k). case (map_of (tg_public h) (nd_leaf l), map_of (tg_leaf_pops h) l) of (Some lp, Some pop) \<Rightarrow> Some (l, lp, k, pop) | _ \<Rightarrow> None"
  have entry: "\<exists>lp pop. ?f (l, k) = Some (l, lp, k, pop) \<and> verify_pop P k pop = Inr ()" if "(l, k) \<in> set (tg_leaf_sig_keys h)" for l k
  proof -
    have k: "map_of (tg_leaf_sig_keys h) l = Some k" using that h by (simp add: host_ok_def)
    then obtain pop where "map_of (tg_leaf_pops h) l = Some pop" "verify_pop P k pop = Inr ()" using h unfolding host_ok_def by blast
    moreover have "l < 2 ^ d \<and> tg_occupied h ! l" using h k unfolding host_ok_def member_def tree_ok_def by blast
    then have "map_of (tg_public h) (nd_leaf l) \<noteq> None" using h unfolding host_ok_def member_def tree_ok_def by blast
    ultimately show ?thesis by auto
  qed
  then have "map (\<lambda>(l, lp, k, pop). (l, k)) (List.map_filter ?f xs) = xs \<and> (\<forall>(l, lp, k, pop)\<in>set (List.map_filter ?f xs). verify_pop P k pop = Inr ())"
    if "set xs \<subseteq> set (tg_leaf_sig_keys h)" for xs
    using that
  proof (induction xs)
    case (Cons x xs)
    obtain l k where x: "x = (l, k)" by fastforce
    obtain lp pop where "?f (l, k) = Some (l, lp, k, pop)" "verify_pop P k pop = Inr ()" using Cons.prems entry x by fastforce
    then show ?case using Cons x by (simp add: List.map_filter_simps)
  qed (simp add: List.map_filter_simps)
  from this[of "tg_leaf_sig_keys h"] show ?thesis
    using learn_keys_run[of "List.map_filter ?f (tg_leaf_sig_keys h)" P "[]" "[]"] by (fastforce simp: welcome_for_def)
qed

lemma tree_ok_same: "same_tree h g \<Longrightarrow> tree_ok P d h \<Longrightarrow> tree_ok P d g"
  by (simp add: same_tree_def tree_ok_def keyed_def)

text \<open>The joiner has only its leaf secret; the host has blanked the path above and re-keyed its own.\<close>

lemma joiner_ready:
  assumes h1: "host_ok P d h" and p: "proposal_ok P h (add_of l kp)" and j: "joiner P (tg_profile h) lk kp"
    and m: "meets d HOST_LEAF l m"
    and pub: "map_of (tg_public g) = rekeyed P (tg_profile h) d HOST_LEAF s0 (map_of (tg_public (snd (apply_proposal P (add_of l kp) h))))"
    and g: "tg_me g = l" "tg_secrets g = [(nd_leaf l, lk_secret lk)]" "tg_profile g = tg_profile h"
  shows "ready P d m g"
proof -
  have cap: "tg_capacity h = 2 ^ d" using h1 by (simp add: host_ok_def member_def tree_ok_def)
  have low: "map_of (tg_public g) (anc l k) = (if 0 < k then None else Some (pub_of P (tg_profile h) (lk_secret lk)))" if "k \<le> m" for k
  proof -
    have "map_of (tg_public g) (anc l k) = map_of (tg_public (snd (apply_proposal P (add_of l kp) h))) (anc l k)"
      unfolding pub by (rule rekeyed_levels(1)[OF m that])
    also have "\<dots> = (if 0 < k then None else Some (pub_of P (tg_profile h) (lk_secret lk)))"
      using m that j unfolding apply_proposal_public(2)[OF cap p]
      by (auto simp: add_of_def proposal_leaf_def proposed_def over_anc meets_def joiner_def anc_leaf)
    finally show ?thesis .
  qed
  have "length (lk_secret lk) = 32" using j by (simp add: joiner_def)
  then show ?thesis
    unfolding ready_def g using low low[of 0] by (auto simp: anc_leaf simp flip: anc_leaf split: if_splits)
qed

lemma welcome_joins:
  assumes laws: "tree_laws P" and h: "host_ok P d h" and p: "proposal_ok P h (add_of l kp)" and j: "joiner P (tg_profile h) lk kp"
    and c: "length (tc_secret c) = 32"
    and run: "rekey_path P c [add_of l kp] None (snd (apply_proposal P (add_of l kp) h)) = (Inr cm, h')"
  obtains g where "join_with_welcome P pct lk (welcome_for h' l cm) = Inr g" "member P d g" "in_step h' g" "tg_me g = l" "tg_pending_update g = None"
proof -
  let ?h = "snd (apply_proposal P (add_of l kp) h)" and ?fold = "foldl (\<lambda>m (n, x). AList.update n x m) []"
  have cap: "tg_capacity h = 2 ^ d" and len: "length (tg_occupied h) = 2 ^ d" using h by (auto simp: host_ok_def member_def tree_ok_def)
  note pub = apply_proposal_public[OF cap p] and occ = apply_proposal_occupied[OF cap p]
  have leaf: "proposal_leaf (add_of l kp) = l" "proposed (add_of l kp) = Some (kp_leaf_public kp, kp_sig_public kp)"
    by (simp_all add: add_of_def proposal_leaf_def proposed_def)
  have h1: "host_ok P d ?h" using host_keys_proposal[OF h p] .
  note facts = rekey_facts[OF laws h1 c run]
  have l: "l < 2 ^ d" "l \<noteq> HOST_LEAF" using p len leaf by (auto simp: proposal_ok_def)
  obtain seed where lk: "lk_sig lk = from_secret_bytes P seed" "lk_profile lk = tg_profile h" "kp_sig_public kp = id_public (lk_sig lk)"
    using j by (auto simp: joiner_def)
  have sig: "from_secret_bytes P (sig_seed (lk_sig lk)) = lk_sig lk" by (simp add: lk(1) from_secret_bytes_def)
  have keys: "map_of (?fold (tg_leaf_sig_keys h')) = map_of (tg_leaf_sig_keys h')" and pubs: "map_of (?fold (tg_public h')) = map_of (tg_public h')"
    using facts(1) by (simp_all add: host_ok_def map_of_updates map_of_rev)
  have own: "map_of (tg_leaf_sig_keys h') l = Some (id_public (lk_sig lk))" by (simp add: facts(9) pub(3) leaf lk(3))
  obtain pops where learned: "learn_keys P (wl_sig_keys (welcome_for h' l cm)) [] [] = Inr (?fold (tg_leaf_sig_keys h'), pops)"
    using welcome_keys[OF facts(1)] by blast
  define g where "g = \<lparr>tg_profile = lk_profile lk, tg_capacity = tg_capacity h', tg_public = ?fold (tg_public h'),
      tg_occupied = tg_occupied h', tg_me = l, tg_secrets = [(nd_leaf l, lk_secret lk)], tg_epoch = tg_epoch h',
      tg_epoch_secret = replicate 32 0, tg_send_chain = replicate 32 0, tg_send_n = 0, tg_recvs = [],
      tg_leaf_sig_keys = AList.update l (id_public (lk_sig lk)) (?fold (tg_leaf_sig_keys h')), tg_leaf_pops = pops,
      tg_my_sig = Some (lk_sig lk), tg_pending_update = None, tg_pad_bucket = 0\<rparr>"
  have gpub: "map_of (tg_public g) = rekeyed P (tg_profile h) d HOST_LEAF (tc_secret c) (map_of (tg_public ?h))"
    using facts(3) by (simp add: g_def pubs pub(4))
  obtain m where m: "meets d HOST_LEAF l m" using meets_exists[of HOST_LEAF l d] l by (auto simp: HOST_LEAF_def)
  have ready: "ready P d m g" using joiner_ready[OF h p j m gpub] lk(2) by (simp add: g_def)
  have up: "update_path P c (tg_profile g) d HOST_LEAF (tc_secret c) (tg_public h') cm"
    using facts(2) by (simp add: g_def lk(2) pub(4))
  have pub': "map_of (tg_public h') = rekeyed P (tg_profile g) d HOST_LEAF (tc_secret c) (map_of (tg_public g))"
    using gpub facts(3) by (simp add: g_def lk(2) pubs pub(4) rekeyed_twice)
  have me: "meets d HOST_LEAF (tg_me g) m" using m by (simp add: g_def)
  obtain q s where qs: "process_update_path P pct cm g =
      (Inr (tg_epoch_secret h'), g\<lparr>tg_public := q, tg_secrets := s\<rparr>)" "map_of q = map_of (tg_public h')" "holds P d (g\<lparr>tg_public := q, tg_secrets := s\<rparr>)"
    using process_commit[OF laws me ready c up pub'] unfolding facts(4) .
  let ?g = "g\<lparr>tg_public := q, tg_secrets := s\<rparr>"
  have "map_of (tg_leaf_sig_keys ?g) = map_of (tg_leaf_sig_keys h')"
    using own by (simp add: g_def update_conv' keys fun_upd_idem)
  then have same: "same_tree h' ?g"
    using qs(2) by (simp add: same_tree_def g_def facts(12) pub(4) lk(2))
  have "tg_occupied h' ! l" using l(1) len by (simp add: facts(16) occ leaf)
  moreover have "tree_ok P d ?g" using tree_ok_same[OF same] facts(1) by (simp add: host_ok_def member_def)
  moreover have "signs P ?g" using lk(1) by (auto simp: signs_def g_def update_conv')
  ultimately have "member P d ?g" using qs(3) l(1) by (simp add: member_def g_def)
  moreover have "join_with_welcome P pct lk (welcome_for h' l cm) = (case process_update_path P pct cm g of
      (Inl e, _) \<Rightarrow> Inl e | (Inr secret, g) \<Rightarrow> Inr (reset_epoch P (g\<lparr>tg_epoch_secret := secret\<rparr>)))"
    unfolding join_with_welcome_def learned g_def by (simp add: welcome_for_def sig Let_def)
  then have "join_with_welcome P pct lk (welcome_for h' l cm) = Inr (reset_epoch P (?g\<lparr>tg_epoch_secret := tg_epoch_secret h'\<rparr>))"
    unfolding qs(1) by simp
  ultimately show ?thesis
    using that[of "reset_epoch P (?g\<lparr>tg_epoch_secret := tg_epoch_secret h'\<rparr>)"] same
    by (simp add: in_step_def member_def reset_epoch_def tree_ok_def holds_def signs_def keyed_def same_tree_def g_def)
qed

section \<open>The operations of the host\<close>

text \<open>Who the commit is for: a member in step with the host.\<close>

definition follower :: "prims \<Rightarrow> nat \<Rightarrow> treekem_group \<Rightarrow> treekem_group \<Rightarrow> bool" where
  "follower P d h g \<longleftrightarrow> member P d g \<and> in_step h g \<and> tg_me g \<noteq> HOST_LEAF"

lemma follower_applies:
  assumes "follower P d h g" "proposal_leaf p = tg_me g \<Longrightarrow> staged_for P p g"
  shows "applies P d h p g"
proof -
  have "tg_capacity g = 2 ^ d" using assms(1) by (simp add: follower_def member_def tree_ok_def)
  then show ?thesis using assms by (simp add: applies_def follower_def in_step_def grow_to_same)
qed

lemma follower_grows:
  assumes h: "host_ok P d h" and g: "follower P d h g" and p: "proposal_leaf p \<noteq> tg_me g"
  shows "applies P (Suc d) (double_capacity h) p g"
proof -
  have "tg_capacity h = 2 ^ d" using h by (simp add: host_ok_def member_def tree_ok_def)
  then have "double_capacity h = grow_to (2 ^ Suc d) h" by (rule double_capacity_grow)
  then show ?thesis
    using g p same_tree_grow[of h g "2 ^ Suc d"] member_grow[of P d g] unfolding applies_def follower_def in_step_def by simp
qed

text \<open>A follower that is not the subject of the proposal stays one.\<close>

definition kept_by :: "prims \<Rightarrow> nat \<Rightarrow> treekem_group \<Rightarrow> nat \<Rightarrow> commit \<Rightarrow> treekem_group \<Rightarrow> bool" where
  "kept_by P d h l cm h' \<longleftrightarrow> (\<forall>pct g. follower P d h g \<longrightarrow> tg_me g \<noteq> l \<longrightarrow>
     (\<exists>g'. apply_commit P pct cm g = (Inr (), g') \<and> follower P d h' g' \<and> tg_me g' = tg_me g \<and> tg_pending_update g' = tg_pending_update g))"

lemma delivers_kept: "delivers P d h p cm h' \<Longrightarrow> kept_by P d h (proposal_leaf p) cm h'"
  using follower_applies unfolding delivers_def kept_by_def follower_def by metis

lemma remove_step:
  assumes laws: "tree_laws P" and h: "host_ok P d h" and l: "l < 2 ^ d" "l \<noteq> HOST_LEAF" and c: "length (tc_secret c) = 32"
  obtains cm h' where "group_remove P c l h = (Inr cm, h')" "delivers P d h (PRemove l) cm h'"
proof -
  have p: "proposal_ok P h (PRemove l)"
    using h l by (simp add: proposal_ok_def proposal_leaf_def host_ok_def member_def tree_ok_def)
  obtain cm h' where "apply_proposals P [PRemove l] h = (Inr (), snd (apply_proposal P (PRemove l) h))"
      "rekey_path P c [PRemove l] None (snd (apply_proposal P (PRemove l) h)) = (Inr cm, h')" "delivers P d h (PRemove l) cm h'"
    by (rule proposal_step[OF laws h p c])
  then show ?thesis using that by (simp add: group_remove_def bind_op_def)
qed

text \<open>Adding: the host makes room when the tree is full.\<close>

definition grown :: "treekem_group \<Rightarrow> treekem_group" where
  "grown h = (if first_free_leaf h = None then double_capacity h else h)"

lemma grown_occupied:
  assumes h: "host_ok P d h" and "first_free_leaf h = None"
  shows "tg_occupied (grown h) = tg_occupied h @ replicate (2 ^ d) False"
proof -
  have cap: "tg_capacity h = 2 ^ d" "length (tg_occupied h) = 2 ^ d" using h by (auto simp: host_ok_def member_def tree_ok_def)
  then show ?thesis using assms(2) grow_occupied[OF cap(2,1)] double_capacity_grow[OF cap(1)] by (simp add: grown_def)
qed

lemma seats_grown:
  assumes h: "host_ok P d h"
  shows "seats (grown h) = seats h"
proof (cases "first_free_leaf h")
  case None
  have "(tg_occupied h @ replicate (2 ^ d) False) ! l \<longleftrightarrow> l < length (tg_occupied h) \<and> tg_occupied h ! l"
    if "l < length (tg_occupied h) + 2 ^ d" for l
    using that by (cases "l < length (tg_occupied h)") (simp_all add: nth_append less_diff_conv2)
  then show ?thesis by (auto simp: seats_def grown_occupied[OF h None])
qed (simp add: grown_def)

lemma grown_room:
  assumes h: "host_ok P d h"
  obtains d' l where "d' \<le> Suc d" "host_ok P d' (grown h)" "first_free_leaf (grown h) = Some l" "l < 2 ^ d'" "\<not> tg_occupied (grown h) ! l" "l \<noteq> HOST_LEAF"
    "tg_profile (grown h) = tg_profile h" "tg_epoch (grown h) = tg_epoch h" "seats (grown h) = seats h"
    "\<And>p g. follower P d h g \<Longrightarrow> proposal_leaf p \<noteq> tg_me g \<Longrightarrow> applies P d' (grown h) p g"
    "\<And>g. follower P d h g \<Longrightarrow> tg_me g \<noteq> l"
proof -
  obtain d' where d': "d' \<le> Suc d" "host_ok P d' (grown h)"
      and app: "\<And>p g. follower P d h g \<Longrightarrow> proposal_leaf p \<noteq> tg_me g \<Longrightarrow> applies P d' (grown h) p g"
  proof (cases "first_free_leaf h")
    case None
    show ?thesis by (rule that[of "Suc d"]) (use None host_grow[OF h] follower_grows[OF h] in \<open>simp_all add: grown_def\<close>)
  next
    case (Some l)
    show ?thesis by (rule that[of d]) (use Some h follower_applies in \<open>auto simp: grown_def\<close>)
  qed
  have len: "length (tg_occupied (grown h)) = 2 ^ d'" "tg_occupied (grown h) ! HOST_LEAF"
    using d' by (auto simp: host_ok_def member_def tree_ok_def)
  have "first_free_leaf (grown h) \<noteq> None"
  proof (cases "first_free_leaf h")
    case None
    have "False \<in> set (tg_occupied (grown h))" unfolding grown_occupied[OF h None] by simp
    then show ?thesis using first_free_None unfolding first_free_leaf_def by blast
  qed (simp add: grown_def)
  then obtain l where l: "first_free_leaf (grown h) = Some l" by auto
  then have f: "l < 2 ^ d'" "\<not> tg_occupied (grown h) ! l" using first_free_Some[of "tg_occupied (grown h)" 0 l] len by (auto simp: first_free_leaf_def)
  have other: "tg_me g \<noteq> l" if g: "follower P d h g" for g
  proof
    assume "tg_me g = l"
    then have "applies P d' (grown h) (PRemove (Suc l)) g" using app[OF g, of "PRemove (Suc l)"] by (simp add: proposal_leaf_def)
    then have "tg_occupied (grown h) ! tg_me g" by (auto simp: applies_def same_tree_def member_def)
    then show False using f \<open>tg_me g = l\<close> by simp
  qed
  have "l \<noteq> HOST_LEAF" using f len by auto
  moreover have "tg_profile (grown h) = tg_profile h" "tg_epoch (grown h) = tg_epoch h" by (simp_all add: grown_def double_capacity_def Let_def)
  moreover have "seats (grown h) = seats h" using seats_grown[OF h] .
  ultimately show ?thesis using that[OF d' l f] app other by blast
qed

lemma add_step:
  assumes laws: "tree_laws P" and h: "host_ok P d h" and j: "joiner P (tg_profile h) lk kp" and c: "length (tc_secret c) = 32"
  obtains d' l cm h' where "group_add P c kp h = (Inr (l, cm, welcome_for h' l cm), h')" "d' \<le> Suc d" "host_ok P d' h'" "tg_epoch h' = tg_epoch h + 1"
    "tg_profile h' = tg_profile h" "seats h' = insert l (seats h)" "\<And>g. follower P d h g \<Longrightarrow> tg_me g \<noteq> l"
    "\<And>pct g. follower P d h g \<Longrightarrow> \<exists>g'. apply_commit P pct cm g = (Inr (), g') \<and> follower P d' h' g' \<and> tg_me g' = tg_me g \<and>
       tg_pending_update g' = tg_pending_update g"
    "\<And>pct. \<exists>g. join_with_welcome P pct lk (welcome_for h' l cm) = Inr g \<and> follower P d' h' g \<and> tg_me g = l \<and> tg_pending_update g = None"
proof -
  obtain d' l where g: "d' \<le> Suc d" "host_ok P d' (grown h)" "first_free_leaf (grown h) = Some l" "l < 2 ^ d'" "\<not> tg_occupied (grown h) ! l" "l \<noteq> HOST_LEAF"
    "tg_profile (grown h) = tg_profile h" "tg_epoch (grown h) = tg_epoch h" "seats (grown h) = seats h"
    and app: "\<And>p g. follower P d h g \<Longrightarrow> proposal_leaf p \<noteq> tg_me g \<Longrightarrow> applies P d' (grown h) p g"
    and other: "\<And>g. follower P d h g \<Longrightarrow> tg_me g \<noteq> l"
    by (rule grown_room[OF h]) blast
  let ?p = "add_of l kp"
  have leaf: "proposal_leaf ?p = l" by (simp add: add_of_def proposal_leaf_def)
  have j': "joiner P (tg_profile (grown h)) lk kp" using j g(7) by simp
  have len: "length (tg_occupied (grown h)) = 2 ^ d'" using g(2) by (simp add: host_ok_def member_def tree_ok_def)
  have p: "proposal_ok P (grown h) ?p"
    using g(4-7) j leaf len by (auto simp: proposal_ok_def add_of_def joiner_def)
  obtain cm h' where run: "apply_proposals P [?p] (grown h) = (Inr (), snd (apply_proposal P ?p (grown h)))"
      "rekey_path P c [?p] None (snd (apply_proposal P ?p (grown h))) = (Inr cm, h')" and del: "delivers P d' (grown h) ?p cm h'"
    by (rule proposal_step[OF laws g(2) p c])
  have add: "group_add P c kp h = (Inr (l, cm, welcome_for h' l cm), h')"
    unfolding group_add_def Let_def grown_def[symmetric] g(3) using run unfolding add_of_def by (simp add: bind_op_def)
  have kept: "\<exists>g'. apply_commit P pct cm g = (Inr (), g') \<and> follower P d' h' g' \<and> tg_me g' = tg_me g \<and> tg_pending_update g' = tg_pending_update g"
    if "follower P d h g" for pct g
    using del app[OF that, of ?p] other[OF that] that leaf unfolding delivers_def follower_def by metis
  have join: "\<exists>g. join_with_welcome P pct lk (welcome_for h' l cm) = Inr g \<and> follower P d' h' g \<and> tg_me g = l \<and> tg_pending_update g = None" for pct
    using welcome_joins[OF laws g(2) p j' c run(2)] g(6) unfolding follower_def by metis
  have "host_ok P d' h'" "tg_epoch h' = tg_epoch h + 1" "tg_profile h' = tg_profile h" "seats h' = insert l (seats h)"
    using del g(7-9) leaf by (simp_all add: delivers_def add_of_def proposed_def)
  from that[OF add g(1) this other kept join] show ?thesis .
qed

end
