(* ===== verification/TreeWire.thy ===== *)
theory TreeWire
  imports TreeAgree
begin

text \<open>
  The wire forms of key packages, proposals, commits and Welcomes: a well-formed value decodes
  to itself, with the counts, the node checks and the frame bound of the decoders.
\<close>

section \<open>Well-formed parts\<close>

definition node_wire :: "node \<Rightarrow> bool" where
  "node_wire n \<longleftrightarrow> (\<exists>k. nd_span n = 2 ^ k) \<and> nd_lo n mod nd_span n = 0 \<and> nd_lo n + nd_span n \<le> MAX_TREE_ITEMS"

definition pub_wire :: "kem_profile \<Rightarrow> ratchet_public \<Rightarrow> bool" where
  "pub_wire profile p \<longleftrightarrow> pub_ok p \<and> rp_profile p = profile"

definition key_wire :: "identity_public \<Rightarrow> bool" where
  "key_wire k \<longleftrightarrow> length (sig_vk k) = SIG_VK_LEN"

definition proposal_wire :: "kem_profile \<Rightarrow> proposal \<Rightarrow> bool" where
  "proposal_wire profile p \<longleftrightarrow> proposal_leaf p < 2 ^ 32 \<and>
     (case p of
        PAdd l lp sp pop \<Rightarrow> pub_wire profile lp \<and> key_wire sp \<and> frame_sized pop
      | PRemove l \<Rightarrow> True
      | PUpdate l lp sp pop auth \<Rightarrow> pub_wire profile lp \<and> key_wire sp \<and> frame_sized pop \<and> frame_sized auth)"

definition sig_update_wire :: "(nat \<times> identity_public \<times> bytes) option \<Rightarrow> bool" where
  "sig_update_wire su \<longleftrightarrow> (case su of None \<Rightarrow> True | Some (l, k, pop) \<Rightarrow> l < 2 ^ 32 \<and> key_wire k \<and> frame_sized pop)"

definition commit_wire :: "kem_profile \<Rightarrow> commit \<Rightarrow> bool" where
  "commit_wire profile cm \<longleftrightarrow>
     (\<forall>p\<in>set (cm_proposals cm). proposal_wire profile p) \<and> (\<forall>(n, p)\<in>set (cm_pub_updates cm). node_wire n \<and> pub_wire profile p) \<and>
     (\<forall>n\<in>set (cm_path cm). node_wire n) \<and> (\<forall>(a, b, blob)\<in>set (cm_ciphertexts cm). node_wire a \<and> node_wire b \<and> frame_sized blob) \<and>
     length (cm_proposals cm) \<le> MAX_TREE_ITEMS \<and> length (cm_pub_updates cm) \<le> MAX_TREE_ITEMS \<and>
     length (cm_path cm) \<le> MAX_TREE_ITEMS \<and> length (cm_ciphertexts cm) \<le> MAX_TREE_ITEMS \<and>
     cm_new_capacity cm \<le> MAX_TREE_ITEMS \<and> sig_update_wire (cm_sig_update cm) \<and>
     frame_sized (encode_body cm) \<and> frame_sized (cm_auth cm)"

section \<open>Byte forms\<close>

definition nat_enc :: "nat \<Rightarrow> bytes" where
  "nat_enc n = u32_be (of_nat n)"

definition node_enc :: "node \<Rightarrow> bytes" where
  "node_enc n = nat_enc (nd_lo n) @ nat_enc (nd_span n)"

definition proposal_enc :: "proposal \<Rightarrow> bytes" where
  "proposal_enc p = (case p of
     PAdd l lp sp pop \<Rightarrow> [0] @ nat_enc l @ bytes_enc (rp_encode lp) @ bytes_enc (sig_vk sp) @ bytes_enc pop
   | PRemove l \<Rightarrow> [1] @ nat_enc l
   | PUpdate l lp sp pop auth \<Rightarrow> [2] @ nat_enc l @ bytes_enc (rp_encode lp) @ bytes_enc (sig_vk sp) @ bytes_enc pop @ bytes_enc auth)"

definition pub_update_enc :: "node \<times> ratchet_public \<Rightarrow> bytes" where
  "pub_update_enc u = node_enc (fst u) @ bytes_enc (rp_encode (snd u))"

definition ciphertext_enc :: "node \<times> node \<times> bytes \<Rightarrow> bytes" where
  "ciphertext_enc c = (case c of (a, b, blob) \<Rightarrow> node_enc a @ node_enc b @ bytes_enc blob)"

definition sig_update_enc :: "(nat \<times> identity_public \<times> bytes) option \<Rightarrow> bytes" where
  "sig_update_enc su = (case su of None \<Rightarrow> [0] | Some (l, k, pop) \<Rightarrow> [1] @ nat_enc l @ bytes_enc (sig_vk k) @ bytes_enc pop)"

definition counted_enc :: "('a \<Rightarrow> bytes) \<Rightarrow> 'a list \<Rightarrow> bytes" where
  "counted_enc enc xs = nat_enc (length xs) @ concat (map enc xs)"

lemma wbuf_put:
  "wbuf (put_nat32 w n) = wbuf w @ nat_enc n" "wbuf (put_node w m) = wbuf w @ node_enc m"
  "wbuf (put_proposal w p) = wbuf w @ proposal_enc p" "wbuf (put_pub_update w u) = wbuf w @ pub_update_enc u"
  "wbuf (put_ciphertext w c) = wbuf w @ ciphertext_enc c"
  by (simp_all add: put_nat32_def nat_enc_def put_node_def node_enc_def put_proposal_def proposal_enc_def put_pub_update_def
      pub_update_enc_def put_ciphertext_def ciphertext_enc_def codec_simps split: proposal.split prod.split)

lemma wbuf_foldl: "(\<And>w x. wbuf (f w x) = wbuf w @ enc x) \<Longrightarrow> wbuf (foldl f w xs) = wbuf w @ concat (map enc xs)"
  by (induction xs arbitrary: w) simp_all

lemmas wbuf_lists = wbuf_foldl[of put_proposal, OF wbuf_put(3)] wbuf_foldl[of put_pub_update, OF wbuf_put(4)]
  wbuf_foldl[of put_node, OF wbuf_put(2)] wbuf_foldl[of put_ciphertext, OF wbuf_put(5)]

lemma encode_body_bytes:
  "encode_body cm = counted_enc proposal_enc (cm_proposals cm) @ counted_enc pub_update_enc (cm_pub_updates cm) @
     counted_enc node_enc (cm_path cm) @ counted_enc ciphertext_enc (cm_ciphertexts cm) @ nat_enc (cm_new_capacity cm) @
     sig_update_enc (cm_sig_update cm)"
  by (cases "cm_sig_update cm")
    (auto simp: encode_body_def Let_def into_vec_def wbuf_put wbuf_lists counted_enc_def sig_update_enc_def codec_simps writer_new_def)

section \<open>Readers\<close>

lemma reads_nat32 [reads_intros]:
  assumes "n < 2 ^ 32"
  shows "reads get_nat32 (nat_enc n) n"
proof -
  have "unat (of_nat n :: u32) = n" using assms by (simp add: unat_of_nat take_bit_nat_eq_self)
  then have "reads get_nat32 (u32_be (of_nat n) @ []) n"
    unfolding get_nat32_def by (intro reads_bind[OF reads_err[OF reads_u32]]) (simp add: reads_def)
  then show ?thesis by (simp add: nat_enc_def)
qed

lemma power_of_two_pow [simp]: "power_of_two (2 ^ k)"
  by (induction k) (subst power_of_two.simps, simp)+

lemma reads_node [reads_intros]:
  assumes "node_wire n"
  shows "reads get_node (node_enc n) n"
proof -
  have b: "nd_lo n < 2 ^ 32" "nd_span n < 2 ^ 32" using assms by (auto simp: node_wire_def MAX_TREE_ITEMS_def)
  have "reads get_node (nat_enc (nd_lo n) @ nat_enc (nd_span n) @ []) n"
    unfolding get_node_def by (rule reads_bind[OF reads_nat32] b)+ (use assms in \<open>auto simp: reads_def node_wire_def MAX_TREE_ITEMS_def\<close>)
  then show ?thesis by (simp add: node_enc_def)
qed

lemma pub_frame: "pub_wire profile p \<Longrightarrow> frame_sized (rp_encode p)"
  by (auto simp: pub_wire_def frame_sized_def length_rp_encode EK_LEN_def MAX_FRAME_def)

lemma reads_ratchet_public [reads_intros]:
  assumes "pub_wire profile p"
  shows "reads (get_ratchet_public profile) (bytes_enc (rp_encode p)) p"
proof -
  have "rp_decode profile (rp_encode p) = Inr p" using assms rp_decode_encode by (auto simp: pub_wire_def)
  then have "reads (get_ratchet_public profile) (bytes_enc (rp_encode p) @ []) p"
    unfolding get_ratchet_public_def by (intro reads_bind[OF reads_err[OF reads_bytes[OF pub_frame[OF assms]]]]) (simp add: reads_def)
  then show ?thesis by simp
qed

lemma reads_sig_public [reads_intros]:
  assumes "key_wire k"
  shows "reads get_sig_public (bytes_enc (sig_vk k)) k"
proof -
  have f: "frame_sized (sig_vk k)" and d: "decode_sig_public (sig_vk k) = Inr k"
    using assms by (simp_all add: key_wire_def frame_sized_def SIG_VK_LEN_def MAX_FRAME_def decode_sig_public_def)
  have "reads get_sig_public (bytes_enc (sig_vk k) @ []) k"
    unfolding get_sig_public_def by (intro reads_bind[OF reads_err[OF reads_bytes[OF f]]]) (simp add: reads_def d)
  then show ?thesis by simp
qed

lemma reads_tag: "reads (f t) e x \<Longrightarrow> reads (\<lambda>r. bind_result (wire (get_u8 r)) (\<lambda>(t, r). f t r)) ([t] @ e) x"
  by (rule reads_bind[OF reads_err[OF reads_u8]])

lemma reads_proposal [reads_intros]:
  assumes "proposal_wire profile p"
  shows "reads (get_proposal profile) (proposal_enc p) p"
proof (cases p)
  case (PAdd l lp sp pop)
  have w: "l < 2 ^ 32" "pub_wire profile lp" "key_wire sp" "frame_sized pop"
    using assms by (simp_all add: PAdd proposal_wire_def proposal_leaf_def)
  have "reads (get_proposal profile) ([0] @ nat_enc l @ bytes_enc (rp_encode lp) @ bytes_enc (sig_vk sp) @ bytes_enc pop @ []) p"
    unfolding get_proposal_def PAdd by (rule reads_tag, rule reads_guard_True, rule refl, (rule reads_intros w)+)
  then show ?thesis by (simp add: PAdd proposal_enc_def)
next
  case (PRemove l)
  have w: "l < 2 ^ 32" using assms by (simp add: PRemove proposal_wire_def proposal_leaf_def)
  have "reads (get_proposal profile) ([1] @ nat_enc l @ []) p"
    unfolding get_proposal_def PRemove
    by (rule reads_tag, rule reads_guard, simp, rule reads_guard_True, rule refl, (rule reads_intros w)+)
  then show ?thesis by (simp add: PRemove proposal_enc_def)
next
  case (PUpdate l lp sp pop auth)
  have w: "l < 2 ^ 32" "pub_wire profile lp" "key_wire sp" "frame_sized pop" "frame_sized auth"
    using assms by (simp_all add: PUpdate proposal_wire_def proposal_leaf_def)
  have "reads (get_proposal profile) ([2] @ nat_enc l @ bytes_enc (rp_encode lp) @ bytes_enc (sig_vk sp) @ bytes_enc pop @ bytes_enc auth @ []) p"
    unfolding get_proposal_def PUpdate
    by (rule reads_tag, rule reads_guard, simp, rule reads_guard, simp, rule reads_guard_True, rule refl, (rule reads_intros w)+)
  then show ?thesis by (simp add: PUpdate proposal_enc_def)
qed

lemma reads_pub_update [reads_intros]:
  assumes "node_wire (fst u)" "pub_wire profile (snd u)"
  shows "reads (get_pub_update profile) (pub_update_enc u) u"
proof -
  have "reads (get_pub_update profile) (node_enc (fst u) @ bytes_enc (rp_encode (snd u)) @ []) (fst u, snd u)"
    unfolding get_pub_update_def by (rule reads_intros assms)+
  then show ?thesis by (simp add: pub_update_enc_def)
qed

lemma reads_ciphertext [reads_intros]:
  assumes "node_wire a" "node_wire b" "frame_sized blob"
  shows "reads get_ciphertext (ciphertext_enc (a, b, blob)) (a, b, blob)"
proof -
  have "reads get_ciphertext (node_enc a @ node_enc b @ bytes_enc blob @ []) (a, b, blob)"
    unfolding get_ciphertext_def by (rule reads_intros assms)+
  then show ?thesis by (simp add: ciphertext_enc_def)
qed

lemma reads_sig_update [reads_intros]:
  assumes "sig_update_wire su"
  shows "reads get_sig_update (sig_update_enc su) su"
proof (cases su)
  case None
  have "reads get_sig_update ([0] @ []) su"
    unfolding get_sig_update_def None by (intro reads_tag) (simp add: reads_def)
  then show ?thesis by (simp add: None sig_update_enc_def)
next
  case (Some x)
  obtain l k pop where x: "x = (l, k, pop)" by (cases x) auto
  have w: "l < 2 ^ 32" "key_wire k" "frame_sized pop" using assms by (simp_all add: Some x sig_update_wire_def)
  have "reads get_sig_update ([1] @ nat_enc l @ bytes_enc (sig_vk k) @ bytes_enc pop @ []) su"
    unfolding get_sig_update_def Some x
    by (rule reads_tag, rule reads_guard, simp, rule reads_guard_True, rule refl, (rule reads_intros w)+)
  then show ?thesis by (simp add: Some x sig_update_enc_def)
qed

text \<open>A counted list: the count passes its bound, since every item has the minimal size.\<close>

lemma counted_at:
  assumes item: "\<And>x. x \<in> set xs \<Longrightarrow> reads f (enc x) x" and size: "\<And>x. x \<in> set xs \<Longrightarrow> m \<le> length (enc x)"
    and count: "length xs \<le> MAX_TREE_ITEMS" "0 < m" and len: "length p + length (counted_enc enc xs) + length q < usize_limit"
  shows "bind_result (get_count m (reader_at p (counted_enc enc xs @ q))) (\<lambda>(n, r). bind_result (read_n n f r) (\<lambda>(xs, r). k xs r)) =
    k xs (reader_at (p @ counted_enc enc xs) q)"
proof -
  let ?n = "nat_enc (length xs)" and ?items = "concat (map enc xs)"
  have n: "length xs < 2 ^ 32" using count(1) by (simp add: MAX_TREE_ITEMS_def)
  have "length xs * m \<le> length ?items"
    using size by (induction xs) (simp_all add: add_mono)
  then have fits: "length xs \<le> length (?items @ q) div m" using count(2) by (simp add: less_eq_div_iff_mult_less_eq)
  have "get_nat32 (reader_at p (?n @ (?items @ q))) = Inr (length xs, reader_at (p @ ?n) (?items @ q))"
    by (rule reads_at[OF reads_nat32[OF n]]) (use len in \<open>simp add: counted_enc_def\<close>)
  moreover have "max m 1 = m" using count(2) by simp
  ultimately have "get_count m (reader_at p (?n @ (?items @ q))) = Inr (length xs, reader_at (p @ ?n) (?items @ q))"
    using fits count(1) unfolding get_count_def by (simp add: remaining_reader_at del: length_append)
  moreover have "read_n (length xs) f (reader_at (p @ ?n) (?items @ q)) = Inr (xs, reader_at ((p @ ?n) @ ?items) q)"
    by (rule reads_at[OF reads_list[OF item]]) (use len in \<open>simp_all add: counted_enc_def\<close>)
  ultimately show ?thesis by (simp add: counted_enc_def)
qed

lemma reads_counted:
  assumes "\<And>x. x \<in> set xs \<Longrightarrow> reads f (enc x) x" "\<And>x. x \<in> set xs \<Longrightarrow> m \<le> length (enc x)"
    and "length xs \<le> MAX_TREE_ITEMS" "0 < m" and "reads (k xs) e y"
  shows "reads (\<lambda>r. bind_result (get_count m r) (\<lambda>(n, r). bind_result (read_n n f r) (\<lambda>(xs, r). k xs r))) (counted_enc enc xs @ e) y"
  using reads_at[OF assms(5), of "_ @ counted_enc enc xs"] by (simp add: reads_def counted_at[OF assms(1-4)])

lemma ends_counted:
  assumes "\<And>x. x \<in> set xs \<Longrightarrow> reads f (enc x) x" "\<And>x. x \<in> set xs \<Longrightarrow> m \<le> length (enc x)"
    and "length xs \<le> MAX_TREE_ITEMS" "0 < m" and "ends (k xs) e y"
  shows "ends (\<lambda>r. bind_result (get_count m r) (\<lambda>(n, r). bind_result (read_n n f r) (\<lambda>(xs, r). k xs r))) (counted_enc enc xs @ e) y"
  using assms(5) by (simp add: ends_def counted_at[OF assms(1-4)])

section \<open>Round trips\<close>

lemma enc_sizes:
  "8 \<le> length (node_enc m)" "1 \<le> length (proposal_enc p)" "12 \<le> length (pub_update_enc u)"
  "20 \<le> length (ciphertext_enc c)"
  by (auto simp: nat_enc_def node_enc_def proposal_enc_def pub_update_enc_def ciphertext_enc_def split: proposal.split prod.split)

lemma commit_read_body:
  assumes "commit_wire profile cm"
  shows "reads (commit_read profile) (encode_body cm) (cm\<lparr>cm_auth := []\<rparr>)"
proof -
  note w = assms[unfolded commit_wire_def]
  have cap: "cm_new_capacity cm < 2 ^ 32" using w by (simp add: MAX_TREE_ITEMS_def)
  have parts: "p \<in> set (cm_proposals cm) \<Longrightarrow> reads (get_proposal profile) (proposal_enc p) p"
    "u \<in> set (cm_pub_updates cm) \<Longrightarrow> reads (get_pub_update profile) (pub_update_enc u) u"
    "n \<in> set (cm_path cm) \<Longrightarrow> reads get_node (node_enc n) n"
    "c \<in> set (cm_ciphertexts cm) \<Longrightarrow> reads get_ciphertext (ciphertext_enc c) c" for p u n c
    using w by (auto intro!: reads_proposal reads_pub_update reads_node reads_ciphertext)
  have "reads (commit_read profile) (counted_enc proposal_enc (cm_proposals cm) @ counted_enc pub_update_enc (cm_pub_updates cm) @
     counted_enc node_enc (cm_path cm) @ counted_enc ciphertext_enc (cm_ciphertexts cm) @ nat_enc (cm_new_capacity cm) @
     sig_update_enc (cm_sig_update cm) @ []) (cm\<lparr>cm_auth := []\<rparr>)"
    unfolding commit_read_def
  proof (intro reads_counted)
    show "reads (\<lambda>r. bind_result (get_nat32 r) (\<lambda>(new_capacity, r).
        if new_capacity > MAX_TREE_ITEMS then malformed ''treekem new_capacity too large''
        else bind_result (get_sig_update r) (\<lambda>(sig_update, r).
         Inr (\<lparr>cm_proposals = cm_proposals cm, cm_pub_updates = cm_pub_updates cm, cm_path = cm_path cm,
               cm_ciphertexts = cm_ciphertexts cm, cm_new_capacity = new_capacity, cm_sig_update = sig_update, cm_auth = []\<rparr>, r))))
       (nat_enc (cm_new_capacity cm) @ sig_update_enc (cm_sig_update cm) @ []) (cm\<lparr>cm_auth := []\<rparr>)"
    proof (rule reads_bind[OF reads_nat32[OF cap]], rule reads_guard)
      show "\<not> cm_new_capacity cm > MAX_TREE_ITEMS" using w by simp
      show "reads (\<lambda>r. bind_result (get_sig_update r) (\<lambda>(sig_update, r).
         Inr (\<lparr>cm_proposals = cm_proposals cm, cm_pub_updates = cm_pub_updates cm, cm_path = cm_path cm,
               cm_ciphertexts = cm_ciphertexts cm, cm_new_capacity = cm_new_capacity cm, cm_sig_update = sig_update, cm_auth = []\<rparr>, r)))
       (sig_update_enc (cm_sig_update cm) @ []) (cm\<lparr>cm_auth := []\<rparr>)"
        by (rule reads_bind[OF reads_sig_update]) (use w in \<open>simp_all add: reads_def\<close>)
    qed
  qed (erule parts | rule enc_sizes | use w in simp)+
  then show ?thesis by (simp add: encode_body_bytes)
qed

lemma frame_room: "frame_sized x \<Longrightarrow> length x \<le> 16777216"
  by (simp add: frame_sized_def MAX_FRAME_def)

lemma commit_roundtrip:
  assumes "commit_wire profile cm"
  shows "commit_decode profile (commit_encode cm) = Inr cm"
proof -
  have f: "frame_sized (encode_body cm)" "frame_sized (cm_auth cm)" using assms by (simp_all add: commit_wire_def)
  have body: "commit_read profile (reader_new (encode_body cm)) = Inr (cm\<lparr>cm_auth := []\<rparr>, reader_at (encode_body cm) [])"
    using frame_room[OF f(1)] by (intro reads_start commit_read_body[OF assms]) (simp add: usize_limit_def)
  have "ends (\<lambda>r. bind_result (wire (get_bytes r)) (\<lambda>(body, r). bind_result (wire (get_vec r)) (\<lambda>(commit_sig, r).
      bind_result (wire (finish r)) (\<lambda>_. Inr (body, commit_sig))))) (bytes_enc (encode_body cm) @ bytes_enc (cm_auth cm) @ []) (encode_body cm, cm_auth cm)"
    by (rule decode_rules reads_intros f)+
  then have "bind_result (wire (get_bytes (reader_new (commit_encode cm)))) (\<lambda>(body, r). bind_result (wire (get_vec r)) (\<lambda>(commit_sig, r).
      bind_result (wire (finish r)) (\<lambda>_. Inr (body, commit_sig)))) = Inr (encode_body cm, cm_auth cm)"
    using frame_room[OF f(1)] frame_room[OF f(2)]
    by (intro ends_start) (simp_all add: commit_encode_def into_vec_def codec_simps writer_new_def usize_limit_def)
  then show ?thesis
    using body by (auto simp: commit_decode_def result_simps codec_simps)
qed

lemma proposal_roundtrip:
  assumes "proposal_wire profile p"
  shows "get_proposal profile (reader_new (into_vec (put_proposal writer_new p))) = Inr (p, reader_at (proposal_enc p) [])"
proof -
  have "length (proposal_enc p) < usize_limit"
    using assms by (cases p) (auto simp: proposal_enc_def proposal_wire_def nat_enc_def usize_limit_def key_wire_def SIG_VK_LEN_def
        dest!: frame_room pub_frame)
  then have "get_proposal profile (reader_new (proposal_enc p)) = Inr (p, reader_at (proposal_enc p) [])"
    by (rule reads_start[OF reads_proposal[OF assms]])
  then show ?thesis by (simp add: into_vec_def wbuf_put writer_new_def)
qed

lemma decode_update_roundtrip:
  assumes "proposal_wire profile p" "p = PUpdate l lp sp pop auth"
  shows "decode_update profile l (into_vec (put_proposal writer_new p)) = Inr p"
  using proposal_roundtrip[OF assms(1)] by (simp add: decode_update_def assms(2) codec_simps)

lemma keypackage_roundtrip:
  assumes "pub_wire profile (kp_leaf_public kp)" "key_wire (kp_sig_public kp)" "frame_sized (kp_pop kp)"
    and "verify_pop P (kp_sig_public kp) (kp_pop kp) = Inr ()"
  shows "keypackage_decode P profile (keypackage_encode kp) = Inr kp"
proof -
  have len: "length (bytes_enc (rp_encode (kp_leaf_public kp)) @ bytes_enc (sig_vk (kp_sig_public kp)) @ bytes_enc (kp_pop kp) @ []) < usize_limit"
    using assms(2) frame_room[OF pub_frame[OF assms(1)]] frame_room[OF assms(3)] by (simp add: usize_limit_def key_wire_def SIG_VK_LEN_def)
  have "ends (\<lambda>r. bind_result (get_ratchet_public profile r) (\<lambda>(leaf_public, r). bind_result (get_sig_public r) (\<lambda>(sig_public, r).
      bind_result (wire (get_vec r)) (\<lambda>(pop, r). bind_result (wire (finish r)) (\<lambda>_. bind_result (verify_pop P sig_public pop) (\<lambda>_.
       Inr \<lparr>kp_leaf_public = leaf_public, kp_sig_public = sig_public, kp_pop = pop\<rparr>))))))
      (bytes_enc (rp_encode (kp_leaf_public kp)) @ bytes_enc (sig_vk (kp_sig_public kp)) @ bytes_enc (kp_pop kp) @ []) kp"
    by (rule ends_bind[OF reads_ratchet_public[OF assms(1)]], rule ends_bind[OF reads_sig_public[OF assms(2)]],
        rule ends_bind[OF reads_err[OF reads_vec[OF assms(3)]]]) (simp add: ends_def codec_simps assms(4))
  from ends_start[OF this len] show ?thesis
    by (simp add: keypackage_decode_def keypackage_encode_def into_vec_def codec_simps writer_new_def)
qed

definition sig_key_enc :: "nat \<times> ratchet_public \<times> identity_public \<times> bytes \<Rightarrow> bytes" where
  "sig_key_enc e = (case e of (l, lp, k, pop) \<Rightarrow> nat_enc l @ bytes_enc (rp_encode lp) @ bytes_enc (sig_vk k) @ bytes_enc pop)"

definition welcome_wire :: "kem_profile \<Rightarrow> welcome_msg \<Rightarrow> bool" where
  "welcome_wire profile wl \<longleftrightarrow>
     wl_capacity wl \<le> MAX_TREE_ITEMS \<and> (\<forall>(n, p)\<in>set (wl_public wl). node_wire n \<and> pub_wire profile p) \<and>
     length (wl_public wl) \<le> MAX_TREE_ITEMS \<and> length (wl_occupied wl) \<le> MAX_TREE_ITEMS \<and> wl_your_leaf wl < 2 ^ 32 \<and>
     (\<forall>(l, lp, k, pop)\<in>set (wl_sig_keys wl). l < 2 ^ 32 \<and> pub_wire profile lp \<and> key_wire k \<and> frame_sized pop) \<and>
     length (wl_sig_keys wl) \<le> MAX_TREE_ITEMS \<and> commit_wire profile (wl_commit wl) \<and> frame_sized (commit_encode (wl_commit wl)) \<and>
     length (welcome_encode wl) < usize_limit"

lemma reads_occupied: "reads get_occupied [if b then 1 else 0] b"
proof -
  have "reads get_occupied ([if b then 1 else 0] @ []) b"
    unfolding get_occupied_def by (rule reads_tag) (simp add: reads_def)
  then show ?thesis by simp
qed

lemma reads_sig_key:
  assumes "l < 2 ^ 32" "pub_wire profile lp" "key_wire k" "frame_sized pop"
  shows "reads (get_sig_key profile) (sig_key_enc (l, lp, k, pop)) (l, lp, k, pop)"
proof -
  have "reads (get_sig_key profile) (nat_enc l @ bytes_enc (rp_encode lp) @ bytes_enc (sig_vk k) @ bytes_enc pop @ []) (l, lp, k, pop)"
    unfolding get_sig_key_def by (rule reads_intros assms)+
  then show ?thesis by (simp add: sig_key_enc_def)
qed

lemma welcome_bytes:
  "welcome_encode wl = nat_enc (wl_capacity wl) @ counted_enc pub_update_enc (wl_public wl) @
     counted_enc (\<lambda>b. [if b then 1 else 0]) (wl_occupied wl) @ u32_be (wl_epoch wl) @ nat_enc (wl_your_leaf wl) @
     counted_enc sig_key_enc (wl_sig_keys wl) @ bytes_enc (commit_encode (wl_commit wl))"
proof -
  have "wbuf (put_sig_key w e) = wbuf w @ sig_key_enc e" for w e
    by (simp add: put_sig_key_def sig_key_enc_def wbuf_put codec_simps split: prod.split)
  then have "wbuf (foldl put_sig_key w es) = wbuf w @ concat (map sig_key_enc es)" for w es by (rule wbuf_foldl)
  moreover have "wbuf (foldl (\<lambda>w b. put_u8 w (if b then 1 else 0)) w bs) = wbuf w @ concat (map (\<lambda>b. [if b then 1 else 0]) bs)" for w bs
    by (rule wbuf_foldl) (simp add: codec_simps)
  ultimately show ?thesis
    by (simp add: welcome_encode_def Let_def into_vec_def wbuf_put wbuf_lists counted_enc_def codec_simps writer_new_def)
qed

lemma welcome_roundtrip:
  assumes "welcome_wire profile wl"
  shows "welcome_decode profile (welcome_encode wl) = Inr wl"
proof -
  note w = assms[unfolded welcome_wire_def]
  have cap: "wl_capacity wl < 2 ^ 32" using w by (simp add: MAX_TREE_ITEMS_def)
  have parts: "u \<in> set (wl_public wl) \<Longrightarrow> reads (get_pub_update profile) (pub_update_enc u) u"
    "e \<in> set (wl_sig_keys wl) \<Longrightarrow> reads (get_sig_key profile) (sig_key_enc e) e" for u e
    using w by (auto intro!: reads_pub_update reads_sig_key)
  have size: "16 \<le> length (sig_key_enc e)" "1 \<le> length [if b then 1 else (0 :: byte)]" for e b
    by (auto simp: sig_key_enc_def nat_enc_def split: prod.split)
  let ?last = "\<lambda>capacity public occupied epoch your_leaf sig_keys r. bind_result (wire (get_bytes r)) (\<lambda>(cb, r).
      bind_result (commit_decode profile cb) (\<lambda>commit. bind_result (wire (finish r)) (\<lambda>_.
           Inr \<lparr>wl_capacity = capacity, wl_public = public, wl_occupied = occupied, wl_epoch = epoch,
                wl_your_leaf = your_leaf, wl_sig_keys = sig_keys, wl_commit = commit\<rparr>)))"
  have cb: "frame_sized (commit_encode (wl_commit wl))" "commit_decode profile (commit_encode (wl_commit wl)) = Inr (wl_commit wl)"
    using w commit_roundtrip by auto
  have tail: "ends (?last (wl_capacity wl) (wl_public wl) (wl_occupied wl) (wl_epoch wl) (wl_your_leaf wl) (wl_sig_keys wl))
      (bytes_enc (commit_encode (wl_commit wl)) @ []) wl"
    by (rule ends_bind[OF reads_err[OF reads_bytes[OF cb(1)]]]) (simp add: ends_def codec_simps cb(2))
  have leaf: "wl_your_leaf wl < 2 ^ 32" using w by simp
  have "ends (\<lambda>r. bind_result (get_nat32 r) (\<lambda>(capacity, r). if capacity > MAX_TREE_ITEMS then malformed ''treekem welcome capacity too large''
      else bind_result (get_count 12 r) (\<lambda>(np, r). bind_result (read_n np (get_pub_update profile) r) (\<lambda>(public, r).
         bind_result (get_count 1 r) (\<lambda>(no, r). bind_result (read_n no get_occupied r) (\<lambda>(occupied, r).
         bind_result (wire (get_u32 r)) (\<lambda>(epoch, r). bind_result (get_nat32 r) (\<lambda>(your_leaf, r).
         bind_result (get_count 16 r) (\<lambda>(nsk, r). bind_result (read_n nsk (get_sig_key profile) r) (\<lambda>(sig_keys, r).
           ?last capacity public occupied epoch your_leaf sig_keys r)))))))))) (welcome_encode wl @ []) wl"
    unfolding welcome_bytes append_assoc
  proof (rule ends_bind[OF reads_nat32[OF cap]], rule ends_if, goal_cases)
    case 2
    show ?case
      by (intro ends_counted ends_bind[OF reads_err[OF reads_u32]] ends_bind[OF reads_nat32[OF leaf]] tail reads_occupied)
        (erule parts | rule enc_sizes size | use w in simp)+
  qed (use w in simp)
  from ends_start[OF this[simplified]] w show ?thesis by (simp add: welcome_decode_def)
qed

section \<open>Properties\<close>

text \<open>
  C39. What the host sends is what the members read: every commit and every Welcome whose parts are
  within the decoder's limits, with nodes inside the tree, keys of the group's profile and
  bodies that fit a frame, decodes to itself, its proposals, re-keyed path, ciphertexts, signing key
  rotation and signature included.
\<close>

theorem commit_and_welcome_roundtrip:
  "(commit_wire profile cm \<longrightarrow> commit_decode profile (commit_encode cm) = Inr cm) \<and>
   (welcome_wire profile wl \<longrightarrow> welcome_decode profile (welcome_encode wl) = Inr wl)"
  using commit_roundtrip welcome_roundtrip by blast

definition demo_commit :: commit where
  "demo_commit = \<lparr>cm_proposals = [PRemove 1], cm_pub_updates = [], cm_path = [nd_leaf 0, root_of 2],
     cm_ciphertexts = [(root_of 2, nd_leaf 1, [1, 2])], cm_new_capacity = 2, cm_sig_update = None, cm_auth = [9]\<rparr>"

definition demo_welcome :: welcome_msg where
  "demo_welcome = \<lparr>wl_capacity = 2, wl_public = [], wl_occupied = [True, False], wl_epoch = 1, wl_your_leaf = 1,
     wl_sig_keys = [], wl_commit = demo_commit\<rparr>"

lemma demo_node_wire: "node_wire (nd_leaf 0)" "node_wire (nd_leaf 1)" "node_wire (root_of 2)"
  by (auto simp: node_wire_def nd_leaf_def root_of_def MAX_TREE_ITEMS_def intro: exI[of _ 0] exI[of _ 1])

lemma demo_commit_wire: "commit_wire profile demo_commit"
proof -
  have "frame_sized (encode_body demo_commit)"
    by (simp add: demo_commit_def encode_body_bytes counted_enc_def proposal_enc_def node_enc_def nat_enc_def ciphertext_enc_def
        sig_update_enc_def frame_sized_def MAX_FRAME_def)
  then show ?thesis using demo_node_wire
    by (simp add: commit_wire_def demo_commit_def proposal_wire_def proposal_leaf_def sig_update_wire_def frame_sized_def MAX_TREE_ITEMS_def MAX_FRAME_def)
qed

lemma demo_welcome_wire: "welcome_wire profile demo_welcome"
proof -
  have e: "length (commit_encode demo_commit) < 100"
    by (simp add: commit_encode_def into_vec_def codec_simps demo_commit_def encode_body_bytes counted_enc_def proposal_enc_def node_enc_def
        nat_enc_def ciphertext_enc_def sig_update_enc_def writer_new_def)
  then have "length (welcome_encode demo_welcome) < usize_limit"
    by (simp add: demo_welcome_def welcome_bytes counted_enc_def nat_enc_def usize_limit_def)
  then show ?thesis using e demo_commit_wire by (simp add: welcome_wire_def demo_welcome_def MAX_TREE_ITEMS_def frame_sized_def MAX_FRAME_def)
qed

theorem commit_and_welcome_roundtrip_witness:
  "welcome_decode \<lparr>posture = Hybrid, pad_pure = False\<rparr> (welcome_encode demo_welcome) = Inr demo_welcome"
  using commit_and_welcome_roundtrip[of _ demo_commit demo_welcome] demo_welcome_wire by blast

end
