(* ===== verification/TreeUpdate.thy ===== *)
theory TreeUpdate
  imports TreeRun TreeWire
begin

text \<open>
  Re-keying without a change of members: the host's own update, which also rotates its signing
  key, and a member's update, which the member proposes and the host commits.
\<close>

section \<open>The host's update\<close>

lemma rebind_key:
  assumes "l < 2 ^ d" "tg_occupied g ! l"
  shows "tree_ok P d g \<Longrightarrow> tree_ok P d (g\<lparr>tg_leaf_sig_keys := AList.update l k (tg_leaf_sig_keys g), tg_leaf_pops := q, tg_my_sig := y\<rparr>)"
    and "holds P d (g\<lparr>tg_leaf_sig_keys := x, tg_leaf_pops := q, tg_my_sig := y\<rparr>) = holds P d g"
  using assms by (auto simp: tree_ok_def holds_def keyed_def update_conv')

lemma update_step:
  assumes laws: "tree_laws P" and h: "host_ok P d h" and c: "length (tc_secret c) = 32"
  obtains cm h' where "group_update P c h = (Inr cm, h')" "host_ok P d h'" "tg_epoch h' = tg_epoch h + 1" "tg_profile h' = tg_profile h" "seats h' = seats h"
    "\<And>pct g. follower P d h g \<Longrightarrow> \<exists>g'. apply_commit P pct cm g = (Inr (), g') \<and> follower P d h' g' \<and> tg_me g' = tg_me g \<and>
       tg_pending_update g' = tg_pending_update g"
proof -
  let ?sig = "from_secret_bytes P (tc_seed c)"
  define pop where "pop = id_sign P ?sig (pop_transcript (id_public ?sig))"
  have me: "tg_me h = HOST_LEAF" "HOST_LEAF < 2 ^ d" "tg_occupied h ! HOST_LEAF" "tg_capacity h = 2 ^ d" "keyed P h" "length (tg_occupied h) = 2 ^ d"
    using h by (auto simp: host_ok_def member_def tree_ok_def)
  let ?su = "Some (HOST_LEAF, id_public ?sig, pop)"
  obtain cm h1 where run: "rekey_path P c [] ?su h = (Inr cm, h1)"
    using rekey_path_run[OF laws me(4,5) c refl refl, where ps = "[]" and su = ?su] by metis
  note facts = rekey_facts[OF laws h c run]
  have popok: "verify_pop P (id_public ?sig) pop = Inr ()"
    using laws by (simp add: verify_pop_def pop_def verify_signed tree_laws_def)
  define h' where "h' = h1\<lparr>tg_leaf_sig_keys := AList.update HOST_LEAF (id_public ?sig) (tg_leaf_sig_keys h1),
      tg_leaf_pops := AList.update HOST_LEAF pop (tg_leaf_pops h1), tg_my_sig := Some ?sig\<rparr>"
  have upd: "group_update P c h = (Inr cm, h')"
    using run facts(11) me(1) by (simp add: group_update_def Let_def bind_op_def pop_def h'_def)
  have keys: "map_of (tg_leaf_sig_keys h') = (map_of (tg_leaf_sig_keys h))(HOST_LEAF \<mapsto> id_public ?sig)" by (simp add: h'_def update_conv' facts(9))
  have sel: "tg_public h' = tg_public h1" "tg_secrets h' = tg_secrets h1" "tg_capacity h' = 2 ^ d" "tg_occupied h' = tg_occupied h" "tg_me h' = HOST_LEAF"
      "tg_profile h' = tg_profile h" "tg_epoch h' = tg_epoch h + 1" "tg_epoch_secret h' = tg_epoch_secret h1"
    by (simp_all add: h'_def facts me)
  have "tree_ok P d h1" "holds P d h1" using facts(1) by (simp_all add: host_ok_def member_def)
  then have "tree_ok P d h'" "holds P d h'"
    using rebind_key[OF me(2), of h1] me(3) by (simp_all add: h'_def facts(16))
  moreover have "signs P h'" using keys by (auto simp: signs_def h'_def facts me)
  moreover have "\<exists>q. map_of (tg_leaf_pops h') l = Some q \<and> verify_pop P k q = Inr ()" if "map_of (tg_leaf_sig_keys h') l = Some k" for l k
    using that popok h unfolding keys by (cases "l = HOST_LEAF") (auto simp: h'_def update_conv' facts host_ok_def)
  ultimately have "host_ok P d h'"
    using facts(1) me unfolding host_ok_def member_def by (simp add: sel) (simp add: h'_def distinct_update)
  moreover have "\<exists>g'. apply_commit P pct cm g = (Inr (), g') \<and> follower P d h' g' \<and> tg_me g' = tg_me g \<and> tg_pending_update g' = tg_pending_update g"
    if g: "follower P d h g" for pct g
  proof -
    have m: "member P d g" "same_tree h g" "tg_epoch g = tg_epoch h" "tg_me g \<noteq> HOST_LEAF" using g by (auto simp: follower_def in_step_def)
    let ?g = "g\<lparr>tg_leaf_sig_keys := AList.update HOST_LEAF (id_public ?sig) (tg_leaf_sig_keys g), tg_leaf_pops := AList.update HOST_LEAF pop (tg_leaf_pops g)\<rparr>"
    have eq: "tg_occupied g = tg_occupied h" "map_of (tg_leaf_sig_keys g) = map_of (tg_leaf_sig_keys h)" "tg_capacity g = 2 ^ d" using m(2) me(4) by (auto simp: same_tree_def)
    have prop0: "apply_proposals P [] (grow_to (2 ^ d) g) = (Inr (), g)" by (simp add: grow_to_same[OF eq(3)])
    have rot: "rotate_sig P HOST_LEAF cm g = (Inr (), ?g)" using popok me eq by (simp add: rotate_sig_def facts(6))
    have "tree_ok P d g" "holds P d g" "signs P g" using m(1) by (simp_all add: member_def)
    then have "tree_ok P d ?g" "holds P d ?g" "signs P ?g"
      using rebind_key[OF me(2), of g, where y = "tg_my_sig g"] me(3) m(4) by (auto simp: signs_def update_conv' eq(1))
    then have mem: "member P d ?g" using m(1) by (simp add: member_def)
    have key: "map_of (tg_leaf_sig_keys g) HOST_LEAF = map_of (tg_leaf_sig_keys h) HOST_LEAF" by (simp add: eq(2))
    have same: "same_tree (h\<lparr>tg_leaf_sig_keys := tg_leaf_sig_keys ?g\<rparr>) ?g" using m(2) by (simp add: same_tree_def)
    have me': "tg_me ?g \<noteq> HOST_LEAF" "tg_epoch ?g = tg_epoch h" using m by simp_all
    obtain q s where qs: "apply_commit P pct cm g = (Inr (), reset_epoch P (?g\<lparr>tg_public := q, tg_secrets := s, tg_epoch := tg_epoch h1, tg_epoch_secret := tg_epoch_secret h1\<rparr>))"
      "member P d (?g\<lparr>tg_public := q, tg_secrets := s\<rparr>)" "same_tree (h1\<lparr>tg_leaf_sig_keys := tg_leaf_sig_keys ?g\<rparr>) (?g\<lparr>tg_public := q, tg_secrets := s\<rparr>)"
      by (rule commit_step[OF laws h c run m(3) key prop0 rot mem same me'])
    have "same_tree h' (?g\<lparr>tg_public := q, tg_secrets := s\<rparr>)"
      using qs(3) by (simp add: same_tree_def keys sel update_conv' eq(2) facts(12,15,16) me(4))
    then have "follower P d h' (reset_epoch P (?g\<lparr>tg_public := q, tg_secrets := s, tg_epoch := tg_epoch h1, tg_epoch_secret := tg_epoch_secret h1\<rparr>))"
      using qs(2) m(4) by (simp add: follower_def in_step_def sel facts(10))
    then show ?thesis using qs(1) by simp
  qed
  moreover have "seats h' = seats h" by (simp add: seats_def sel)
  ultimately show ?thesis using that[OF upd] sel by blast
qed

section \<open>A member's update\<close>

text \<open>The proposal a member makes, and what the host receives of it.\<close>

lemma pub_of_profile: "tree_laws P \<Longrightarrow> pub_wire profile (pub_of P profile s)"
proof -
  assume laws: "tree_laws P"
  obtain sk where sk: "\<And>coins. node_key P coins profile s = Inr (sk, pub_of P profile s)" "key_pair P sk (pub_of P profile s)"
    using node_key_laws[OF laws, of profile s] by metis
  have "rp_profile pk = profile" if "node_key P c profile s = Inr (sk, pk)" for c sk pk
    using that by (auto simp: node_key_def derive_deterministic_def Let_def split: kem_posture.splits if_splits prod.splits)
  then have "rp_profile (pub_of P profile s) = profile" using sk(1) by blast
  then show ?thesis using sk(2) by (simp add: pub_wire_def key_pair_def)
qed

lemma key_wire_seed: "tree_laws P \<Longrightarrow> key_wire (id_public (from_secret_bytes P seed))"
  by (simp add: key_wire_def from_secret_bytes_def tree_laws_def dsa_correct_def VK_LEN_def SIG_VK_LEN_def)

lemma sign_frame: "tree_laws P \<Longrightarrow> frame_sized (id_sign P k m)"
  by (simp add: id_sign_def tree_laws_def dsa_correct_def frame_sized_def SIG_LEN_def MAX_FRAME_def)

definition update_of :: "prims \<Rightarrow> identity_key_pair \<Rightarrow> nat \<Rightarrow> leaf_key_pair \<Rightarrow> proposal" where
  "update_of P current me lk =
     (let lp = pub_of P (lk_profile lk) (lk_secret lk); sp = id_public (lk_sig lk)
      in PUpdate me lp sp (id_sign P (lk_sig lk) (pop_transcript sp)) (id_sign P current (update_auth_transcript me lp sp)))"

lemma propose_run:
  assumes laws: "tree_laws P" and g: "member P d g" "d \<le> 20" and lk: "lk = leaf_generate_with P c (tg_profile g)"
  obtains current where "tg_my_sig g = Some current" "map_of (tg_leaf_sig_keys g) (tg_me g) = Some (id_public current)"
    "\<exists>seed. current = from_secret_bytes P seed"
    "propose_update P c pct g = (Inr (into_vec (put_proposal writer_new (update_of P current (tg_me g) lk))), g\<lparr>tg_pending_update := Some lk\<rparr>)"
    "decode_update (tg_profile g) (tg_me g) (into_vec (put_proposal writer_new (update_of P current (tg_me g) lk))) =
       Inr (update_of P current (tg_me g) lk)"
proof -
  obtain seed where cur: "tg_my_sig g = Some (from_secret_bytes P seed)"
      "map_of (tg_leaf_sig_keys g) (tg_me g) = Some (id_public (from_secret_bytes P seed))"
    using g(1) by (auto simp: member_def signs_def)
  let ?p = "update_of P (from_secret_bytes P seed) (tg_me g) lk"
  obtain sk where "node_key P pct (tg_profile g) (lk_secret lk) = Inr (sk, pub_of P (tg_profile g) (lk_secret lk))"
    using node_key_laws[OF laws, of "tg_profile g" "lk_secret lk"] by metis
  then have run: "propose_update P c pct g = (Inr (into_vec (put_proposal writer_new ?p)), g\<lparr>tg_pending_update := Some lk\<rparr>)"
    using cur(1) by (simp add: propose_update_def leaf_key_package_def Let_def update_of_def lk leaf_generate_with_def)
  have "tg_me g < 2 ^ 20"
    using g power_increasing[of d 20 "2 :: nat"] by (simp add: member_def) 
  then have "proposal_wire (tg_profile g) ?p"
    using pub_of_profile[OF laws] key_wire_seed[OF laws] sign_frame[OF laws]
    by (simp add: update_of_def Let_def proposal_wire_def proposal_leaf_def lk leaf_generate_with_def)
  then have "decode_update (tg_profile g) (tg_me g) (into_vec (put_proposal writer_new ?p)) = Inr ?p"
    by (rule decode_update_roundtrip) (simp add: update_of_def Let_def)
  then show ?thesis using that cur run by blast
qed

lemma pending_irrelevant [simp]:
  "member P d (g\<lparr>tg_pending_update := x\<rparr>) = member P d g" "same_tree h (g\<lparr>tg_pending_update := x\<rparr>) = same_tree h g"
  "in_step h (g\<lparr>tg_pending_update := x\<rparr>) = in_step h g" "follower P d h (g\<lparr>tg_pending_update := x\<rparr>) = follower P d h g"
  by (simp_all add: member_def tree_ok_def keyed_def holds_def signs_def same_tree_def in_step_def follower_def)

lemma follower_facts:
  assumes "follower P d h g"
  shows "member P d g" "same_tree h g" "tg_me g < 2 ^ d" "tg_me g \<noteq> HOST_LEAF" "tg_occupied h ! tg_me g" "tg_profile h = tg_profile g"
    "map_of (tg_leaf_sig_keys h) = map_of (tg_leaf_sig_keys g)" "length (tg_occupied h) = 2 ^ d"
  using assms by (auto simp: follower_def in_step_def member_def same_tree_def tree_ok_def)

lemma update_proposal_ok:
  assumes laws: "tree_laws P" and g: "follower P d h g" and lk: "lk = leaf_generate_with P c (tg_profile g)"
    and cur: "map_of (tg_leaf_sig_keys g) (tg_me g) = Some (id_public (from_secret_bytes P seed))"
  shows "proposal_ok P h (update_of P (from_secret_bytes P seed) (tg_me g) lk)"
proof -
  note f = follower_facts[OF g]
  have v: "verify_pop P (id_public (lk_sig lk)) (id_sign P (lk_sig lk) (pop_transcript (id_public (lk_sig lk)))) = Inr ()"
    using laws by (simp add: verify_pop_def verify_signed lk leaf_generate_with_def tree_laws_def)
  have p: "lk_profile lk = tg_profile h" using f(6) by (simp add: lk leaf_generate_with_def)
  have a: "id_verify P (id_public (from_secret_bytes P seed)) m (id_sign P (from_secret_bytes P seed) m) = Inr ()" for m
    using laws by (simp add: verify_signed tree_laws_def)
  show ?thesis using f(3,4,5,8) v p a cur
    by (auto simp: proposal_ok_def update_of_def Let_def proposal_leaf_def f(7))
qed

lemma commit_update_step:
  assumes laws: "tree_laws P" and h: "host_ok P d h" "d \<le> 20" and g: "follower P d h g"
    and cj: "length (tc_secret cj) = 32" and c: "length (tc_secret c) = 32"
  obtains b g1 p cm h' where "propose_update P cj kpct g = (Inr b, g1)" "commit_update P c (tg_me g) b h = (Inr cm, h')"
    "delivers P d h p cm h'" "proposal_leaf p = tg_me g" "applies P d h p g1" "tg_me g1 = tg_me g"
    "proposed p \<noteq> None" "proposal_ok P h p"
proof -
  note f = follower_facts[OF g]
  define lk where "lk = leaf_generate_with P cj (tg_profile g)"
  obtain current where cur: "tg_my_sig g = Some current" "map_of (tg_leaf_sig_keys g) (tg_me g) = Some (id_public current)"
    "\<exists>seed. current = from_secret_bytes P seed"
    "propose_update P cj kpct g = (Inr (into_vec (put_proposal writer_new (update_of P current (tg_me g) lk))), g\<lparr>tg_pending_update := Some lk\<rparr>)"
    "decode_update (tg_profile g) (tg_me g) (into_vec (put_proposal writer_new (update_of P current (tg_me g) lk))) =
       Inr (update_of P current (tg_me g) lk)"
    by (rule propose_run[OF laws f(1) h(2) lk_def, where pct = kpct])
  let ?p = "update_of P current (tg_me g) lk"
  have ok: "proposal_ok P h ?p" using update_proposal_ok[OF laws g lk_def] cur(2,3) by auto
  have leaf: "proposal_leaf ?p = tg_me g" "proposed ?p \<noteq> None" by (simp_all add: update_of_def Let_def proposal_leaf_def proposed_def)
  obtain cm h' where run: "apply_proposals P [?p] h = (Inr (), snd (apply_proposal P ?p h))"
    "rekey_path P c [?p] None (snd (apply_proposal P ?p h)) = (Inr cm, h')" "delivers P d h ?p cm h'"
    by (rule proposal_step[OF laws h(1) ok c])
  have "commit_update P c (tg_me g) (into_vec (put_proposal writer_new ?p)) h = (Inr cm, h')"
    using cur(5) run(1,2) by (simp add: commit_update_def f(6) bind_op_def)
  moreover have "staged_for P ?p (g\<lparr>tg_pending_update := Some lk\<rparr>)"
    using cj by (auto simp: staged_for_def update_of_def Let_def lk_def leaf_generate_with_def)
  then have "applies P d h ?p (g\<lparr>tg_pending_update := Some lk\<rparr>)" using g by (intro follower_applies) simp_all
  ultimately show ?thesis using that cur(4) run(3) leaf ok by (metis (no_types, lifting) treekem_group.select_convs(5) treekem_group.surjective treekem_group.update_convs(15))
qed

end
