(* ===== verification/TreeSession.thy ===== *)
theory TreeSession
  imports TreeUpdate
begin

text \<open>
  The life of a TreeKEM group: the host creates it, adds and removes members and re-keys;
  members propose updates, which the host commits, and everybody applies the commits of the
  host. Every operation of every such run succeeds, and the members stay in step with the host.
\<close>

section \<open>Creation\<close>

lemma create_run:
  assumes laws: "tree_laws P" and c: "length (tc_secret c) = 32"
  obtains h where "create_with_sig P c profile (from_secret_bytes P seed) = Inr h" "host_ok P 1 h" "seats h = {HOST_LEAF}"
proof -
  let ?s = "tc_secret c" and ?k = "from_secret_bytes P seed"
  let ?s' = "derive_parent_secret P ?s"
  let ?pop = "id_sign P ?k (pop_transcript (id_public ?k))"
  define g0 where "g0 = \<lparr>tg_profile = profile, tg_capacity = 2, tg_public = [], tg_occupied = [True, False], tg_me = 0,
     tg_secrets = [], tg_epoch = 0, tg_epoch_secret = replicate 32 0, tg_send_chain = replicate 32 0, tg_send_n = 0,
     tg_recvs = [], tg_leaf_sig_keys = [(0, id_public ?k)], tg_leaf_pops = [], tg_my_sig = Some ?k,
     tg_pending_update = None, tg_pad_bucket = 0\<rparr>"
  have path: "path_to_root g0 0 = [anc 0 0, anc 0 1]"
    using path_to_root_anc[of g0 1 0] by (simp add: g0_def)
  have root: "root_of 2 = anc 0 1" by (simp add: root_of_def anc_def)
  have ne: "anc 0 0 \<noteq> anc 0 1" by simp
  define h where "h = reset_epoch P (g0\<lparr>tg_public := [(anc 0 0, pub_of P profile ?s), (anc 0 1, pub_of P profile ?s')],
     tg_secrets := [(anc 0 0, ?s), (anc 0 1, ?s')], tg_epoch_secret := derive_commit_secret P ?s', tg_leaf_pops := [(0, ?pop)]\<rparr>)"
  have nodes: "set_nodes P c [(anc 0 0, ?s), (anc 0 1, ?s')] g0 = (Inr [(anc 0 0, pub_of P profile ?s), (anc 0 1, pub_of P profile ?s')],
      g0\<lparr>tg_public := [(anc 0 0, pub_of P profile ?s), (anc 0 1, pub_of P profile ?s')], tg_secrets := [(anc 0 0, ?s), (anc 0 1, ?s')]\<rparr>)"
    using set_nodes_spec[OF laws, of c "[(anc 0 0, ?s), (anc 0 1, ?s')]" g0] ne by (simp add: pub_updates_of_def g0_def)
  have run: "create_with_sig P c profile ?k = Inr h"
    unfolding create_with_sig_def Let_def list_update.simps nat.case g0_def[symmetric] path
    using nodes root by (simp add: g0_def h_def reset_epoch_def)
  have sized: "length ?s' = 32"
    using secret_chain_sized[of P ?s ?s' 2] laws c by (simp add: tree_laws_def numeral_2_eq_2)
  have sel: "tg_profile h = profile" "tg_capacity h = 2" "tg_occupied h = [True, False]" "tg_me h = 0"
      "tg_public h = [(anc 0 0, pub_of P profile ?s), (anc 0 1, pub_of P profile ?s')]" "tg_secrets h = [(anc 0 0, ?s), (anc 0 1, ?s')]"
      "tg_leaf_sig_keys h = [(0, id_public ?k)]" "tg_leaf_pops h = [(0, ?pop)]" "tg_my_sig h = Some ?k"
    by (simp_all add: h_def g0_def reset_epoch_def)
  have leafs: "nd_leaf 0 = anc 0 0" "nd_leaf 1 \<noteq> anc 0 0" "nd_leaf 1 \<noteq> anc 0 1" "nd_leaf 0 \<noteq> anc 0 1"
    by (simp_all add: nd_leaf_def anc_def)
  have "tree_ok P 1 h"
    using leafs by (auto simp: tree_ok_def sel keyed_def less_2_cases_iff nth_Cons' split: if_splits)
  moreover have "holds P 1 h"
    using c sized by (auto simp: holds_def sel le_Suc_eq split: if_splits)
  moreover have "signs P h" by (auto simp: signs_def sel)
  moreover have "verify_pop P (id_public ?k) ?pop = Inr ()" using laws by (simp add: verify_pop_def verify_signed tree_laws_def)
  ultimately have "host_ok P 1 h" using ne by (auto simp: host_ok_def member_def sel HOST_LEAF_def)
  moreover have "seats h = {HOST_LEAF}" by (auto simp: seats_def sel HOST_LEAF_def less_2_cases_iff nth_Cons' split: if_splits)
  ultimately show ?thesis using that run by blast
qed

section \<open>Runs\<close>

text \<open>
  The host \<open>h\<close> and the members \<open>gs\<close>. A commit reaches every member; \<open>pct\<close> gives the coins of the
  key self-tests. A joiner makes its keys in one of the two ways the code has.
\<close>

definition deliver :: "prims \<Rightarrow> (nat \<Rightarrow> node \<Rightarrow> bytes) \<Rightarrow> commit \<Rightarrow> treekem_group \<Rightarrow> treekem_group" where
  "deliver P pct cm g = snd (apply_commit P (pct (tg_me g)) cm g)"

definition accepts :: "prims \<Rightarrow> (nat \<Rightarrow> node \<Rightarrow> bytes) \<Rightarrow> commit \<Rightarrow> treekem_group list \<Rightarrow> bool" where
  "accepts P pct cm gs \<longleftrightarrow> list_all (\<lambda>g. fst (apply_commit P (pct (tg_me g)) cm g) = Inr ()) gs"

definition fresh_leaf :: "prims \<Rightarrow> tk_coins \<Rightarrow> kem_profile \<Rightarrow> leaf_key_pair \<Rightarrow> bool" where
  "fresh_leaf P c profile lk \<longleftrightarrow> length (tc_secret c) = 32 \<and>
     (lk = leaf_generate_with P c profile \<or> (\<exists>root gid. lk = leaf_generate_derived P c profile root gid))"

inductive tk_run :: "prims \<Rightarrow> treekem_group \<Rightarrow> treekem_group list \<Rightarrow> bool" for P where
  created: "length (tc_secret c) = 32 \<Longrightarrow> create_with_sig P c profile (from_secret_bytes P seed) = Inr h \<Longrightarrow> tk_run P h []"
| added: "tk_run P h gs \<Longrightarrow> fresh_leaf P cj (tg_profile h) lk \<Longrightarrow> leaf_key_package P kpct lk = Inr kp \<Longrightarrow>
    length (tc_secret c) = 32 \<Longrightarrow> group_add P c kp h = (Inr (l, cm, wl), h') \<Longrightarrow> join_with_welcome P (pct l) lk wl = Inr g \<Longrightarrow>
    tk_run P h' (g # map (deliver P pct cm) gs)"
| removed: "tk_run P h gs \<Longrightarrow> l < tg_capacity h \<Longrightarrow> l \<noteq> HOST_LEAF \<Longrightarrow> length (tc_secret c) = 32 \<Longrightarrow>
    group_remove P c l h = (Inr cm, h') \<Longrightarrow> tk_run P h' (map (deliver P pct cm) (filter (\<lambda>g. tg_me g \<noteq> l) gs))"
| rekeyed: "tk_run P h gs \<Longrightarrow> length (tc_secret c) = 32 \<Longrightarrow> group_update P c h = (Inr cm, h') \<Longrightarrow>
    tk_run P h' (map (deliver P pct cm) gs)"
| updated: "tk_run P h (xs @ g # ys) \<Longrightarrow> tg_capacity h \<le> MAX_TREE_ITEMS \<Longrightarrow> length (tc_secret cj) = 32 \<Longrightarrow>
    propose_update P cj kpct g = (Inr b, g1) \<Longrightarrow> length (tc_secret c) = 32 \<Longrightarrow> commit_update P c (tg_me g) b h = (Inr cm, h') \<Longrightarrow>
    tk_run P h' (map (deliver P pct cm) (xs @ g1 # ys))"

definition session_ok :: "prims \<Rightarrow> nat \<Rightarrow> treekem_group \<Rightarrow> treekem_group list \<Rightarrow> bool" where
  "session_ok P d h gs \<longleftrightarrow> host_ok P d h \<and> (\<forall>g\<in>set gs. follower P d h g) \<and> distinct (map tg_me gs) \<and>
     seats h = insert HOST_LEAF (set (map tg_me gs))"

text \<open>One lemma per operation: it succeeds, everybody accepts the commit, and the session stays well-formed.\<close>

lemma delivered:
  assumes "\<And>g. g \<in> set gs \<Longrightarrow> \<exists>g'. apply_commit P (pct (tg_me g)) cm g = (Inr (), g') \<and> follower P d h' g' \<and> tg_me g' = tg_me g"
  shows "accepts P pct cm gs" "\<forall>g\<in>set (map (deliver P pct cm) gs). follower P d h' g" "map tg_me (map (deliver P pct cm) gs) = map tg_me gs"
proof -
  have g: "fst (apply_commit P (pct (tg_me g)) cm g) = Inr () \<and> follower P d h' (deliver P pct cm g) \<and> tg_me (deliver P pct cm g) = tg_me g"
    if "g \<in> set gs" for g using assms[OF that] by (auto simp: deliver_def)
  then show "accepts P pct cm gs" "\<forall>g\<in>set (map (deliver P pct cm) gs). follower P d h' g" "map tg_me (map (deliver P pct cm) gs) = map tg_me gs"
    by (auto simp: accepts_def list_all_iff)
qed

lemma fresh_leaf_package:
  assumes "tree_laws P" "fresh_leaf P cj profile lk"
  obtains kp where "leaf_key_package P kpct lk = Inr kp" "joiner P profile lk kp"
proof -
  have "lk_profile lk = profile" "length (lk_secret lk) = 32" "\<exists>seed. lk_sig lk = from_secret_bytes P seed"
    using assms(2) by (auto simp: fresh_leaf_def leaf_generate_with_def leaf_generate_derived_def)
  then show ?thesis using key_package_joiner[OF assms(1)] that by metis
qed

lemma add_session:
  assumes laws: "tree_laws P" and s: "session_ok P d h gs" and lk: "fresh_leaf P cj (tg_profile h) lk" and c: "length (tc_secret c) = 32"
  shows "\<exists>kp l cm wl h' g d'. leaf_key_package P kpct lk = Inr kp \<and> group_add P c kp h = (Inr (l, cm, wl), h') \<and>
    join_with_welcome P (pct l) lk wl = Inr g \<and> accepts P pct cm gs \<and> session_ok P d' h' (g # map (deliver P pct cm) gs) \<and> d' \<le> Suc d"
proof -
  have h: "host_ok P d h" and gs: "\<And>g. g \<in> set gs \<Longrightarrow> follower P d h g" "distinct (map tg_me gs)" "seats h = insert HOST_LEAF (set (map tg_me gs))"
    using s by (auto simp: session_ok_def)
  obtain kp where kp: "leaf_key_package P kpct lk = Inr kp" "joiner P (tg_profile h) lk kp" by (rule fresh_leaf_package[OF laws lk])
  obtain d' l cm h' where a: "group_add P c kp h = (Inr (l, cm, welcome_for h' l cm), h')" "host_ok P d' h'" "seats h' = insert l (seats h)" "d' \<le> Suc d"
    and ne: "\<And>g. follower P d h g \<Longrightarrow> tg_me g \<noteq> l"
    and app: "\<And>pct g. follower P d h g \<Longrightarrow> \<exists>g'. apply_commit P pct cm g = (Inr (), g') \<and> follower P d' h' g' \<and> tg_me g' = tg_me g \<and>
       tg_pending_update g' = tg_pending_update g"
    and join: "\<And>pct. \<exists>g. join_with_welcome P pct lk (welcome_for h' l cm) = Inr g \<and> follower P d' h' g \<and> tg_me g = l \<and> tg_pending_update g = None"
    by (rule add_step[OF laws h kp(2) c]) blast
  obtain g where g: "join_with_welcome P (pct l) lk (welcome_for h' l cm) = Inr g" "follower P d' h' g" "tg_me g = l" using join by blast
  have d: "\<exists>g'. apply_commit P (pct (tg_me x)) cm x = (Inr (), g') \<and> follower P d' h' g' \<and> tg_me g' = tg_me x" if "x \<in> set gs" for x
    using app[OF gs(1)[OF that]] by blast
  note del = delivered[of gs, OF d]
  have "l \<notin> set (map tg_me gs)" using ne gs(1) by auto
  moreover have "map tg_me (g # map (deliver P pct cm) gs) = l # map tg_me gs" using del(3) g(3) by simp
  ultimately have "session_ok P d' h' (g # map (deliver P pct cm) gs)"
    using a(2,3) g(2) gs(2,3) del(2) unfolding session_ok_def by (simp only: list.set distinct.simps) auto
  then show ?thesis using kp(1) a(1,4) g(1) del(1) by blast
qed

lemma session_okI:
  assumes "host_ok P d h'" "\<forall>g\<in>set (map (deliver P pct cm) gs). follower P d h' g" "map tg_me (map (deliver P pct cm) gs) = map tg_me gs"
    and "distinct (map tg_me gs)" "seats h' = insert HOST_LEAF (set (map tg_me gs))"
  shows "session_ok P d h' (map (deliver P pct cm) gs)"
  unfolding session_ok_def assms(3) using assms by blast

lemma remove_session:
  assumes laws: "tree_laws P" and s: "session_ok P d h gs" and l: "l < tg_capacity h" "l \<noteq> HOST_LEAF" and c: "length (tc_secret c) = 32"
  shows "\<exists>cm h'. group_remove P c l h = (Inr cm, h') \<and> accepts P pct cm (filter (\<lambda>g. tg_me g \<noteq> l) gs) \<and>
    session_ok P d h' (map (deliver P pct cm) (filter (\<lambda>g. tg_me g \<noteq> l) gs))"
proof -
  have h: "host_ok P d h" and gs: "\<And>g. g \<in> set gs \<Longrightarrow> follower P d h g" "distinct (map tg_me gs)" "seats h = insert HOST_LEAF (set (map tg_me gs))"
    using s by (auto simp: session_ok_def)
  let ?gs = "filter (\<lambda>g. tg_me g \<noteq> l) gs"
  have "l < 2 ^ d" using l(1) h by (simp add: host_ok_def member_def tree_ok_def)
  then obtain cm h' where r: "group_remove P c l h = (Inr cm, h')" "delivers P d h (PRemove l) cm h'"
    using remove_step[OF laws h _ l(2) c] by metis
  have kept: "kept_by P d h l cm h'" using delivers_kept[OF r(2)] by (simp add: proposal_leaf_def)
  have d: "\<exists>g'. apply_commit P (pct (tg_me x)) cm x = (Inr (), g') \<and> follower P d h' g' \<and> tg_me g' = tg_me x" if "x \<in> set ?gs" for x
    using kept that gs(1) unfolding kept_by_def set_filter mem_Collect_eq by blast
  note del = delivered[of ?gs, OF d]
  have dist: "distinct (map tg_me ?gs)" using gs(2) by (simp add: distinct_map_filter)
  have seats: "seats h' = insert HOST_LEAF (set (map tg_me ?gs))"
    using r(2) gs(3) l(2) by (auto simp: delivers_def proposed_def proposal_leaf_def)
  have ok: "host_ok P d h'" using r(2) by (simp add: delivers_def)
  show ?thesis using r(1) del(1) session_okI[OF ok del(2,3) dist seats] by blast
qed

lemma rekey_session:
  assumes laws: "tree_laws P" and s: "session_ok P d h gs" and c: "length (tc_secret c) = 32"
  shows "\<exists>cm h'. group_update P c h = (Inr cm, h') \<and> accepts P pct cm gs \<and> session_ok P d h' (map (deliver P pct cm) gs)"
proof -
  have h: "host_ok P d h" and gs: "\<And>g. g \<in> set gs \<Longrightarrow> follower P d h g" "distinct (map tg_me gs)" "seats h = insert HOST_LEAF (set (map tg_me gs))"
    using s by (auto simp: session_ok_def)
  obtain cm h' where r: "group_update P c h = (Inr cm, h')" "host_ok P d h'" "seats h' = seats h"
    and app: "\<And>pct g. follower P d h g \<Longrightarrow> \<exists>g'. apply_commit P pct cm g = (Inr (), g') \<and> follower P d h' g' \<and> tg_me g' = tg_me g \<and>
       tg_pending_update g' = tg_pending_update g"
    by (rule update_step[OF laws h c]) blast
  have d: "\<exists>g'. apply_commit P (pct (tg_me x)) cm x = (Inr (), g') \<and> follower P d h' g' \<and> tg_me g' = tg_me x" if "x \<in> set gs" for x
    using app[OF gs(1)[OF that]] by blast
  note del = delivered[of gs, OF d]
  show ?thesis using r(1) del(1) session_okI[OF r(2) del(2,3) gs(2) r(3)[unfolded gs(3)]] by blast
qed

lemma depth_bound: "host_ok P d h \<Longrightarrow> tg_capacity h \<le> MAX_TREE_ITEMS \<Longrightarrow> d \<le> 20"
  using power_increasing_iff[of "2 :: nat" d 20] by (simp add: host_ok_def member_def tree_ok_def MAX_TREE_ITEMS_def)

lemma update_session:
  assumes laws: "tree_laws P" and s: "session_ok P d h (xs @ g # ys)" and cap: "tg_capacity h \<le> MAX_TREE_ITEMS"
    and cj: "length (tc_secret cj) = 32" and c: "length (tc_secret c) = 32"
  shows "\<exists>b g1 cm h'. propose_update P cj kpct g = (Inr b, g1) \<and> commit_update P c (tg_me g) b h = (Inr cm, h') \<and>
    accepts P pct cm (xs @ g1 # ys) \<and> session_ok P d h' (map (deliver P pct cm) (xs @ g1 # ys))"
proof -
  have h: "host_ok P d h" and gs: "\<And>x. x \<in> set (xs @ g # ys) \<Longrightarrow> follower P d h x" "distinct (map tg_me (xs @ g # ys))"
      "seats h = insert HOST_LEAF (set (map tg_me (xs @ g # ys)))"
    using s by (auto simp: session_ok_def)
  have "d \<le> 20" using depth_bound[OF h cap] .
  have g: "follower P d h g" using gs(1) by simp
  obtain b g1 p cm h' where u: "propose_update P cj kpct g = (Inr b, g1)" "commit_update P c (tg_me g) b h = (Inr cm, h')"
    "delivers P d h p cm h'" "proposal_leaf p = tg_me g" "applies P d h p g1" "tg_me g1 = tg_me g" "proposed p \<noteq> None"
    by (rule commit_update_step[OF laws h \<open>d \<le> 20\<close> g cj c])
  have kept: "kept_by P d h (tg_me g) cm h'" using delivers_kept[OF u(3)] u(4) by simp
  have d: "\<exists>g'. apply_commit P (pct (tg_me x)) cm x = (Inr (), g') \<and> follower P d h' g' \<and> tg_me g' = tg_me x" if "x \<in> set (xs @ g1 # ys)" for x
  proof (cases "x = g1")
    case True
    then show ?thesis using u(3,5,6) g unfolding delivers_def follower_def by metis
  next
    case False
    then have "x \<in> set xs \<union> set ys" using that by auto
    then show ?thesis using kept gs(1)[of x] gs(2) unfolding kept_by_def by (fastforce simp: image_iff)
  qed
  note del = delivered[of "xs @ g1 # ys", OF d]
  have leaves: "map tg_me (xs @ g1 # ys) = map tg_me (xs @ g # ys)" using u(6) by simp
  have seats: "seats h' = insert HOST_LEAF (set (map tg_me (xs @ g1 # ys)))" unfolding leaves
    using u(3,4,7) gs(3) by (auto simp: delivers_def)
  have ok: "host_ok P d h'" using u(3) by (simp add: delivers_def)
  show ?thesis using u(1,2) del(1) session_okI[OF ok del(2,3) _ seats] gs(2) unfolding leaves by blast
qed

lemma run_session:
  assumes laws: "tree_laws P" and "tk_run P h gs"
  shows "\<exists>d. session_ok P d h gs"
  using assms(2)
proof (induction rule: tk_run.induct)
  case (created c profile seed h)
  show ?case using create_run[OF laws created(1), of profile seed] created(2) by (auto simp: session_ok_def)
next
  case (added h gs cj lk kpct kp c l cm wl h' pct g)
  then show ?case using add_session[OF laws _ added(2,4), where kpct = kpct and pct = pct] by fastforce
next
  case (removed h gs l c cm h' pct)
  then show ?case using remove_session[OF laws _ removed(2,3,4), where pct = pct] by fastforce
next
  case (rekeyed h gs c cm h' pct)
  then show ?case using rekey_session[OF laws _ rekeyed(2), where pct = pct] by fastforce
next
  case (updated h xs g ys cj kpct b g1 c cm h' pct)
  then show ?case using update_session[OF laws _ updated(2,3,5), where pct = pct and kpct = kpct] by fastforce
qed

section \<open>The removed member\<close>

text \<open>A commit of one proposal passes the checks of everybody in step and gets to the update path.\<close>

lemma commit_reaches_path:
  assumes laws: "tree_laws P" and h: "host_ok P d h" and p: "proposal_ok P h p" and c: "length (tc_secret c) = 32"
    and run: "rekey_path P c [p] None (snd (apply_proposal P p h)) = (Inr cm, h')"
    and g: "same_tree h g" "tg_epoch g = tg_epoch h"
  shows "apply_commit P pct cm g = (case process_update_path P pct cm (snd (apply_proposal P p g)) of (Inl e, g) \<Rightarrow> (Inl e, g)
      | (Inr secret, g) \<Rightarrow> (Inr (), reset_epoch P (g\<lparr>tg_epoch := tg_epoch g + 1, tg_epoch_secret := secret\<rparr>)))"
proof -
  let ?h = "snd (apply_proposal P p h)"
  have cap: "tg_capacity h = 2 ^ d" "tg_capacity g = 2 ^ d" using h g(1) by (simp_all add: host_ok_def member_def tree_ok_def same_tree_def)
  have h1: "host_ok P d ?h" using host_keys_proposal[OF h p] .
  note facts = rekey_facts[OF laws h1 c run]
  have ok: "proposal_ok P g p" using p proposal_ok_same[OF g(1)] by simp
  have ap: "apply_proposals P [p] (grow_to (2 ^ d) g) = (Inr (), snd (apply_proposal P p g))"
    using apply_proposal_public(1)[OF cap(2) ok] cap(2) by (cases "apply_proposal P p g") (simp add: bind_op_def grow_to_same)
  have key: "map_of (tg_leaf_sig_keys g) HOST_LEAF = map_of (tg_leaf_sig_keys ?h) HOST_LEAF"
    using g(1) p by (simp add: apply_proposal_public(3)[OF cap(1) p] proposal_ok_def same_tree_def)
  have host: "signs P ?h" "tg_me ?h = HOST_LEAF" using h1 by (auto simp: host_ok_def member_def)
  have "authenticate_commit P g cm = Inr ()"
    using commit_authentic[OF laws facts(8) host _ key] facts(2) g(2) apply_proposal_public(7)[OF cap(1) p] by (simp add: host(2))
  then show ?thesis using ap unfolding apply_commit_def facts(5,7) by (simp add: bind_op_def rotate_sig_def facts(6))
qed

text \<open>The host's side of a removal.\<close>

lemma remove_commit:
  assumes h: "host_ok P d h" and l: "l < 2 ^ d" "l \<noteq> HOST_LEAF" and run: "group_remove P c l h = (Inr cm, h')"
  shows "proposal_ok P h (PRemove l)" "rekey_path P c [PRemove l] None (snd (apply_proposal P (PRemove l) h)) = (Inr cm, h')"
proof -
  have cap: "tg_capacity h = 2 ^ d" using h by (simp add: host_ok_def member_def tree_ok_def)
  show p: "proposal_ok P h (PRemove l)" using h l by (simp add: proposal_ok_def proposal_leaf_def host_ok_def member_def tree_ok_def)
  show "rekey_path P c [PRemove l] None (snd (apply_proposal P (PRemove l) h)) = (Inr cm, h')"
    using run apply_proposal_public(1)[OF cap p] by (cases "apply_proposal P (PRemove l) h") (simp add: group_remove_def bind_op_def)
qed

text \<open>Its secrets are gone before the search for a meeting point starts.\<close>

lemma meet_nothing: "(\<And>n. map_of secrets n = None) \<Longrightarrow> meet pub secrets below ns = None"
  by (induction ns arbitrary: below) (simp_all add: first_held_None)

lemma removed_locked_out:
  assumes laws: "tree_laws P" and h: "host_ok P d h" and l: "l < 2 ^ d" "l \<noteq> HOST_LEAF" and c: "length (tc_secret c) = 32"
    and run: "group_remove P c l h = (Inr cm, h')" and g: "follower P d h g" "tg_me g = l"
  shows "\<exists>g'. apply_commit P pct cm g = (tk_malformed ''no common ancestor with committer'', g') \<and>
    (\<forall>n. map_of (tg_secrets g') n = None) \<and> tg_epoch g' = tg_epoch g \<and> tg_epoch_secret g' = tg_epoch_secret g"
proof -
  note r = remove_commit[OF h l run]
  have cap: "tg_capacity g = 2 ^ d" and same: "same_tree h g" "tg_epoch g = tg_epoch h"
    using g(1) by (simp_all add: follower_def in_step_def member_def tree_ok_def)
  have ok: "proposal_ok P g (PRemove l)" using r(1) proposal_ok_same[OF same(1)] by simp
  define g1 where "g1 = snd (apply_proposal P (PRemove l) g)"
  have none: "map_of (tg_secrets g1) n = None" for n
  proof (rule ccontr)
    assume "map_of (tg_secrets g1) n \<noteq> None"
    then have "map_of (tg_secrets g) n \<noteq> None" "\<not> over d l n" "n \<noteq> nd_leaf l"
      using ok by (auto simp: g1_def apply_remove[OF cap] blanked_update split: if_splits)
    then obtain k where "k \<le> d" "n = anc l k" using holds_path[of P d g n] g by (auto simp: follower_def member_def)
    then show False using \<open>\<not> over d l n\<close> \<open>n \<noteq> nd_leaf l\<close> by (cases k) (auto simp: over_anc anc_leaf)
  qed
  have "process_update_path P pct cm g1 = (tk_malformed ''no common ancestor with committer'', adopt_updates (cm_pub_updates cm) g1)"
    unfolding process_update_path_def Let_def
    by (simp add: meet_nothing[of "tg_secrets g1"] none adopt_updates_def split: list.split)
  then have "apply_commit P pct cm g = (tk_malformed ''no common ancestor with committer'', adopt_updates (cm_pub_updates cm) g1)"
    using commit_reaches_path[OF laws h r(1) c r(2) same] by (simp add: g1_def)
  then show ?thesis
    using none apply_proposal_public(7,8)[OF cap ok] by (simp add: adopt_updates_def g1_def)
qed

lemma seal_to_targets: "seal_to P c pub n s ts = Inr cts \<Longrightarrow> (m, t, b) \<in> set cts \<Longrightarrow> t \<in> set ts"
  by (induction ts arbitrary: cts) (auto simp: result_simps split: option.splits)

lemma seal_path_targets:
  assumes "seal_path P c pub below ns = Inr cts" "(n, t, b) \<in> set cts"
  shows "\<exists>i<length ns. t \<in> set (resolution pub (nd_sibling ((below # map fst ns) ! i)))"
  using assms
proof (induction ns arbitrary: below cts)
  case (Cons x ns)
  obtain m s where x: "x = (m, s)" by fastforce
  obtain cs rest where r: "seal_to P c pub m s (resolution pub (nd_sibling below)) = Inr cs" "seal_path P c pub m ns = Inr rest" "cts = cs @ rest"
    using Cons.prems(1) by (auto simp: x result_simps)
  show ?case
  proof (cases "(n, t, b) \<in> set cs")
    case True
    then show ?thesis using seal_to_targets[OF r(1)] by (intro exI[of _ 0]) auto
  next
    case False
    then obtain i where "i < length ns" "t \<in> set (resolution pub (nd_sibling ((m # map fst ns) ! i)))"
      using Cons.IH[OF r(2)] Cons.prems(2) r(3) by auto
    then show ?thesis by (intro exI[of _ "Suc i"]) (simp add: x)
  qed
qed simp

lemma removed_not_addressed:
  assumes laws: "tree_laws P" and h: "host_ok P d h" and l: "l < 2 ^ d" "l \<noteq> HOST_LEAF" and c: "length (tc_secret c) = 32"
    and run: "group_remove P c l h = (Inr cm, h')" and g: "follower P d h g" "tg_me g = l" and ct: "(n, t, b) \<in> set (cm_ciphertexts cm)"
  shows "map_of (tg_secrets g) t = None"
proof (rule ccontr)
  assume "map_of (tg_secrets g) t \<noteq> None"
  then obtain k where k: "k \<le> d" "t = anc l k" using holds_path[of P d g t] g by (auto simp: follower_def member_def)
  note p = remove_commit(1)[OF h l run] and rk = remove_commit(2)[OF h l run]
  have cap: "tg_capacity h = 2 ^ d" using h by (simp add: host_ok_def member_def tree_ok_def)
  let ?h = "snd (apply_proposal P (PRemove l) h)"
  note facts = rekey_facts[OF laws host_keys_proposal[OF h p] c rk]
  let ?keys = "path_keys P d HOST_LEAF (tc_secret c)"
  have path: "map fst (tl ?keys) = map (anc HOST_LEAF) [1..<Suc d]"
    by (simp add: path_keys_def upt_conv_Cons del: upt_Suc)
  have "length (tl ?keys) = d" using arg_cong[OF path, of length] by (simp del: upt_Suc)
  moreover obtain i where i: "i < length (tl ?keys)" "t \<in> set (resolution (tg_public h') (nd_sibling ((anc HOST_LEAF 0 # map fst (tl ?keys)) ! i)))"
    using seal_path_targets[OF facts(2)[unfolded update_path_def, THEN conjunct2, THEN conjunct2] ct] by blast
  moreover have "(anc HOST_LEAF 0 # map (anc HOST_LEAF) [1..<Suc d]) ! i = anc HOST_LEAF i" if "i < d"
    using that by (cases i) (simp_all del: upt_Suc)
  ultimately have res: "t \<in> set (resolution (tg_public h') (nd_sibling (anc HOST_LEAF i)))" unfolding path by simp
  have off: "HOST_LEAF div 2 ^ k \<noteq> l div 2 ^ k"
  proof
    assume "HOST_LEAF div 2 ^ k = l div 2 ^ k"
    then have "covers t HOST_LEAF" by (simp add: k(2))
    then show False using sibling_covers[OF resolution_within[OF res]] by blast
  qed
  then have "map_of ?keys t = None" by (intro path_keys_none) (auto simp: k(2))
  then have "map_of (tg_public h') t = map_of (tg_public ?h) t" by (simp add: facts(3) rekeyed_def map_add_def)
  also have "\<dots> = None" using apply_proposal_public(2)[OF cap p, of t] k
    by (cases k) (auto simp: over_anc anc_leaf proposal_leaf_def proposed_def)
  finally show False using resolution_nonblank[OF res] by simp
qed

section \<open>A member that proposes twice\<close>

lemma meet_subset: "meet pub secrets below ns = Some (t, s, n, ups) \<Longrightarrow> set (n # ups) \<subseteq> set ns"
  by (induction ns arbitrary: below) (auto split: option.splits)

lemma process_update_path_keeps:
  "tg_my_sig (snd (process_update_path P pct cm g)) = tg_my_sig g"
  "m \<notin> set (tl (cm_path cm)) \<Longrightarrow> map_of (tg_secrets (snd (process_update_path P pct cm g))) m = map_of (tg_secrets g) m"
proof -
  let ?g = "adopt_updates (cm_pub_updates cm) g"
  show "tg_my_sig (snd (process_update_path P pct cm g)) = tg_my_sig g"
    by (simp add: process_update_path_def Let_def adopt_updates_def split: option.split sum.split)
  have sec: "tg_secrets ?g = tg_secrets g" by (simp add: adopt_updates_def)
  assume m: "m \<notin> set (tl (cm_path cm))"
  have up: "map_of (foldl (\<lambda>m (n, s). AList.update n s m) (tg_secrets ?g) (zip (n # ups) xs)) m = map_of (tg_secrets g) m"
    if "meet (tg_public ?g) (tg_secrets ?g) b (tl (cm_path cm)) = Some (t, s, n, ups)" for b t s n ups xs
  proof -
    have "m \<notin> fst ` set (rev (zip (n # ups) xs))" using meet_subset[OF that] m by (auto dest!: set_zip_leftD simp del: zip_Cons_Cons)
    then have "map_of (rev (zip (n # ups) xs)) m = None" by (simp add: map_of_eq_None_iff del: zip_Cons_Cons)
    then show ?thesis unfolding map_of_updates map_add_def by (simp add: adopt_updates_def del: zip_Cons_Cons)
  qed
  show "map_of (tg_secrets (snd (process_update_path P pct cm g))) m = map_of (tg_secrets g) m"
  proof (cases "case cm_path cm of [] \<Rightarrow> None | n # ns \<Rightarrow> meet (tg_public ?g) (tg_secrets ?g) n ns")
    case None
    then show ?thesis by (simp add: process_update_path_def Let_def sec)
  next
    case (Some q)
    obtain t s n ups where q: "q = (t, s, n, ups)" by (cases q)
    obtain b where "meet (tg_public ?g) (tg_secrets ?g) b (tl (cm_path cm)) = Some (t, s, n, ups)"
      using Some q by (cases "cm_path cm") auto
    from up[OF this] show ?thesis using Some[unfolded q]
      by (simp add: process_update_path_def Let_def sec del: zip_Cons_Cons secret_chain.simps split: sum.split)
  qed
qed

lemma second_proposal_installed:
  assumes laws: "tree_laws P" and h: "host_ok P d h" "d \<le> 20" and g: "follower P d h g" and c: "length (tc_secret c) = 32"
    and p1: "propose_update P c1 pct1 g = (Inr b1, g1)" and p2: "propose_update P c2 pct2 g1 = (Inr b2, g2)"
    and cm: "commit_update P c (tg_me g) b1 h = (Inr cm, h')"
  shows "tg_my_sig (snd (apply_commit P pct cm g2)) = Some (from_secret_bytes P (tc_seed c2))"
    "map_of (tg_secrets (snd (apply_commit P pct cm g2))) (nd_leaf (tg_me g)) = Some (tc_secret c2)"
    "map_of (tg_leaf_sig_keys h') (tg_me g) = Some (id_public (from_secret_bytes P (tc_seed c1)))"
    "map_of (tg_public h') (nd_leaf (tg_me g)) = Some (pub_of P (tg_profile g) (tc_secret c1))"
proof -
  note f = follower_facts[OF g]
  define lk where "lk = leaf_generate_with P c1 (tg_profile g)"
  obtain current where cur: "tg_my_sig g = Some current" "map_of (tg_leaf_sig_keys g) (tg_me g) = Some (id_public current)"
    "\<exists>seed. current = from_secret_bytes P seed"
    "propose_update P c1 pct1 g = (Inr (into_vec (put_proposal writer_new (update_of P current (tg_me g) lk))), g\<lparr>tg_pending_update := Some lk\<rparr>)"
    "decode_update (tg_profile g) (tg_me g) (into_vec (put_proposal writer_new (update_of P current (tg_me g) lk))) =
       Inr (update_of P current (tg_me g) lk)"
    by (rule propose_run[OF laws f(1) h(2) lk_def, where pct = pct1])
  let ?p = "update_of P current (tg_me g) lk"
  have b1: "b1 = into_vec (put_proposal writer_new ?p)" "g1 = g\<lparr>tg_pending_update := Some lk\<rparr>" using p1 cur(4) by simp_all
  have g2: "g2 = g\<lparr>tg_pending_update := Some (leaf_generate_with P c2 (tg_profile g))\<rparr>"
    using p2 unfolding b1(2) by (auto simp: propose_update_def Let_def split: sum.splits option.splits)
  have ok: "proposal_ok P h ?p" using update_proposal_ok[OF laws g lk_def] cur(2,3) by auto
  have leaf: "proposal_leaf ?p = tg_me g" by (simp add: update_of_def Let_def proposal_leaf_def)
  have pr: "proposed ?p = Some (pub_of P (tg_profile g) (tc_secret c1), id_public (from_secret_bytes P (tc_seed c1)))"
    by (simp add: update_of_def Let_def proposed_def lk_def leaf_generate_with_def)
  have cap: "tg_capacity h = 2 ^ d" "tg_capacity g2 = 2 ^ d" using h(1) f(1) g2 by (simp_all add: host_ok_def member_def tree_ok_def)
  let ?h = "snd (apply_proposal P ?p h)"
  have h1: "host_ok P d ?h" using host_keys_proposal[OF h(1) ok] .
  have rk: "rekey_path P c [?p] None ?h = (Inr cm, h')"
    using cm cur(5) apply_proposal_public(1)[OF cap(1) ok] unfolding b1(1)
    by (cases "apply_proposal P ?p h") (simp add: commit_update_def f(6) bind_op_def)
  note facts = rekey_facts[OF laws h1 c rk]
  show "map_of (tg_leaf_sig_keys h') (tg_me g) = Some (id_public (from_secret_bytes P (tc_seed c1)))"
    by (simp add: facts(9) apply_proposal_public(3)[OF cap(1) ok] leaf pr)
  have "\<forall>k\<le>d. nd_leaf (tg_me g) \<noteq> anc HOST_LEAF k" using f(4) by (auto simp: anc_leaf[symmetric])
  then have off: "map_of (path_keys P d HOST_LEAF s0) (nd_leaf (tg_me g)) = None" for s0 by (rule path_keys_none)
  show "map_of (tg_public h') (nd_leaf (tg_me g)) = Some (pub_of P (tg_profile g) (tc_secret c1))"
    by (simp add: facts(3) rekeyed_def map_add_def off apply_proposal_public(2)[OF cap(1) ok] leaf pr)
  have same: "same_tree h g2" "tg_epoch g2 = tg_epoch h" using g by (simp_all add: g2 follower_def in_step_def)
  have ok2: "proposal_ok P g2 ?p" using ok proposal_ok_same[OF same(1)] by simp
  define g3 where "g3 = snd (apply_proposal P ?p g2)"
  have g3: "tg_my_sig g3 = Some (from_secret_bytes P (tc_seed c2))" "map_of (tg_secrets g3) (nd_leaf (tg_me g)) = Some (tc_secret c2)"
    using apply_update[OF cap(2) ok2[unfolded update_of_def Let_def]]
    by (simp_all add: g3_def update_of_def Let_def g2 staged_def leaf_generate_with_def blanked_update from_secret_bytes_def)
  have path: "nd_leaf (tg_me g) \<notin> set (tl (cm_path cm))"
    using facts(2) by (auto simp: update_path_def upt_conv_Cons anc_leaf[symmetric] simp del: upt_Suc)
  define q where "q = process_update_path P pct cm g3"
  have "apply_commit P pct cm g2 = (case q of (Inl e, g) \<Rightarrow> (Inl e, g)
      | (Inr secret, g) \<Rightarrow> (Inr (), reset_epoch P (g\<lparr>tg_epoch := tg_epoch g + 1, tg_epoch_secret := secret\<rparr>)))"
    using commit_reaches_path[OF laws h(1) ok c rk same] by (simp add: q_def g3_def)
  then have "tg_my_sig (snd (apply_commit P pct cm g2)) = tg_my_sig (snd q)" "tg_secrets (snd (apply_commit P pct cm g2)) = tg_secrets (snd q)"
    by (simp_all add: reset_epoch_def split: prod.split sum.split)
  then show "tg_my_sig (snd (apply_commit P pct cm g2)) = Some (from_secret_bytes P (tc_seed c2))"
    "map_of (tg_secrets (snd (apply_commit P pct cm g2))) (nd_leaf (tg_me g)) = Some (tc_secret c2)"
    using g3 process_update_path_keeps(1)[of P pct cm g3] process_update_path_keeps(2)[OF path, of P pct g3] by (simp_all add: q_def)
qed

section \<open>Properties\<close>

text \<open>A run with one member, for the witnesses.\<close>

definition demo_tk_coins :: tk_coins where
  "demo_tk_coins = \<lparr>tc_secret = replicate 32 7, tc_pct = (\<lambda>_. []), tc_enc = (\<lambda>_ _. []), tc_seed = [3]\<rparr>"

lemma demo_tk_sized [simp]: "length (tc_secret demo_tk_coins) = 32"
  by (simp add: demo_tk_coins_def)

lemma demo_run: "\<exists>h g. tk_run demo_prims h [g] \<and> tg_capacity h \<le> MAX_TREE_ITEMS"
proof -
  obtain h where h: "create_with_sig demo_prims demo_tk_coins \<lparr>posture = Hybrid, pad_pure = False\<rparr> (from_secret_bytes demo_prims []) = Inr h"
      "host_ok demo_prims 1 h" "seats h = {HOST_LEAF}"
    by (rule create_run[OF demo_tree_laws demo_tk_sized])
  have run: "tk_run demo_prims h []" by (rule created[OF demo_tk_sized h(1)])
  have s: "session_ok demo_prims 1 h []" using h by (simp add: session_ok_def)
  have lk: "fresh_leaf demo_prims demo_tk_coins p (leaf_generate_with demo_prims demo_tk_coins p)" for p by (simp add: fresh_leaf_def)
  obtain kp l cm wl h' g d' where a: "leaf_key_package demo_prims [] (leaf_generate_with demo_prims demo_tk_coins (tg_profile h)) = Inr kp"
      "group_add demo_prims demo_tk_coins kp h = (Inr (l, cm, wl), h')"
      "join_with_welcome demo_prims (\<lambda>_. []) (leaf_generate_with demo_prims demo_tk_coins (tg_profile h)) wl = Inr g"
      "session_ok demo_prims d' h' [g]" "d' \<le> Suc 1"
    using add_session[OF demo_tree_laws s lk demo_tk_sized, of "[]" "\<lambda>_ _. []"] by auto
  have "tg_capacity h' = 2 ^ d'" using a(4) by (simp add: session_ok_def host_ok_def member_def tree_ok_def)
  also have "\<dots> \<le> 2 ^ 20" using a(5) by (intro power_increasing) simp_all
  finally show ?thesis using added[OF run lk a(1) demo_tk_sized a(2), of "\<lambda>_ _. []" g] a(3) by (auto simp: MAX_TREE_ITEMS_def)
qed

text \<open>
  C2. Agreement. In every run of a group, whoever is added, removed or re-keyed in whatever order,
  all members have the epoch, the epoch secret, the tree and the signing keys of the host, sit on
  distinct leaves other than the host's, and the occupied leaves are exactly theirs and the host's.
\<close>

theorem members_agree:
  assumes "tree_laws P" "tk_run P h gs"
  shows "(\<forall>g\<in>set gs. tg_epoch g = tg_epoch h \<and> tg_epoch_secret g = tg_epoch_secret h \<and>
      tg_capacity g = tg_capacity h \<and> tg_occupied g = tg_occupied h \<and>
      map_of (tg_public g) = map_of (tg_public h) \<and> map_of (tg_leaf_sig_keys g) = map_of (tg_leaf_sig_keys h)) \<and>
    distinct (map tg_me (h # gs)) \<and>
    {l. l < length (tg_occupied h) \<and> tg_occupied h ! l} = tg_me ` set (h # gs)"
proof -
  obtain d where d: "session_ok P d h gs" using run_session[OF assms] by blast
  then have "tg_me h = HOST_LEAF" "seats h = insert HOST_LEAF (set (map tg_me gs))" "distinct (map tg_me gs)"
    by (simp_all add: session_ok_def host_ok_def)
  moreover have "tg_epoch g = tg_epoch h \<and> tg_epoch_secret g = tg_epoch_secret h \<and>
      tg_capacity g = tg_capacity h \<and> tg_occupied g = tg_occupied h \<and>
      map_of (tg_public g) = map_of (tg_public h) \<and> map_of (tg_leaf_sig_keys g) = map_of (tg_leaf_sig_keys h) \<and> tg_me g \<noteq> HOST_LEAF"
    if "g \<in> set gs" for g
    using d that by (auto simp: session_ok_def follower_def in_step_def same_tree_def)
  moreover from this have "HOST_LEAF \<notin> tg_me ` set gs" by (metis imageE)
  ultimately show ?thesis unfolding seats_def by auto
qed

theorem members_agree_witness: "\<exists>h g. tk_run demo_prims h [g] \<and> tg_epoch_secret g = tg_epoch_secret h"
proof -
  obtain h g where r: "tk_run demo_prims h [g]" using demo_run by blast
  show ?thesis using members_agree[OF demo_tree_laws r] r by auto
qed



text \<open>
  C6. Removal shuts out. None of the ciphertexts of the commit that removes a member is for a node
  whose secret the member holds, so it learns nothing of the new path even when it keeps all
  its secrets; when it applies the commit as the code does, it fails, forgets every path
  secret, and stays at its old epoch and epoch secret.
\<close>

theorem removed_shut_out:
  assumes "tree_laws P" "tk_run P h gs" "g \<in> set gs" "length (tc_secret c) = 32" "group_remove P c (tg_me g) h = (Inr cm, h')"
  shows "(\<forall>(n, t, b)\<in>set (cm_ciphertexts cm). map_of (tg_secrets g) t = None) \<and>
    (\<exists>g'. apply_commit P pct cm g = (tk_malformed ''no common ancestor with committer'', g') \<and>
      (\<forall>n. map_of (tg_secrets g') n = None) \<and> tg_epoch g' = tg_epoch g \<and> tg_epoch_secret g' = tg_epoch_secret g)"
proof -
  obtain d where d: "session_ok P d h gs" using run_session[OF assms(1,2)] by blast
  then have h: "host_ok P d h" and g: "follower P d h g" using assms(3) by (auto simp: session_ok_def)
  note l = follower_facts(3,4)[OF g]
  show ?thesis
    using removed_not_addressed[OF assms(1) h l assms(4,5) g refl] removed_locked_out[OF assms(1) h l assms(4,5) g refl] by blast
qed

theorem removed_shut_out_witness:
  "\<exists>h g cm h'. tk_run demo_prims h [g] \<and> group_remove demo_prims demo_tk_coins (tg_me g) h = (Inr cm, h') \<and>
     fst (apply_commit demo_prims (\<lambda>_. []) cm g) = tk_malformed ''no common ancestor with committer''"
proof -
  obtain h g where r: "tk_run demo_prims h [g]" using demo_run by blast
  obtain d where d: "session_ok demo_prims d h [g]" using run_session[OF demo_tree_laws r] by blast
  then have "follower demo_prims d h g" "host_ok demo_prims d h" by (simp_all add: session_ok_def)
  then have "tg_me g < tg_capacity h" "tg_me g \<noteq> HOST_LEAF"
    using follower_facts(3,4) by (auto simp: host_ok_def member_def tree_ok_def)
  then obtain cm h' where rm: "group_remove demo_prims demo_tk_coins (tg_me g) h = (Inr cm, h')"
    using remove_session[OF demo_tree_laws d _ _ demo_tk_sized] by blast
  show ?thesis using removed_shut_out[OF demo_tree_laws r _ demo_tk_sized rm, of "\<lambda>_. []"] r rm by fastforce
qed

text \<open>
  C40. A member that proposes a second update before the first is committed is out of step: the second
  proposal overwrites the staged keys, so the commit of the first binds the first keys to
  its leaf at the host, while the member installs the secret and the signing key of the second.
\<close>

theorem double_proposal_desyncs:
  assumes "tree_laws P" "tk_run P h gs" "tg_capacity h \<le> MAX_TREE_ITEMS" "g \<in> set gs" "length (tc_secret c) = 32"
    and "propose_update P c1 pct1 g = (Inr b1, g1)" "propose_update P c2 pct2 g1 = (Inr b2, g2)"
    and "commit_update P c (tg_me g) b1 h = (Inr cm, h')"
  shows "let g' = snd (apply_commit P pct cm g2) in
    map_of (tg_leaf_sig_keys h') (tg_me g) = Some (id_public (from_secret_bytes P (tc_seed c1))) \<and>
    tg_my_sig g' = Some (from_secret_bytes P (tc_seed c2)) \<and>
    map_of (tg_public h') (nd_leaf (tg_me g)) = Some (pub_of P (tg_profile g) (tc_secret c1)) \<and>
    map_of (tg_secrets g') (nd_leaf (tg_me g)) = Some (tc_secret c2)"
proof -
  obtain d where d: "session_ok P d h gs" using run_session[OF assms(1,2)] by blast
  then have h: "host_ok P d h" and g: "follower P d h g" using assms(4) by (auto simp: session_ok_def)
  have "d \<le> 20" using depth_bound[OF h assms(3)] .
  then show ?thesis unfolding Let_def using second_proposal_installed[OF assms(1) h _ g assms(5-8)] by blast
qed

theorem double_proposal_desyncs_witness:
  "\<exists>h g g1 g2 b1 b2 cm h'. tk_run demo_prims h [g] \<and>
     propose_update demo_prims demo_tk_coins [] g = (Inr b1, g1) \<and>
     propose_update demo_prims (demo_tk_coins\<lparr>tc_secret := replicate 32 9, tc_seed := [4]\<rparr>) [] g1 = (Inr b2, g2) \<and>
     commit_update demo_prims demo_tk_coins (tg_me g) b1 h = (Inr cm, h') \<and>
     map_of (tg_leaf_sig_keys h') (tg_me g) = Some (id_public (from_secret_bytes demo_prims [3])) \<and>
     tg_my_sig (snd (apply_commit demo_prims (\<lambda>_. []) cm g2)) = Some (from_secret_bytes demo_prims [4])"
proof -
  let ?c2 = "demo_tk_coins\<lparr>tc_secret := replicate 32 9, tc_seed := [4]\<rparr>"
  obtain h g where r: "tk_run demo_prims h [g]" "tg_capacity h \<le> MAX_TREE_ITEMS" using demo_run by blast
  obtain d where d: "session_ok demo_prims d h [g]" using run_session[OF demo_tree_laws r(1)] by blast
  then have s: "session_ok demo_prims d h ([] @ g # [])" and h: "host_ok demo_prims d h" and g: "follower demo_prims d h g" by (simp_all add: session_ok_def)
  obtain b1 g1 cm h' where p: "propose_update demo_prims demo_tk_coins [] g = (Inr b1, g1)"
      "commit_update demo_prims demo_tk_coins (tg_me g) b1 h = (Inr cm, h')"
    using update_session[OF demo_tree_laws s r(2) demo_tk_sized demo_tk_sized, of "[]" "\<lambda>_ _. []"] by blast
  have g1: "g1 = g\<lparr>tg_pending_update := tg_pending_update g1\<rparr>"
    using p(1) by (auto simp: propose_update_def Let_def split: sum.splits option.splits)
  have "follower demo_prims d h g1" using g by (subst g1) simp
  then have m: "member demo_prims d g1" by (simp add: follower_def)
  obtain b2 g2 where p2: "propose_update demo_prims ?c2 [] g1 = (Inr b2, g2)"
    by (rule propose_run[OF demo_tree_laws m depth_bound[OF h r(2)] refl, where c = ?c2 and pct = "[]"]) blast
  have "g \<in> set [g]" by simp
  from double_proposal_desyncs[OF demo_tree_laws r this demo_tk_sized p(1) p2 p(2), of "\<lambda>_. []"]
  have "map_of (tg_leaf_sig_keys h') (tg_me g) = Some (id_public (from_secret_bytes demo_prims [3])) \<and>
     tg_my_sig (snd (apply_commit demo_prims (\<lambda>_. []) cm g2)) = Some (from_secret_bytes demo_prims [4])"
    by (simp add: Let_def demo_tk_coins_def)
  then show ?thesis using r(1) p p2 by blast
qed

end
