(* ===== verification/TreeMessages.thy ===== *)
theory TreeMessages
  imports TreeSession SenderKeys
begin

text \<open>
  The signed messages of a TreeKEM group: within an epoch every member derives the sending chain
  of every other from the shared epoch secret, so what one member seals the others open, in
  any order and with any loss.
\<close>

section \<open>The receiving chain\<close>

definition rc_sync :: "prims \<Rightarrow> bytes \<Rightarrow> u32 set \<Rightarrow> recv_chain \<Rightarrow> bool" where
  "rc_sync P c D rc \<longleftrightarrow>
     rc_chain rc = chain_at P c (unat (rc_n rc)) \<and> (\<forall>k\<in>D. k < rc_n rc) \<and>
     map_of (rc_skipped rc) = (\<lambda>k. if k < rc_n rc \<and> k \<notin> D then Some (seed_at P c (unat k)) else None)"

text \<open>The loop of \<open>skip_chain\<close> is that of the sender keys, on the fields of a receiving chain.\<close>

lemma skip_chain_to:
  "skip_chain P n rc = (let (chain, sk) = skip_to P (rc_n rc) n (rc_chain rc) (rc_skipped rc)
     in rc\<lparr>rc_chain := chain, rc_n := max (rc_n rc) n, rc_skipped := sk\<rparr>)"
proof (induction P n rc rule: skip_chain.induct)
  case (1 P n rc)
  show ?case
  proof (cases "rc_n rc < n")
    case True
    have le: "rc_n rc + 1 \<le> n"
      using unat_Suc_word[OF True] True by (simp add: word_le_nat_alt word_less_nat_alt)
    show ?thesis
      by (subst skip_chain.simps, subst skip_to.simps) (use 1[OF True prod.collapse] True le in \<open>auto simp: split_beta Let_def max_def\<close>)
  next
    case False
    then show ?thesis by (subst skip_chain.simps, subst skip_to.simps) (simp add: max_def not_less)
  qed
qed

lemma chain_open_genuine:
  assumes P: "gcm_correct P" and rc: "rc_sync P c D rc" and n: "n \<notin> D" "unat n \<le> unat (rc_n rc) + MAX_SKIP" "n < - 1"
    and ct: "sealed P c n aad pt ct"
  shows "\<exists>rc'. chain_open P rc n ct aad = (Inr pt, rc') \<and> rc_sync P c (insert n D) rc'"
proof -
  obtain key nonce where kn: "kdf_mk P (seed_at P c (unat n)) = (key, nonce)" by fastforce
  then have op: "aead_open P key nonce ct aad = Inr pt"
    using P ct by (auto simp: sealed_def intro: aead_open_seal)
  note suc = unat_Suc_word[OF n(3)] word_less_Suc[OF n(3)]
  show ?thesis
  proof (cases "n < rc_n rc")
    case True
    then have "map_of (rc_skipped rc) n = Some (seed_at P c (unat n))" using rc n(1) by (simp add: rc_sync_def)
    then show ?thesis using rc True op kn by (auto simp: chain_open_def rc_sync_def delete_conv' fun_eq_iff)
  next
    case False
    then have le: "rc_n rc \<le> n" by simp
    obtain sk where sk: "skip_to P (rc_n rc) n (chain_at P c (unat (rc_n rc))) (rc_skipped rc) = (chain_at P c (unat n), sk)"
      "map_of sk = (\<lambda>k. if rc_n rc \<le> k \<and> k < n then Some (seed_at P c (unat k)) else map_of (rc_skipped rc) k)"
      using skip_to_chain[OF le] by blast
    have none: "map_of (rc_skipped rc) n = None" and ch: "rc_chain rc = chain_at P c (unat (rc_n rc))"
      using rc le by (auto simp: rc_sync_def)
    have "unat (n - rc_n rc) = unat n - unat (rc_n rc)" using le by (simp add: unat_sub word_le_nat_alt)
    then have gap: "\<not> MAX_SKIP < unat (n - rc_n rc)" using n(2) by simp
    have skip: "skip_chain P n rc = rc\<lparr>rc_chain := chain_at P c (unat n), rc_n := n, rc_skipped := sk\<rparr>"
      using sk(1) le by (simp add: skip_chain_to ch max_def)
    have o: "chain_open P rc n ct aad = (Inr pt, rc\<lparr>rc_chain := chain_at P c (Suc (unat n)), rc_n := n + 1, rc_skipped := sk\<rparr>)"
      using leD[OF le] gap none op kn by (simp add: chain_open_def skip kdf_ck_chain Let_def del: chain_at.simps)
    have "\<forall>k\<in>D. k \<le> n" using rc le by (auto simp: rc_sync_def)
    moreover have "map_of sk = (\<lambda>k. if k < n \<and> k \<notin> D then Some (seed_at P c (unat k)) else None)"
      using rc le sk(2) by (auto simp: rc_sync_def fun_eq_iff)
    ultimately show ?thesis unfolding o
      by (auto simp: rc_sync_def suc fun_eq_iff le_less simp del: chain_at.simps)
  qed
qed

section \<open>Signed messages\<close>

definition message_of :: "u32 \<Rightarrow> nat \<Rightarrow> u32 \<Rightarrow> bytes \<Rightarrow> bytes \<Rightarrow> bytes" where
  "message_of epoch leaf n ct sig = [GROUP_MSG_V2] @ u32_be epoch @ nat_enc leaf @ u32_be n @ bytes_enc ct @ bytes_enc sig"

lemma parse_message:
  assumes "leaf < 2 ^ 32" "frame_sized ct" "frame_sized sig"
  shows "parse_signed (message_of epoch leaf n ct sig) = Inr \<lparr>sm_epoch = epoch, sm_leaf = leaf, sm_n = n, sm_ct = ct, sm_sig = sig\<rparr>"
proof -
  let ?m = "\<lparr>sm_epoch = epoch, sm_leaf = leaf, sm_n = n, sm_ct = ct, sm_sig = sig\<rparr>"
  have "ends (\<lambda>r. bind_result (wire (get_u8 r)) (\<lambda>(version, r).
       if version \<noteq> GROUP_MSG_V2 then malformed ''group message not signed (v2)''
       else
         bind_result (wire (get_u32 r)) (\<lambda>(epoch, r).
         bind_result (get_nat32 r) (\<lambda>(leaf, r).
         bind_result (wire (get_u32 r)) (\<lambda>(n, r).
         bind_result (wire (get_vec r)) (\<lambda>(ct, r).
         bind_result (wire (get_vec r)) (\<lambda>(sig, r).
         bind_result (wire (finish r)) (\<lambda>_.
           Inr \<lparr>sm_epoch = epoch, sm_leaf = leaf, sm_n = n, sm_ct = ct, sm_sig = sig\<rparr>))))))))
      ([GROUP_MSG_V2] @ u32_be epoch @ nat_enc leaf @ u32_be n @ bytes_enc ct @ bytes_enc sig @ []) ?m"
    by (rule ends_bind[OF reads_err[OF reads_u8]], simp only: not_True_eq_False if_False simp_thms)
      (rule ends_bind[OF reads_err[OF reads_u32]], rule ends_bind[OF reads_nat32[OF assms(1)]], rule ends_bind[OF reads_err[OF reads_u32]],
        rule ends_bind[OF reads_err[OF reads_vec[OF assms(2)]]], rule ends_bind[OF reads_err[OF reads_vec[OF assms(3)]]], rule ends_finish)
  from ends_start[OF this] show ?thesis
    using assms(2,3) by (simp add: message_of_def parse_signed_def frame_sized_def MAX_FRAME_def usize_limit_def nat_enc_def)
qed

lemma kdf_mk_seals:
  assumes "tree_laws P" "kdf_mk P seed = (key, nonce)" "length body + 16 \<le> MAX_FRAME" "length aad < 2 ^ 32"
  obtains ct where "aead_seal P key nonce body aad = Inr ct" "frame_sized ct"
proof -
  have k: "length key = 32" "length nonce = 12"
    using assms(1,2) kdf_lengths(5,6)[of P seed] by (auto simp: tree_laws_def KEY_LEN_def NONCE_LEN_def)
  have "gcm_encrypt P key nonce body aad \<noteq> None"
    using assms(1,3,4) k unfolding tree_laws_def gcm_total_def by (simp add: MAX_FRAME_def)
  then obtain ct where ct: "gcm_encrypt P key nonce body aad = Some ct" by blast
  moreover have "length ct \<le> length body + 16" using assms(1) ct unfolding tree_laws_def gcm_expands_def by blast
  ultimately show ?thesis using that k assms(3) by (simp add: aead_seal_def KEY_LEN_def frame_sized_def)
qed

text \<open>A member that has sent \<open>i\<close> messages in this epoch.\<close>

definition sender_at :: "prims \<Rightarrow> bytes \<Rightarrow> bytes \<Rightarrow> nat \<Rightarrow> treekem_group \<Rightarrow> bool" where
  "sender_at P seed c i x \<longleftrightarrow> tg_my_sig x = Some (from_secret_bytes P seed) \<and> tg_send_chain x = chain_at P c i \<and> tg_send_n x = of_nat i"

definition signed_of :: "prims \<Rightarrow> bytes \<Rightarrow> u32 \<Rightarrow> nat \<Rightarrow> u32 \<Rightarrow> bytes \<Rightarrow> bytes" where
  "signed_of P seed epoch leaf n ct = message_of epoch leaf n ct (id_sign P (from_secret_bytes P seed) (sig_transcript epoch leaf n ct))"

lemma encrypt_signed_run:
  assumes laws: "tree_laws P" and x: "sender_at P seed c i x" and i: "i < 2 ^ 32" and len: "length (padded_body x pt) + 16 \<le> MAX_FRAME"
  obtains ct where "encrypt_signed P pt x = (Inr (signed_of P seed (tg_epoch x) (tg_me x) (of_nat i) ct),
      x\<lparr>tg_send_chain := chain_at P c (Suc i), tg_send_n := of_nat (Suc i)\<rparr>)"
    "sealed P c (of_nat i) (msg_aad (tg_epoch x) (tg_me x) (of_nat i)) (padded_body x pt) ct" "frame_sized ct"
proof -
  obtain key nonce where kn: "kdf_mk P (seed_at P c i) = (key, nonce)" by fastforce
  have "length (msg_aad (tg_epoch x) (tg_me x) (of_nat i)) < 2 ^ 32"
    by (simp add: msg_aad_def into_vec_def codec_simps wbuf_put nat_enc_def)
  then obtain ct where ct: "aead_seal P key nonce (padded_body x pt) (msg_aad (tg_epoch x) (tg_me x) (of_nat i)) = Inr ct" "frame_sized ct"
    using kdf_mk_seals[OF laws kn len] by metis
  have "encrypt_signed P pt x = (Inr (signed_of P seed (tg_epoch x) (tg_me x) (of_nat i) ct),
      x\<lparr>tg_send_chain := chain_at P c (Suc i), tg_send_n := of_nat (Suc i)\<rparr>)"
    using x ct(1) kn
    by (simp add: sender_at_def encrypt_signed_def bind_op_def seal_next_def kdf_ck_chain Let_def signed_of_def message_of_def
        into_vec_def codec_simps wbuf_put writer_new_def add.commute del: chain_at.simps)
  moreover have "sealed P c (of_nat i) (msg_aad (tg_epoch x) (tg_me x) (of_nat i)) (padded_body x pt) ct"
    using ct(1) kn i by (simp add: sealed_def)
  ultimately show ?thesis using that ct(2) by blast
qed

text \<open>A member that can check and open the messages of the sender at \<open>leaf\<close>, and has opened \<open>D\<close> of them.\<close>

definition receiver_at :: "prims \<Rightarrow> bytes \<Rightarrow> bytes \<Rightarrow> u32 \<Rightarrow> nat \<Rightarrow> u32 set \<Rightarrow> treekem_group \<Rightarrow> bool" where
  "receiver_at P seed c epoch leaf D y \<longleftrightarrow> tg_epoch y = epoch \<and>
     map_of (tg_leaf_sig_keys y) leaf = Some (id_public (from_secret_bytes P seed)) \<and> rc_sync P c D (recv_of P y leaf)"

lemma decrypt_verified_genuine:
  assumes laws: "tree_laws P" and y: "receiver_at P seed c epoch leaf D y" and leaf: "leaf < 2 ^ 32"
    and n: "n \<notin> D" "unat n \<le> MAX_SKIP" and ct: "sealed P c n (msg_aad epoch leaf n) (padded_body y pt) ct" "frame_sized ct"
    and pt: "length pt \<le> MAX_FRAME"
  shows "\<exists>y'. decrypt_verified P (signed_of P seed epoch leaf n ct) y = (Inr pt, y') \<and> receiver_at P seed c epoch leaf (insert n D) y' \<and>
    tg_pad_bucket y' = tg_pad_bucket y"
proof -
  have g: "gcm_correct P" "dsa_correct P" using laws by (simp_all add: tree_laws_def)
  have lt: "n < - 1" using n(2) unfolding word_less_nat_alt unat_minus_1_u32 MAX_SKIP_def by (rule le_less_trans) simp
  obtain rc where rc: "chain_open P (recv_of P y leaf) n ct (msg_aad epoch leaf n) = (Inr (padded_body y pt), rc)" "rc_sync P c (insert n D) rc"
    using chain_open_genuine[OF g(1) _ n(1) _ lt ct(1)] y n(2) unfolding receiver_at_def by (meson trans_le_add2)
  let ?y = "y\<lparr>tg_recvs := AList.update leaf rc (tg_recvs y)\<rparr>"
  have "receiver_at P seed c epoch leaf (insert n D) ?y" using y rc(2) by (simp add: receiver_at_def recv_of_def update_conv')
  moreover have "decrypt_verified P (signed_of P seed epoch leaf n ct) y = (Inr pt, ?y)"
    using y rc(1) verify_signed[OF g(2)] parse_message[OF leaf ct(2) sign_frame[OF laws]] unpad_padded[OF pt]
    by (simp add: decrypt_verified_def signed_of_def receiver_at_def group_decrypt_body_def bind_op_def padded_body_def)
  ultimately show ?thesis by auto
qed

text \<open>A batch of messages of one member, and a member that opens a list of messages in order.\<close>

fun encrypt_all :: "prims \<Rightarrow> bytes list \<Rightarrow> bytes list tk_op" where
  "encrypt_all P [] = Pair (Inr [])"
| "encrypt_all P (pt # pts) = bind_op (encrypt_signed P pt) (\<lambda>m. bind_op (encrypt_all P pts) (\<lambda>ms g. (Inr (m # ms), g)))"

fun decrypt_all :: "prims \<Rightarrow> bytes list \<Rightarrow> treekem_group \<Rightarrow> (tk_error + bytes) list \<times> treekem_group" where
  "decrypt_all P [] g = ([], g)"
| "decrypt_all P (m # ms) g = (let (r, g) = decrypt_verified P m g; (rs, g) = decrypt_all P ms g in (r # rs, g))"

definition batch :: "prims \<Rightarrow> bytes \<Rightarrow> bytes \<Rightarrow> u32 \<Rightarrow> nat \<Rightarrow> nat \<Rightarrow> nat \<Rightarrow> bytes list \<Rightarrow> bytes list \<Rightarrow> bool" where
  "batch P seed c epoch leaf bucket i pts ms \<longleftrightarrow> length ms = length pts \<and> (\<forall>j<length pts. \<exists>ct.
     ms ! j = signed_of P seed epoch leaf (of_nat (i + j)) ct \<and> frame_sized ct \<and>
     sealed P c (of_nat (i + j)) (msg_aad epoch leaf (of_nat (i + j)))
       (if bucket > 0 then pad_to_bucket (pts ! j) bucket else pts ! j) ct)"

lemma encrypt_all_run:
  assumes "tree_laws P" "sender_at P seed c i x" "i + length pts \<le> 2 ^ 32" "\<forall>pt\<in>set pts. length (padded_body x pt) + 16 \<le> MAX_FRAME"
  shows "\<exists>ms x'. encrypt_all P pts x = (Inr ms, x') \<and> batch P seed c (tg_epoch x) (tg_me x) (tg_pad_bucket x) i pts ms"
  using assms
proof (induction pts arbitrary: i x)
  case (Cons pt pts)
  let ?x = "x\<lparr>tg_send_chain := chain_at P c (Suc i), tg_send_n := of_nat (Suc i)\<rparr>"
  have i: "i < 2 ^ 32" "length (padded_body x pt) + 16 \<le> MAX_FRAME" using Cons.prems(3,4) by simp_all
  obtain ct where ct: "encrypt_signed P pt x = (Inr (signed_of P seed (tg_epoch x) (tg_me x) (of_nat i) ct), ?x)"
    "sealed P c (of_nat i) (msg_aad (tg_epoch x) (tg_me x) (of_nat i)) (padded_body x pt) ct" "frame_sized ct"
    by (rule encrypt_signed_run[OF Cons.prems(1,2) i])
  have s: "sender_at P seed c (Suc i) ?x" using Cons.prems(2) by (simp add: sender_at_def del: chain_at.simps)
  have "padded_body ?x = padded_body x" by (simp add: padded_body_def fun_eq_iff)
  then have "\<forall>pt\<in>set pts. length (padded_body ?x pt) + 16 \<le> MAX_FRAME" "Suc i + length pts \<le> 2 ^ 32"
    using Cons.prems(3,4) by simp_all
  then obtain ms x' where ms: "encrypt_all P pts ?x = (Inr ms, x')" "batch P seed c (tg_epoch x) (tg_me x) (tg_pad_bucket x) (Suc i) pts ms"
    using Cons.IH[OF Cons.prems(1) s] by auto
  have "batch P seed c (tg_epoch x) (tg_me x) (tg_pad_bucket x) i (pt # pts) (signed_of P seed (tg_epoch x) (tg_me x) (of_nat i) ct # ms)"
    unfolding batch_def
  proof (intro conjI allI impI)
    fix j assume "j < length (pt # pts)"
    then show "\<exists>ct'. (signed_of P seed (tg_epoch x) (tg_me x) (of_nat i) ct # ms) ! j = signed_of P seed (tg_epoch x) (tg_me x) (of_nat (i + j)) ct' \<and>
        frame_sized ct' \<and> sealed P c (of_nat (i + j)) (msg_aad (tg_epoch x) (tg_me x) (of_nat (i + j)))
         (if tg_pad_bucket x > 0 then pad_to_bucket ((pt # pts) ! j) (tg_pad_bucket x) else (pt # pts) ! j) ct'"
      using ct(2,3) ms(2) by (cases j) (auto simp: batch_def padded_body_def)
  qed (use ms(2) in \<open>simp add: batch_def\<close>)
  then show ?case using ct(1) ms(1) by (simp add: bind_op_def)
qed (simp add: batch_def)

lemma decrypt_all_run:
  assumes laws: "tree_laws P" and y: "receiver_at P seed c epoch leaf (of_nat ` D) y" and leaf: "leaf < 2 ^ 32"
    and b: "batch P seed c epoch leaf (tg_pad_bucket y) 0 pts ms" and len: "\<forall>pt\<in>set pts. length pt \<le> MAX_FRAME" "length pts \<le> MAX_SKIP"
    and js: "distinct js" "set js \<inter> D = {}" "set js \<union> D \<subseteq> {..<length pts}"
  shows "fst (decrypt_all P (map ((!) ms) js) y) = map (\<lambda>j. Inr (pts ! j)) js"
  using y js b
proof (induction js arbitrary: y D)
  case (Cons j js)
  have small: "unat (of_nat k :: u32) = k" if "k < length pts" for k
    using that len(2) by (intro unat_u32_of_nat) (simp add: MAX_SKIP_def)
  have j: "j < length pts" "j \<notin> D" "D \<subseteq> {..<length pts}" using Cons.prems(3,4) by auto
  have new: "(of_nat j :: u32) \<notin> of_nat ` D"
    using j small by (metis imageE lessThan_iff subsetD)
  obtain ct where ct: "ms ! j = signed_of P seed epoch leaf (of_nat j) ct" "frame_sized ct"
    "sealed P c (of_nat j) (msg_aad epoch leaf (of_nat j)) (padded_body y (pts ! j)) ct"
    using Cons.prems(5) j(1) by (auto simp: batch_def padded_body_def)
  have n: "unat (of_nat j :: u32) \<le> MAX_SKIP" "length (pts ! j) \<le> MAX_FRAME" using small[OF j(1)] j(1) len by simp_all
  obtain y' where y': "decrypt_verified P (ms ! j) y = (Inr (pts ! j), y')" "receiver_at P seed c epoch leaf (of_nat ` insert j D) y'"
      "tg_pad_bucket y' = tg_pad_bucket y"
    using decrypt_verified_genuine[OF laws Cons.prems(1) leaf new n(1) ct(3,2) n(2)] ct(1) by auto
  have "fst (decrypt_all P (map ((!) ms) js) y') = map (\<lambda>j. Inr (pts ! j)) js"
    using Cons.prems y'(3) by (intro Cons.IH[OF y'(2)]) auto
  then show ?case using y'(1) by (simp add: split_beta)
qed simp

section \<open>Every commit starts the chains afresh\<close>

definition fresh_epoch :: "prims \<Rightarrow> treekem_group \<Rightarrow> bool" where
  "fresh_epoch P g \<longleftrightarrow> tg_send_chain g = sender_chain P (tg_epoch_secret g) (tg_me g) \<and> tg_send_n g = 0 \<and> tg_recvs g = []"

lemma fresh_reset [simp]: "fresh_epoch P (reset_epoch P g)"
  by (simp add: fresh_epoch_def reset_epoch_def)

lemma bind_op_Inr: "bind_op m f g = (Inr y, g') \<longleftrightarrow> (\<exists>x g1. m g = (Inr x, g1) \<and> f x g1 = (Inr y, g'))"
  by (auto simp: bind_op_def split: prod.splits sum.splits)

lemma fresh_apply: "apply_commit P pct cm g = (Inr (), g') \<Longrightarrow> fresh_epoch P g'"
  by (auto simp: apply_commit_def bind_op_Inr split: sum.splits)

lemma fresh_rekey: "rekey_path P c ps su g = (Inr cm, g') \<Longrightarrow> fresh_epoch P g'"
  unfolding rekey_path_def Let_def bind_op_Inr by (elim exE conjE) (split sum.split_asm; clarsimp)

lemma fresh_create: "create_with_sig P c profile k = Inr g \<Longrightarrow> fresh_epoch P g"
  unfolding create_with_sig_def Let_def by (auto split: sum.splits prod.splits option.splits)

lemma fresh_add: "group_add P c kp g = (Inr x, g') \<Longrightarrow> fresh_epoch P g'"
  unfolding group_add_def Let_def by (auto simp: bind_op_Inr dest: fresh_rekey split: option.splits)

lemma fresh_remove: "group_remove P c l g = (Inr cm, g') \<Longrightarrow> fresh_epoch P g'"
  unfolding group_remove_def bind_op_Inr by (auto dest: fresh_rekey)

lemma fresh_commit: "commit_update P c l b g = (Inr cm, g') \<Longrightarrow> fresh_epoch P g'"
  unfolding commit_update_def by (auto simp: bind_op_Inr dest: fresh_rekey split: sum.splits)

lemma fresh_update: "group_update P c g = (Inr cm, g') \<Longrightarrow> fresh_epoch P g'"
  unfolding group_update_def Let_def bind_op_Inr by (auto dest!: fresh_rekey simp: fresh_epoch_def)

lemma fresh_join: "join_with_welcome P pct lk wl = Inr g \<Longrightarrow> fresh_epoch P g"
  unfolding join_with_welcome_def Let_def bind_result_eq_Inr
  by (elim exE conjE) (clarsimp, split prod.split_asm, split sum.split_asm; clarsimp)

lemmas fresh_ops = fresh_create fresh_add fresh_remove fresh_commit fresh_update fresh_join

lemma fresh_deliver: "accepts P pct cm gs \<Longrightarrow> g \<in> set (map (deliver P pct cm) gs) \<Longrightarrow> fresh_epoch P g"
  using fresh_apply by (fastforce simp: accepts_def deliver_def list_all_iff prod_eq_iff)

lemma run_fresh:
  assumes laws: "tree_laws P" and "tk_run P h gs"
  shows "\<forall>g\<in>set (h # gs). fresh_epoch P g"
  using assms(2)
proof (cases rule: tk_run.cases)
  case (created c profile seed)
  then show ?thesis using fresh_ops(1) by simp
next
  case (added h0 gs0 cj lk kpct kp c l cm wl pct g)
  obtain d where "session_ok P d h0 gs0" using run_session[OF laws added(2)] by blast
  then have "accepts P pct cm gs0" using add_session[OF laws _ added(3,5), of d gs0 kpct pct] added(4,6) by fastforce
  then show ?thesis using fresh_ops(2)[OF added(6)] fresh_ops(6)[OF added(7)] fresh_deliver added(1) by auto
next
  case (removed h0 gs0 l c cm pct)
  obtain d where "session_ok P d h0 gs0" using run_session[OF laws removed(2)] by blast
  then have "accepts P pct cm (filter (\<lambda>g. tg_me g \<noteq> l) gs0)" using remove_session[OF laws _ removed(3,4,5), of d gs0 pct] removed(6) by fastforce
  then show ?thesis using fresh_ops(3)[OF removed(6)] fresh_deliver unfolding removed(1) by (metis set_ConsD)
next
  case (rekeyed h0 gs0 c cm pct)
  obtain d where "session_ok P d h0 gs0" using run_session[OF laws rekeyed(2)] by blast
  then have "accepts P pct cm gs0" using rekey_session[OF laws _ rekeyed(3), of d h0 gs0 pct] rekeyed(4) by fastforce
  then show ?thesis using fresh_ops(5)[OF rekeyed(4)] fresh_deliver unfolding rekeyed(1) by (metis set_ConsD)
next
  case (updated h0 xs g ys cj kpct b g1 c cm pct)
  obtain d where "session_ok P d h0 (xs @ g # ys)" using run_session[OF laws updated(2)] by blast
  then have "accepts P pct cm (xs @ g1 # ys)" using update_session[OF laws _ updated(3,4,6), of d xs g ys kpct pct] updated(5,7) by fastforce
  then show ?thesis using fresh_ops(4)[OF updated(7)] fresh_deliver unfolding updated(1) by (metis set_ConsD)
qed

section \<open>Properties\<close>

text \<open>
  C10. Group messages. In every state a run of a group reaches, any member or the host seals a batch of
  messages under any padding bucket, which always succeeds for bodies that fit a frame; any
  member or the host with the same bucket that receives some of them, each at most once, in
  any order, verifies the signature and recovers exactly the plaintexts.
\<close>

theorem group_messages_delivered:
  assumes "tree_laws P" "tk_run P h gs" "x \<in> set (h # gs)" "tg_me x < 2 ^ 32" "y \<in> set (h # gs)"
    and "length pts \<le> MAX_SKIP" "\<forall>pt\<in>set pts. length pt \<le> MAX_FRAME \<and> length (padded_body (set_pad_bucket k x) pt) + 16 \<le> MAX_FRAME"
    and "distinct js" "\<forall>j\<in>set js. j < length pts"
  shows "\<exists>ms x'. encrypt_all P pts (set_pad_bucket k x) = (Inr ms, x') \<and> length ms = length pts \<and>
    fst (decrypt_all P (map ((!) ms) js) (set_pad_bucket k y)) = map (\<lambda>j. Inr (pts ! j)) js"
proof -
  obtain d where d: "session_ok P d h gs" using run_session[OF assms(1,2)] by blast
  have m: "member P d g \<and> in_step h g" if "g \<in> set (h # gs)" for g
    using d that by (auto simp: session_ok_def host_ok_def follower_def in_step_def same_tree_def)
  note fresh = run_fresh[OF assms(1,2)]
  let ?x = "set_pad_bucket k x" and ?y = "set_pad_bucket k y" and ?c = "sender_chain P (tg_epoch_secret x) (tg_me x)"
  obtain seed where seed: "tg_my_sig x = Some (from_secret_bytes P seed)" "map_of (tg_leaf_sig_keys x) (tg_me x) = Some (id_public (from_secret_bytes P seed))"
    using m[OF assms(3)] by (auto simp: member_def signs_def)
  have s: "sender_at P seed ?c 0 ?x" using seed(1) fresh assms(3) by (auto simp: sender_at_def set_pad_bucket_def fresh_epoch_def)
  have len: "0 + length pts \<le> 2 ^ 32" "\<forall>pt\<in>set pts. length (padded_body ?x pt) + 16 \<le> MAX_FRAME" "\<forall>pt\<in>set pts. length pt \<le> MAX_FRAME"
    using assms(6,7) by (simp_all add: MAX_SKIP_def)
  obtain ms x' where ms: "encrypt_all P pts ?x = (Inr ms, x')" "batch P seed ?c (tg_epoch x) (tg_me x) (tg_pad_bucket ?y) 0 pts ms"
    using encrypt_all_run[OF assms(1) s len(1,2)] by (auto simp: set_pad_bucket_def)
  have same: "tg_epoch y = tg_epoch x" "tg_epoch_secret y = tg_epoch_secret x" "map_of (tg_leaf_sig_keys y) = map_of (tg_leaf_sig_keys x)"
    using m[OF assms(3)] m[OF assms(5)] by (auto simp: in_step_def same_tree_def)
  have r: "receiver_at P seed ?c (tg_epoch x) (tg_me x) (of_nat ` {}) ?y"
    using fresh assms(5) seed(2) same
    by (auto simp: receiver_at_def set_pad_bucket_def fresh_epoch_def recv_of_def rc_sync_def fun_eq_iff)
  have "fst (decrypt_all P (map ((!) ms) js) ?y) = map (\<lambda>j. Inr (pts ! j)) js"
    using assms(8,9) by (intro decrypt_all_run[OF assms(1) r assms(4) ms(2) len(3) assms(6)]) auto
  then show ?thesis using ms by (auto simp: batch_def)
qed

theorem group_messages_delivered_witness:
  "\<exists>h g ms x'. tk_run demo_prims h [g] \<and> encrypt_all demo_prims [[1], [2, 3]] (set_pad_bucket 0 h) = (Inr ms, x') \<and>
     fst (decrypt_all demo_prims (map ((!) ms) [1, 0]) (set_pad_bucket 0 g)) = [Inr [2, 3], Inr [1]]"
proof -
  obtain h g where r: "tk_run demo_prims h [g]" using demo_run by blast
  obtain d where "session_ok demo_prims d h [g]" using run_session[OF demo_tree_laws r] by blast
  then have "tg_me h < 2 ^ 32" by (simp add: session_ok_def host_ok_def HOST_LEAF_def)
  then obtain ms x' where "encrypt_all demo_prims [[1], [2, 3]] (set_pad_bucket 0 h) = (Inr ms, x')"
      "fst (decrypt_all demo_prims (map ((!) ms) [1, 0]) (set_pad_bucket 0 g)) = map (\<lambda>j. Inr ([[1], [2, 3]] ! j)) [1, 0]"
    using group_messages_delivered[OF demo_tree_laws r, of h g "[[1], [2, 3]]" 0 "[1, 0]"]
    by (auto simp: MAX_SKIP_def MAX_FRAME_def padded_body_def set_pad_bucket_def)
  then show ?thesis using r by (intro exI[of _ h] exI[of _ g] exI[of _ ms] exI[of _ x']) simp
qed

end
