(* ===== verification/Spec2Isabelle.thy ===== *)
theory Spec2Isabelle
  imports Wire Base32 TreeMath Crypto SenderKeys MlsSchedule RatchetKey Ratchet RatchetRun
    Conversation Frag Codec Marking History Outbox Account Linkage Vouch Presence NameTrust Descriptor TrustRun TreeMessages
begin

text \<open>
  A verification library for talkrypt, the post-quantum group messenger whose Rust workspace is under
  \<open>src/crates\<close>. Two members who share an invite (\<open>core/descriptor.rs\<close>) derive a session root from it
  and run a Double Ratchet (\<open>crypto/ratchet.rs\<close>) over it; the members of a group chat share a TreeKEM
  group (\<open>crypto/treekem.rs\<close>) that one host commits to. On these channels the engine
  (\<open>core/engine.rs\<close>) exchanges identities, linkage proofs, vouches and names, and decides whom to
  admit and how to show them. Frames wait in an outbox or at a keeper (\<open>core/outbox.rs\<close>,
  \<open>core/keeper.rs\<close>) and cross mesh links in fragments (\<open>transport/mesh/frag.rs\<close>). Everything is
  written with one codec (\<open>wire\<close>).

  \<^bold>\<open>How the code is modelled.\<close> A struct is a record, an enum a datatype, a \<open>Vec<u8>\<close> or a \<open>String\<close> a list
  of 8-bit words; \<open>u16\<close>, \<open>u32\<close> and \<open>u64\<close> are words of their width, \<open>usize\<close> is a natural number with
  the 64-bit limit written out where the code checks it. \<open>Result\<close> is a sum with the error on the
  left, the question mark is \<open>bind_result\<close>; a method on \<open>&mut self\<close> returns the new state beside its
  result and keeps on an error what the code keeps. A panic or a loop that does not end is None, or
  the error \<open>Panic\<close> of TreeKEM. Hash maps are association lists. Lookups are stated over
  \<open>map_of\<close>; where the code iterates over a map, the list gives one of the possible orders, as in the
  Welcome and in the index of groupings. Loops are recursive functions with
  a termination proof; the loops of the MLS tree and its secret tree on wrapping indices are partial
  functions that are proved to return, and no function uses fuel.

  The primitives (KMAC256, SHA-2, SHA-3, AES-GCM, HKDF, ML-KEM-1024, X25519, ML-DSA-87) are the fields of the
  record \<open>prims\<close>; Argon2id, NFKC and lower case are arguments. What the code relies on is named:
  \<open>kmac_sized\<close>, \<open>gcm_correct\<close>, \<open>kem_correct\<close>, \<open>kem_sized\<close>, \<open>x_agrees\<close>, \<open>dsa_correct\<close>, and for TreeKEM the
  bundle \<open>tree_laws\<close>, which adds that sealing and encapsulating succeed and how much they add. They are
  correctness laws of the primitives, with no secrecy in them; \<open>demo_prims\<close> satisfies all of them and
  carries the witnesses. Randomness is an argument of the operation that draws it. Time is an
  argument of the handlers that read the clock.

  \<^bold>\<open>The theories.\<close>

  \<^item> \<open>Prelude\<close>: machine types, the result type, words in bytes, association lists, and the
    contract of an injective prefix code (locale \<open>prefix_code\<close>).
  \<^item> \<open>Wire\<close> (\<open>wire/src/lib.rs\<close>): \<open>Writer\<close>, \<open>Reader\<close>, padding to buckets and the bounded decoder. The locale
    \<open>field_codec\<close> is the contract of a field; it is interpreted on the four field types. Lemmas: each field is
    read back exactly and only from its own encoding, padding is undone by unpadding, and the bounded
    decoder accepts exactly its grammar. \<open>Codec\<close> composes the readers (\<open>reads\<close>, \<open>ends\<close>, \<open>decodes\<close>, \<open>scans\<close>);
    all later round trips are instances. \<open>Base32\<close> (\<open>core/b32.rs\<close>) is the text form of an invite.
  \<^item> \<open>Crypto\<close> (\<open>crypto/kdf.rs\<close>, \<open>aead.rs\<close>, \<open>identity.rs\<close>): the primitives, the derivations and signing.
  \<^item> \<open>RatchetKey\<close> (\<open>crypto/hybrid.rs\<close>), \<open>Ratchet\<close> (\<open>crypto/ratchet.rs\<close>), \<open>RatchetRun\<close>, \<open>Conversation\<close>: ratchet keys and
    sessions; floods are refused and the cache of skipped seeds is bounded; in every interleaved
    conversation of two parties each message in flight decrypts.
  \<^item> \<open>SenderKeys\<close> (\<open>crypto/group.rs\<close>): sender-key groups; delivery in any order, refusal of replays, and how
    a rejected forgery allows one.
  \<^item> \<open>TreeMath\<close> and \<open>MlsSchedule\<close> (\<open>crypto/mls\<close>): the tree arithmetic on 32-bit indices, the key schedule, the
    secret tree and the labelled framings, which are injective.
  \<^item> \<open>TreeKem\<close> (\<open>crypto/treekem.rs\<close>): nodes, key packages, proposals, commits, Welcomes, the group state with every
    operation of host and members, and group messages. \<open>TreeAgree\<close>: the geometry of the tree,
    resolutions and path secrets. \<open>TreeCommit\<close>: what a member computes from an update path. \<open>TreeGroup\<close>: what
    a proposal does to the shared tree, and that the host's re-keying succeeds. \<open>TreeRun\<close>,
    \<open>TreeUpdate\<close>: one lemma per operation. \<open>TreeWire\<close>: the wire forms. \<open>TreeSession\<close>: runs of a
    group (\<open>tk_run\<close>), in which all operations succeed and the members agree with the host, a removed
    member is shut out, and a second proposal puts its member out of step. \<open>TreeMessages\<close>: signed
    messages are delivered in any order.
  \<^item> \<open>Frag\<close> (\<open>transport/mesh/frag.rs\<close>): splitting and reassembly; the invariant of the bounded
    reassembler, delivery under interleaving, and what escapes its byte cap.
  \<^item> \<open>Outbox\<close> (\<open>core/outbox.rs\<close>, \<open>core/keeper.rs\<close>): both queues over the store interface (locale \<open>outbox_store\<close>,
    interpreted on the in-memory store); they implement bounded FIFO queues.
  \<^item> \<open>Marking\<close>, \<open>History\<close> (\<open>core/marking.rs\<close>, \<open>core/history.rs\<close>): message payloads and records.
  \<^item> \<open>Account\<close> (\<open>crypto/account.rs\<close>, \<open>crypto/grouping.rs\<close>, \<open>core/contacts.rs\<close>), \<open>Linkage\<close> (\<open>core/linkage.rs\<close>), \<open>Vouch\<close>
    (\<open>core/vouch.rs\<close>): chains, claims, linkage proofs and the vouch evaluation, each characterised exactly.
  \<^item> \<open>Presence\<close> (\<open>core/presence.rs\<close>), \<open>NameTrust\<close> (\<open>core/nametrust.rs\<close>), \<open>Descriptor\<close> (\<open>core/descriptor.rs\<close>): names and
    how they are shown, the invite and the session root.
  \<^item> \<open>Trust\<close>, \<open>TrustRun\<close> (the trust fields and handlers of \<open>core/engine.rs\<close>): who is admitted, and that all
    recorded trust is backed by verified frames that were received; the last section proves where
    admission, revocation and the vouch ledger fall short of their documentation.

  \<^bold>\<open>Bounds.\<close> Lengths that the code casts to \<open>u32\<close> are bounded by \<open>MAX_FRAME\<close> (\<open>frame_sized\<close>) wherever a round
  trip is claimed; tree positions by \<open>MAX_TREE_ITEMS\<close> where a proposal is decoded and by \<open>2 ^ 32\<close> where
  a leaf is written; MLS trees have at most \<open>2 ^ 30\<close> leaves, so that their indices fit 32 bits; message
  batches are within \<open>MAX_SKIP\<close>, the gap the receivers tolerate.

  \<^bold>\<open>Not modelled.\<close> The asynchronous part of the engine (tasks, locks, sockets, timers, routing and host promotion),
  the handshake over the Noise package, transports, at-rest files, the helper daemon, user
  interfaces and bindings: they are I/O around third-party code. Zeroizing destructors, page locking and
  self-tests at start-up have no effect on the values modelled. No theorem speaks about what an
  attacker cannot compute.
\<close>

end
